(* ===== verification/Prelude.thy ===== *)
theory Prelude
  imports Main "HOL-Library.Word"
begin

text \<open>
  Shared vocabulary of the development: the machine integers of the sources (x86-64: \<open>int\<close> is 32
  bits wide, \<open>long\<close>, \<open>size_t\<close> and pointers are 64 bits wide), the ways a run of C code can go
  wrong, the error numbers the modelled files return, block copies on byte arrays, and the list
  and word lemmas that the component theories use.
\<close>

section \<open>Machine types\<close>

type_synonym byte = "8 word"
type_synonym u32 = "32 word"
type_synonym u64 = "64 word"

text \<open>
  \<open>crash\<close> lists the ways in which the modelled code stops without returning: a failed
  \<open>BUG_ON\<close>, a copy that leaves the object it writes to or reads from, an access through a null
  pointer, a division by zero, a use of freed memory, an overflow of signed arithmetic.
\<close>

datatype crash = BugOn | OutOfBounds | NullDeref | DivideByZero | UseAfterFree | SignedOverflow

datatype 'a outcome = Done 'a | Crash crash

fun outcome_bind :: "'a outcome \<Rightarrow> ('a \<Rightarrow> 'b outcome) \<Rightarrow> 'b outcome" where
  "outcome_bind (Done x) f = f x"
| "outcome_bind (Crash c) f = Crash c"

lemma outcome_bind_eq_Done [simp]:
  "outcome_bind x f = Done y \<longleftrightarrow> (\<exists>z. x = Done z \<and> f z = Done y)"
  by (cases x) auto

lemma outcome_bind_assoc: "outcome_bind (outcome_bind x f) g = outcome_bind x (\<lambda>y. outcome_bind (f y) g)"
  by (cases x) simp_all

text \<open>Arrays accessed by index, signed 32-bit results, and \<open>for\<close> loops.\<close>

definition get_at :: "'a list \<Rightarrow> nat \<Rightarrow> 'a outcome" where
  "get_at xs i = (if i < length xs then Done (xs ! i) else Crash OutOfBounds)"

definition set_at :: "'a list \<Rightarrow> nat \<Rightarrow> 'a \<Rightarrow> 'a list outcome" where
  "set_at xs i x = (if i < length xs then Done (xs[i := x]) else Crash OutOfBounds)"

definition signed32 :: "int \<Rightarrow> int outcome" where
  "signed32 x = (if - (2 ^ 31) \<le> x \<and> x < 2 ^ 31 then Done x else Crash SignedOverflow)"

fun for_each :: "('a \<Rightarrow> 's \<Rightarrow> 's outcome) \<Rightarrow> 'a list \<Rightarrow> 's \<Rightarrow> 's outcome" where
  "for_each body [] s = Done s"
| "for_each body (x # xs) s = outcome_bind (body x s) (for_each body xs)"

section \<open>Error numbers\<close>

text \<open>The error numbers (\<open>errno.h\<close>, and \<open>ERESTARTSYS\<close> of the kernel) that the modelled files use.\<close>

definition EIO :: int where "EIO = 5"
definition ENOMEM :: int where "ENOMEM = 12"
definition EFAULT :: int where "EFAULT = 14"
definition EBUSY :: int where "EBUSY = 16"
definition ENODEV :: int where "ENODEV = 19"
definition EINVAL :: int where "EINVAL = 22"
definition ENOTTY :: int where "ENOTTY = 25"
definition ERESTARTSYS :: int where "ERESTARTSYS = 512"

lemmas errno_defs = EIO_def ENOMEM_def EFAULT_def EBUSY_def ENODEV_def EINVAL_def ENOTTY_def
  ERESTARTSYS_def

text \<open>A negative error number as the 64-bit value a file operation returns.\<close>

definition ssize_err :: "int \<Rightarrow> u64" where
  "ssize_err e = word_of_int (- e)"

section \<open>Block copies\<close>

text \<open>
  \<open>blit buf i bs\<close> is the array \<open>buf\<close> after \<open>memcpy(buf + i, bs, length bs)\<close>; the callers check
  that the copy stays inside the array. \<open>chunk buf i n\<close> is what \<open>memcpy(dst, buf + i, n)\<close> reads.
\<close>

definition blit :: "'a list \<Rightarrow> nat \<Rightarrow> 'a list \<Rightarrow> 'a list" where
  "blit buf i bs = take i buf @ bs @ drop (i + length bs) buf"

definition chunk :: "'a list \<Rightarrow> nat \<Rightarrow> nat \<Rightarrow> 'a list" where
  "chunk buf i n = take n (drop i buf)"

named_theorems block_simps

lemma length_blit [simp, block_simps]:
  "i + length bs \<le> length buf \<Longrightarrow> length (blit buf i bs) = length buf"
  by (simp add: blit_def)

lemma length_chunk [simp, block_simps]:
  "i + n \<le> length buf \<Longrightarrow> length (chunk buf i n) = n"
  by (simp add: chunk_def)

lemma blit_Nil [simp]: "blit buf i [] = buf"
  by (simp add: blit_def)

lemma chunk_0 [simp]: "chunk buf i 0 = []"
  by (simp add: chunk_def)

lemma chunk_blit [block_simps]:
  "i + length bs \<le> length buf \<Longrightarrow> chunk (blit buf i bs) i (length bs) = bs"
  by (simp add: chunk_def blit_def)

lemma nth_blit:
  assumes "i + length bs \<le> length buf" and "j < length buf"
  shows "blit buf i bs ! j = (if i \<le> j \<and> j < i + length bs then bs ! (j - i) else buf ! j)"
  using assms by (auto simp: blit_def nth_append min_def)

lemma nth_chunk:
  "i + n \<le> length buf \<Longrightarrow> j < n \<Longrightarrow> chunk buf i n ! j = buf ! (i + j)"
  by (simp add: chunk_def)

lemma chunk_blit_disjoint:
  assumes "i + length bs \<le> length buf" and "j + n \<le> length buf"
    and "j + n \<le> i \<or> i + length bs \<le> j"
  shows "chunk (blit buf i bs) j n = chunk buf j n"
  by (rule nth_equalityI) (use assms in \<open>auto simp: nth_chunk nth_blit\<close>)

lemma chunk_append:
  "chunk buf i n @ chunk buf (i + n) m = chunk buf i (n + m)"
  by (simp add: chunk_def take_add) (simp add: add.commute)

lemma blit_blit_adjacent:
  assumes "i + length bs + length cs \<le> length buf"
  shows "blit (blit buf i bs) (i + length bs) cs = blit buf i (bs @ cs)"
  using assms by (simp add: blit_def ac_simps)

section \<open>Words\<close>

text \<open>
  The sizes in the modelled files fit in 31 bits, so that they survive the conversions between
  \<open>int\<close> and \<open>size_t\<close> that the code performs.
\<close>

lemma unat_of_nat_u64 [simp]: "n < 2 ^ 64 \<Longrightarrow> unat (of_nat n :: u64) = n"
  by (simp add: unat_of_nat take_bit_nat_eq_self)

lemma unat_of_nat_u32: "n < 2 ^ 32 \<Longrightarrow> unat (of_nat n :: u32) = n"
  by (simp add: unat_of_nat take_bit_nat_eq_self)

lemma unat_less_u64: "unat (w :: u64) < 2 ^ 64"
  by (rule order_less_le_trans [OF unsigned_less]) simp

lemma unat_less_u32: "unat (w :: u32) < 2 ^ 32"
  by (rule order_less_le_trans [OF unsigned_less]) simp

lemma unat_ucast_u64: "unat (ucast (w :: u32) :: u64) = unat w"
  using unat_less_u32 [of w] by (simp add: unsigned_ucast_eq take_bit_nat_eq_self)

lemma of_nat_u32_eq_0:
  "n < 2 ^ 32 \<Longrightarrow> (of_nat n :: u32) = 0 \<longleftrightarrow> n = 0"
  by (simp add: word_of_nat_eq_0_iff) (metis dvd_imp_le not_less gr0I dvd_0_right)

lemma sint_ucast_small:
  assumes "unat (w :: u64) < 2 ^ 31"
  shows "sint (ucast w :: u32) = int (unat w)"
proof -
  have u: "uint w < 2 ^ 31"
    using assms by (metis of_nat_less_iff of_nat_numeral of_nat_power uint_nat)
  have "sint (ucast w :: u32) = signed_take_bit (LENGTH(32) - Suc 0) (uint w)"
    by (rule signed_ucast_eq)
  also have "\<dots> = uint w"
  proof (rule signed_take_bit_int_eq_self)
    show "- (2 ^ (LENGTH(32) - Suc 0)) \<le> uint w"
      by (rule order_trans [OF _ uint_ge_0]) simp
    show "uint w < 2 ^ (LENGTH(32) - Suc 0)"
      using u by simp
  qed
  finally show ?thesis
    by (simp only: uint_nat)
qed

lemma scast_ucast_small:
  assumes "unat (w :: u64) < 2 ^ 31"
  shows "(scast (ucast w :: u32) :: u64) = w"
  using sint_ucast_small [OF assms] by (simp add: scast_eq)

lemma unat_diff_u64: "(b :: u64) \<le> a \<Longrightarrow> unat (a - b) = unat a - unat b"
  by (rule unat_sub)

lemma unat_add_u64: "unat a + unat b < 2 ^ 64 \<Longrightarrow> unat (a + b :: u64) = unat a + unat b"
  using unat_add_lem [of a b] by simp

lemma unat_min_u64: "unat (min a b :: u64) = min (unat a) (unat b)"
  by (simp add: min_def word_le_nat_alt)

lemma sint_of_nat_u64:
  assumes "n < 2 ^ 63"
  shows "sint (of_nat n :: u64) = int n"
proof -
  have "sint (word_of_int (int n) :: u64) = (int n + 2 ^ 63) mod 2 ^ 64 - 2 ^ 63"
    by (subst int_word_sint) simp
  also have "\<dots> = int n"
    using assms by (subst mod_pos_pos_trivial) auto
  finally show ?thesis by simp
qed

lemma ucast_word_of_int: "(ucast (word_of_int x :: u64) :: u32) = word_of_int x"
  by (rule bit_word_eqI) (simp add: bit_simps)

lemma sint_word_of_int_u32:
  assumes "- (2 ^ 31) \<le> x" and "x < 2 ^ 31"
  shows "sint (word_of_int x :: u32) = x"
proof -
  have "sint (word_of_int x :: u32) = (x + 2 ^ 31) mod 2 ^ 32 - 2 ^ 31"
    by (subst int_word_sint) simp
  also have "\<dots> = x"
    using assms by (subst mod_pos_pos_trivial) auto
  finally show ?thesis .
qed

lemma sint_word_of_int_u64:
  assumes "- (2 ^ 63) \<le> x" and "x < 2 ^ 63"
  shows "sint (word_of_int x :: u64) = x"
proof -
  have "sint (word_of_int x :: u64) = (x + 2 ^ 63) mod 2 ^ 64 - 2 ^ 63"
    by (subst int_word_sint) simp
  also have "\<dots> = x"
    using assms by (subst mod_pos_pos_trivial) auto
  finally show ?thesis .
qed

lemma scast_ucast_int:
  assumes "- (2 ^ 31) \<le> x" and "x < 2 ^ 31"
  shows "(scast (ucast (word_of_int x :: u64) :: u32) :: u64) = word_of_int x"
  using sint_word_of_int_u32 [OF assms] by (simp only: ucast_word_of_int scast_eq)

lemma sint_small_u64: "unat (w :: u64) < 2 ^ 63 \<Longrightarrow> sint w = int (unat w)"
  using sint_of_nat_u64 [of "unat w"] by simp

end
