(* ===== verification/KernelApi.thy ===== *)
theory KernelApi
  imports Prelude
begin

text \<open>
  The user-memory interface of the kernel that the drivers call. Its code is not part of this
  repository, so a record of functions stands for it, and every driver operation takes the record
  as an argument. \<open>uaccess_laws\<close> collects what the kernel documents about these functions; the
  theorems about the drivers name it as a hypothesis. \<open>mapped_uaccess\<close> is one set of functions
  that obeys the laws: user memory is mapped below a limit, and a copy stops at the limit.
\<close>

section \<open>User memory\<close>

type_synonym umem = "u64 \<Rightarrow> byte"

definition user_bytes :: "umem \<Rightarrow> u64 \<Rightarrow> nat \<Rightarrow> byte list" where
  "user_bytes um a n = map (\<lambda>i. um (a + of_nat i)) [0..<n]"

definition user_store :: "umem \<Rightarrow> u64 \<Rightarrow> byte list \<Rightarrow> umem" where
  "user_store um a bs = (\<lambda>x. if unat (x - a) < length bs then bs ! unat (x - a) else um x)"

record uaccess =
  access_ok :: "u64 \<Rightarrow> nat \<Rightarrow> bool"
  copy_to_user :: "umem \<Rightarrow> u64 \<Rightarrow> byte list \<Rightarrow> umem \<times> nat"
  copy_from_user :: "umem \<Rightarrow> u64 \<Rightarrow> nat \<Rightarrow> byte list \<times> nat"
  clear_user :: "umem \<Rightarrow> u64 \<Rightarrow> nat \<Rightarrow> umem \<times> nat"
  put_user :: "umem \<Rightarrow> u64 \<Rightarrow> byte \<Rightarrow> umem \<times> int"

section \<open>What the kernel documents\<close>

text \<open>
  A copy returns the number of bytes it could not copy. The bytes before that point are copied;
  \<open>copy_from_user\<close> pads the rest of the destination with zeroes; \<open>put_user\<close> returns 0 or
  \<open>-EFAULT\<close>.
\<close>

definition copy_to_user_law :: "uaccess \<Rightarrow> bool" where
  "copy_to_user_law ua \<longleftrightarrow> (\<forall>um a bs.
     snd (copy_to_user ua um a bs) \<le> length bs \<and>
     fst (copy_to_user ua um a bs) =
       user_store um a (take (length bs - snd (copy_to_user ua um a bs)) bs))"

definition copy_from_user_law :: "uaccess \<Rightarrow> bool" where
  "copy_from_user_law ua \<longleftrightarrow> (\<forall>um a n.
     snd (copy_from_user ua um a n) \<le> n \<and>
     fst (copy_from_user ua um a n) =
       user_bytes um a (n - snd (copy_from_user ua um a n)) @
       replicate (snd (copy_from_user ua um a n)) 0)"

definition clear_user_law :: "uaccess \<Rightarrow> bool" where
  "clear_user_law ua \<longleftrightarrow> (\<forall>um a n.
     snd (clear_user ua um a n) \<le> n \<and>
     fst (clear_user ua um a n) =
       user_store um a (replicate (n - snd (clear_user ua um a n)) 0))"

definition put_user_law :: "uaccess \<Rightarrow> bool" where
  "put_user_law ua \<longleftrightarrow> (\<forall>um a b.
     put_user ua um a b = (user_store um a [b], 0) \<or> put_user ua um a b = (um, - EFAULT))"

definition uaccess_laws :: "uaccess \<Rightarrow> bool" where
  "uaccess_laws ua \<longleftrightarrow>
     copy_to_user_law ua \<and> copy_from_user_law ua \<and> clear_user_law ua \<and> put_user_law ua"

text \<open>Ranges of user memory on which no copy faults.\<close>

definition user_readable :: "uaccess \<Rightarrow> u64 \<Rightarrow> nat \<Rightarrow> bool" where
  "user_readable ua a n \<longleftrightarrow>
     (\<forall>um i m. i + m \<le> n \<longrightarrow> snd (copy_from_user ua um (a + of_nat i) m) = 0)"

definition user_writable :: "uaccess \<Rightarrow> u64 \<Rightarrow> nat \<Rightarrow> bool" where
  "user_writable ua a n \<longleftrightarrow>
     (\<forall>um i bs. i + length bs \<le> n \<longrightarrow> snd (copy_to_user ua um (a + of_nat i) bs) = 0)"

section \<open>Consequences of the laws\<close>

lemma length_user_bytes [simp]: "length (user_bytes um a n) = n"
  by (simp add: user_bytes_def)

lemma user_bytes_append:
  "user_bytes um a (n + m) = user_bytes um a n @ user_bytes um (a + of_nat n) m"
  by (rule nth_equalityI) (auto simp: user_bytes_def nth_append add.assoc simp flip: of_nat_add)

lemma take_user_bytes: "k \<le> n \<Longrightarrow> take k (user_bytes um a n) = user_bytes um a k"
  by (simp add: user_bytes_def take_map)

lemma user_store_Nil [simp]: "user_store um a [] = um"
  by (simp add: user_store_def)

lemma user_bytes_user_store:
  assumes "length bs \<le> 2 ^ 64"
  shows "user_bytes (user_store um a bs) a (length bs) = bs"
  by (rule nth_equalityI) (use assms in \<open>auto simp: user_bytes_def user_store_def\<close>)

lemma user_store_append:
  assumes "length bs + length cs \<le> 2 ^ 64"
  shows "user_store (user_store um a bs) (a + of_nat (length bs)) cs = user_store um a (bs @ cs)"
proof
  fix x
  show "user_store (user_store um a bs) (a + of_nat (length bs)) cs x = user_store um a (bs @ cs) x"
  proof (cases "unat (x - a) < length bs")
    case True
    show ?thesis
    proof (cases "unat (x - (a + of_nat (length bs))) < length cs")
      case False
      with True show ?thesis
        by (simp add: user_store_def nth_append)
    next
      case cs: True
      have small: "length bs < 2 ^ 64"
        using cs assms by linarith
      define d where "d = unat (x - a)"
      have x: "x - a = of_nat d"
        by (simp add: d_def)
      have "x - (a + of_nat (length bs)) = of_nat d - of_nat (length bs)"
        using x by (simp add: algebra_simps)
      also have "\<dots> = of_nat (2 ^ 64 - length bs + d)"
      proof -
        have "(of_nat (2 ^ 64 - length bs) :: u64) = of_nat (2 ^ 64) - of_nat (length bs)"
          using small by (intro of_nat_diff) simp
        moreover have "(of_nat (2 ^ 64) :: u64) = 0"
          by simp
        ultimately show ?thesis by simp
      qed
      finally have "unat (x - (a + of_nat (length bs))) = unat (of_nat (2 ^ 64 - length bs + d) :: u64)"
        by (simp only:)
      also have "\<dots> = 2 ^ 64 - length bs + d"
        using True small by (intro unat_of_nat_u64) (simp add: d_def)
      finally have "unat (x - (a + of_nat (length bs))) = 2 ^ 64 - length bs + d" .
      with cs assms show ?thesis by linarith
    qed
  next
    case False
    define d where "d = unat (x - a)"
    have x: "x - a = of_nat d" and d: "length bs \<le> d" "d < 2 ^ 64"
      using False unat_less_u64 [of "x - a"] by (simp_all add: d_def)
    have "x - (a + of_nat (length bs)) = of_nat (d - length bs)"
      using x d by (simp add: algebra_simps)
    then have "unat (x - (a + of_nat (length bs))) = d - length bs"
      using d by (simp only:) (simp del: of_nat_diff)
    with d show ?thesis
      by (auto simp: user_store_def nth_append d_def [symmetric])
  qed
qed

lemma copy_to_user_ok:
  assumes "copy_to_user_law ua" and "snd (copy_to_user ua um a bs) = 0"
  shows "copy_to_user ua um a bs = (user_store um a bs, 0)"
  using assms unfolding copy_to_user_law_def
  by (metis diff_zero order_refl prod.collapse take_all)

lemma copy_from_user_ok:
  assumes "copy_from_user_law ua" and "snd (copy_from_user ua um a n) = 0"
  shows "copy_from_user ua um a n = (user_bytes um a n, 0)"
  using assms unfolding copy_from_user_law_def
  by (metis append_Nil2 diff_zero prod.collapse replicate_0)

lemma length_copy_from_user:
  assumes "copy_from_user_law ua"
  shows "length (fst (copy_from_user ua um a n)) = n"
  using assms unfolding copy_from_user_law_def
  by (metis le_add_diff_inverse2 length_append length_replicate length_user_bytes)

lemma copy_from_user_le:
  "copy_from_user_law ua \<Longrightarrow> snd (copy_from_user ua um a n) \<le> n"
  by (simp add: copy_from_user_law_def)

lemma copy_to_user_le:
  "copy_to_user_law ua \<Longrightarrow> snd (copy_to_user ua um a bs) \<le> length bs"
  by (simp add: copy_to_user_law_def)

section \<open>A kernel that obeys the laws\<close>

definition mapped_part :: "nat \<Rightarrow> u64 \<Rightarrow> nat \<Rightarrow> nat" where
  "mapped_part lim a n = min n (lim - unat a)"

definition mapped_uaccess :: "nat \<Rightarrow> uaccess" where
  "mapped_uaccess lim = \<lparr>
     access_ok = (\<lambda>a n. unat a + n \<le> 2 ^ 47),
     copy_to_user = (\<lambda>um a bs. let k = mapped_part lim a (length bs) in
       (user_store um a (take k bs), length bs - k)),
     copy_from_user = (\<lambda>um a n. let k = mapped_part lim a n in
       (user_bytes um a k @ replicate (n - k) 0, n - k)),
     clear_user = (\<lambda>um a n. let k = mapped_part lim a n in
       (user_store um a (replicate k 0), n - k)),
     put_user = (\<lambda>um a b. if unat a < lim then (user_store um a [b], 0) else (um, - EFAULT))\<rparr>"

lemma mapped_part_le: "mapped_part lim a n \<le> n"
  by (simp add: mapped_part_def)

lemma mapped_uaccess_laws: "uaccess_laws (mapped_uaccess lim)"
  using mapped_part_le
  by (simp add: uaccess_laws_def mapped_uaccess_def copy_to_user_law_def copy_from_user_law_def
      clear_user_law_def put_user_law_def Let_def)

lemma mapped_uaccess_readable:
  assumes "unat a + n \<le> lim" and "lim < 2 ^ 64"
  shows "user_readable (mapped_uaccess lim) a n"
  unfolding user_readable_def
proof (intro allI impI)
  fix um i m assume "i + m \<le> n"
  with assms have "unat (a + of_nat i) = unat a + i"
    by (simp add: unat_add_u64)
  with assms \<open>i + m \<le> n\<close> show "snd (copy_from_user (mapped_uaccess lim) um (a + of_nat i) m) = 0"
    by (simp add: mapped_uaccess_def mapped_part_def Let_def)
qed

lemma mapped_uaccess_writable:
  assumes "unat a + n \<le> lim" and "lim < 2 ^ 64"
  shows "user_writable (mapped_uaccess lim) a n"
  unfolding user_writable_def
proof (intro allI impI)
  fix um :: umem and i and bs :: "byte list" assume "i + length bs \<le> n"
  with assms have "unat (a + of_nat i) = unat a + i"
    by (simp add: unat_add_u64)
  with assms \<open>i + length bs \<le> n\<close>
  show "snd (copy_to_user (mapped_uaccess lim) um (a + of_nat i) bs) = 0"
    by (simp add: mapped_uaccess_def mapped_part_def Let_def)
qed

text \<open>User memory that is mapped everywhere.\<close>

definition flat_uaccess :: uaccess where
  "flat_uaccess = \<lparr>
     access_ok = (\<lambda>a n. True),
     copy_to_user = (\<lambda>um a bs. (user_store um a bs, 0)),
     copy_from_user = (\<lambda>um a n. (user_bytes um a n, 0)),
     clear_user = (\<lambda>um a n. (user_store um a (replicate n 0), 0)),
     put_user = (\<lambda>um a b. (user_store um a [b], 0))\<rparr>"

lemma flat_uaccess_facts:
  "uaccess_laws flat_uaccess" "access_ok flat_uaccess a n" "user_readable flat_uaccess a n"
  "user_writable flat_uaccess a n"
  by (simp_all add: uaccess_laws_def flat_uaccess_def copy_to_user_law_def copy_from_user_law_def
      clear_user_law_def put_user_law_def user_readable_def user_writable_def)

end
