(* ===== verification/RingFifo.thy ===== *)
theory RingFifo
  imports Prelude
begin

text \<open>
  What the three pipe implementations of the repository have in common: a byte array used as a
  ring between a read and a write position, with one cell kept free so that equal positions mean
  "empty". \<open>ring_contents\<close> is the abstraction (the bytes a reader would see, in order). The
  locale \<open>fifo_channel\<close> is the contract of a pipe; its lemmas hold for every implementation that
  the later theories interpret it with.
\<close>

section \<open>Rings\<close>

definition ring_contents :: "'a list \<Rightarrow> nat \<Rightarrow> nat \<Rightarrow> 'a list" where
  "ring_contents buf rp wp =
     (if rp \<le> wp then take (wp - rp) (drop rp buf) else drop rp buf @ take wp buf)"

definition ring_used :: "nat \<Rightarrow> nat \<Rightarrow> nat \<Rightarrow> nat" where
  "ring_used sz rp wp = (if rp \<le> wp then wp - rp else sz - rp + wp)"

definition ring_room :: "nat \<Rightarrow> nat \<Rightarrow> nat \<Rightarrow> nat" where
  "ring_room sz rp wp = (if rp \<le> wp then sz - wp + rp - 1 else rp - wp - 1)"

definition ring_next :: "nat \<Rightarrow> nat \<Rightarrow> nat \<Rightarrow> nat" where
  "ring_next sz p n = (if p + n = sz then 0 else p + n)"

lemma ring_room_used:
  "rp < sz \<Longrightarrow> wp < sz \<Longrightarrow> ring_used sz rp wp + ring_room sz rp wp = sz - 1"
  by (auto simp: ring_used_def ring_room_def)

lemma length_ring_contents:
  "rp < length buf \<Longrightarrow> wp < length buf \<Longrightarrow>
    length (ring_contents buf rp wp) = ring_used (length buf) rp wp"
  by (auto simp: ring_contents_def ring_used_def)

lemma ring_next_less: "p < sz \<Longrightarrow> p + n \<le> sz \<Longrightarrow> ring_next sz p n < sz"
  by (auto simp: ring_next_def)

lemma ring_contents_same [simp]: "ring_contents buf p p = []"
  by (simp add: ring_contents_def)

text \<open>Storing one contiguous chunk at the write position appends it to the contents.\<close>

lemma ring_put_chunk:
  assumes "rp < length buf" and "wp < length buf"
    and fits: "wp + length bs \<le> length buf"
    and room: "length bs \<le> ring_room (length buf) rp wp"
  shows "ring_contents (blit buf wp bs) rp (ring_next (length buf) wp (length bs)) =
    ring_contents buf rp wp @ bs"
proof (cases "rp \<le> wp")
  case True
  show ?thesis
  proof (cases "wp + length bs = length buf")
    case full: True
    with True room assms(2) have "0 < rp"
      by (auto simp: ring_room_def)
    with True full assms show ?thesis
      by (simp add: ring_contents_def ring_next_def blit_def drop_take)
  next
    case False
    have "wp + length bs - rp = (wp - rp) + length bs"
      using True by simp
    with True False assms show ?thesis
      by (simp add: ring_contents_def ring_next_def blit_def drop_take)
  qed
next
  case False
  with room assms have "wp + length bs < rp"
    by (auto simp: ring_room_def)
  with False assms show ?thesis
    by (simp add: ring_contents_def ring_next_def blit_def)
qed

text \<open>Advancing the read position over a contiguous chunk removes it from the front.\<close>

lemma ring_get_chunk:
  assumes "rp < length buf" and "wp < length buf"
    and "rp + n \<le> length buf" and used: "n \<le> ring_used (length buf) rp wp"
  shows "ring_contents buf rp wp =
    chunk buf rp n @ ring_contents buf (ring_next (length buf) rp n) wp"
proof (cases "rp \<le> wp")
  case True
  with used assms have "rp + n \<le> wp" "rp + n < length buf"
    by (auto simp: ring_used_def)
  moreover have "take (wp - rp) (drop rp buf) =
      take n (drop rp buf) @ take (wp - (rp + n)) (drop (rp + n) buf)"
    using take_add [of n "wp - (rp + n)" "drop rp buf"] calculation by (simp add: add.commute)
  ultimately show ?thesis
    using True by (simp add: ring_contents_def ring_next_def chunk_def)
next
  case False
  show ?thesis
  proof (cases "rp + n = length buf")
    case True
    with False assms show ?thesis
      by (simp add: ring_contents_def ring_next_def chunk_def)
  next
    case noend: False
    have "drop rp buf = take n (drop rp buf) @ drop (rp + n) buf"
      by (metis append_take_drop_id drop_drop add.commute)
    with False noend show ?thesis
      by (simp add: ring_contents_def ring_next_def chunk_def)
  qed
qed

text \<open>A chunk that is stored does not change the size of the ring, and leaves a valid position.\<close>

lemma ring_used_put:
  assumes "rp < sz" and "wp < sz" and "wp + n \<le> sz" and "n \<le> ring_room sz rp wp"
  shows "ring_used sz rp (ring_next sz wp n) = ring_used sz rp wp + n"
  using assms by (auto simp: ring_used_def ring_room_def ring_next_def)

lemma ring_used_get:
  assumes "rp < sz" and "wp < sz" and "rp + n \<le> sz" and "n \<le> ring_used sz rp wp"
  shows "ring_used sz (ring_next sz rp n) wp + n = ring_used sz rp wp"
  using assms by (auto simp: ring_used_def ring_next_def)

section \<open>The contract of a pipe\<close>

datatype 'a fifo_event = Wrote "'a list" | ReadOut "'a list" | Quiet

fun bytes_written :: "'a fifo_event list \<Rightarrow> 'a list" where
  "bytes_written [] = []"
| "bytes_written (Wrote bs # es) = bs @ bytes_written es"
| "bytes_written (_ # es) = bytes_written es"

fun bytes_read :: "'a fifo_event list \<Rightarrow> 'a list" where
  "bytes_read [] = []"
| "bytes_read (ReadOut bs # es) = bs @ bytes_read es"
| "bytes_read (_ # es) = bytes_read es"

inductive steps :: "('s \<Rightarrow> 'e \<Rightarrow> 's \<Rightarrow> bool) \<Rightarrow> 's \<Rightarrow> 'e list \<Rightarrow> 's \<Rightarrow> bool" for step where
  steps_Nil: "steps step s [] s"
| steps_Cons: "step s e s' \<Longrightarrow> steps step s' es s'' \<Longrightarrow> steps step s (e # es) s''"

inductive_simps steps_Nil_iff [simp]: "steps step s [] s'"
inductive_simps steps_Cons_iff: "steps step s (e # es) s'"

lemma steps_append: "steps step s es s' \<Longrightarrow> steps step s' fs s'' \<Longrightarrow> steps step s (es @ fs) s''"
  by (induction rule: steps.induct) (auto intro: steps.intros)

text \<open>A property that every step keeps holds in every state of a run.\<close>

lemma steps_invariant:
  "steps step s es s' \<Longrightarrow> (\<And>s e s'. P s \<Longrightarrow> step s e s' \<Longrightarrow> P s') \<Longrightarrow> P s \<Longrightarrow> P s'"
  by (induction rule: steps.induct) blast+

text \<open>A state with the property \<open>P\<close> can be reached.\<close>

definition can_reach :: "('s \<Rightarrow> 'e \<Rightarrow> 's \<Rightarrow> bool) \<Rightarrow> 's \<Rightarrow> ('s \<Rightarrow> bool) \<Rightarrow> bool" where
  "can_reach step s P \<longleftrightarrow> (\<exists>es s'. steps step s es s' \<and> P s')"

lemma can_reach_now: "P s \<Longrightarrow> can_reach step s P"
  by (auto simp: can_reach_def intro: steps_Nil)

lemma can_reach_step: "step s e s' \<Longrightarrow> can_reach step s' P \<Longrightarrow> can_reach step s P"
  by (auto simp: can_reach_def intro: steps_Cons)

lemma can_reach_trans:
  "can_reach step s P \<Longrightarrow> (\<And>s'. P s' \<Longrightarrow> can_reach step s' Q) \<Longrightarrow> can_reach step s Q"
  by (metis can_reach_def steps_append)

lemma can_reach_mono: "can_reach step s P \<Longrightarrow> (\<And>s'. P s' \<Longrightarrow> Q s') \<Longrightarrow> can_reach step s Q"
  by (auto simp: can_reach_def)

lemma can_reach_invariant:
  "can_reach step s P \<Longrightarrow> (\<And>s e s'. I s \<Longrightarrow> step s e s' \<Longrightarrow> I s') \<Longrightarrow> I s \<Longrightarrow>
    can_reach step s (\<lambda>s'. P s' \<and> I s')"
  unfolding can_reach_def using steps_invariant [of step s _ _ I] by blast

text \<open>A measure that every step decreases bounds the length of every run.\<close>

lemma steps_bounded:
  "steps step s es s' \<Longrightarrow> (\<And>s e s'. P s \<Longrightarrow> step s e s' \<Longrightarrow> P s') \<Longrightarrow>
    (\<And>s e s'. P s \<Longrightarrow> step s e s' \<Longrightarrow> (m s' :: nat) < m s) \<Longrightarrow> P s \<Longrightarrow> length es + m s' \<le> m s"
proof (induction rule: steps.induct)
  case (steps_Cons s e s' es s'')
  have "P s'" and "m s' < m s"
    using steps_Cons.prems steps_Cons.hyps(1) by blast+
  moreover have "length es + m s'' \<le> m s'"
    using steps_Cons.IH steps_Cons.prems(1,2) \<open>P s'\<close> by blast
  ultimately show ?case
    by simp
qed simp

text \<open>
  A channel: what is read comes out in the order in which it was written. A pipe is a channel that
  holds a bounded amount.
\<close>

locale channel =
  fixes step :: "'s \<Rightarrow> 'a fifo_event \<Rightarrow> 's \<Rightarrow> bool"
    and invar :: "'s \<Rightarrow> bool"
    and contents :: "'s \<Rightarrow> 'a list"
  assumes step_inv: "invar s \<Longrightarrow> step s e s' \<Longrightarrow> invar s'"
    and step_wrote: "invar s \<Longrightarrow> step s (Wrote bs) s' \<Longrightarrow> contents s' = contents s @ bs"
    and step_readout: "invar s \<Longrightarrow> step s (ReadOut bs) s' \<Longrightarrow> contents s = bs @ contents s'"
    and step_quiet: "invar s \<Longrightarrow> step s Quiet s' \<Longrightarrow> contents s' = contents s"
begin

lemma run_inv: "steps step s es s' \<Longrightarrow> invar s \<Longrightarrow> invar s'"
  using steps_invariant step_inv by metis

text \<open>Nothing is lost, duplicated or reordered.\<close>

lemma conservation:
  "steps step s es s' \<Longrightarrow> invar s \<Longrightarrow>
    bytes_read es @ contents s' = contents s @ bytes_written es"
proof (induction rule: steps.induct)
  case (steps_Nil s)
  then show ?case by simp
next
  case (steps_Cons s e s' es s'')
  from steps_Cons.prems steps_Cons.hyps(1) have "invar s'"
    by (rule step_inv)
  note IH = steps_Cons.IH [OF this]
  show ?case
    using IH steps_Cons.prems steps_Cons.hyps(1)
    by (cases e) (auto dest: step_wrote step_readout step_quiet)
qed

end

locale fifo_channel = channel step invar contents
  for step :: "'s \<Rightarrow> 'a fifo_event \<Rightarrow> 's \<Rightarrow> bool" and invar and contents +
  fixes capacity :: "'s \<Rightarrow> nat"
  assumes step_capacity: "invar s \<Longrightarrow> step s e s' \<Longrightarrow> capacity s' = capacity s"
    and bounded: "invar s \<Longrightarrow> length (contents s) \<le> capacity s"
begin

lemma steps_inv:
  "steps step s es s' \<Longrightarrow> invar s \<Longrightarrow> invar s' \<and> capacity s' = capacity s"
  by (induction rule: steps.induct) (simp, metis step_inv step_capacity)

lemma fifo_order:
  assumes "steps step s es s'" and "invar s" and "contents s = []"
  shows "bytes_read es = take (length (bytes_read es)) (bytes_written es)"
    and "length (bytes_written es) \<le> length (bytes_read es) + capacity s"
proof -
  from conservation [OF assms(1,2)] assms(3)
  have c: "bytes_read es @ contents s' = bytes_written es" by simp
  from c show "bytes_read es = take (length (bytes_read es)) (bytes_written es)"
    by (metis append_eq_conv_conj)
  from steps_inv [OF assms(1,2)] have "length (contents s') \<le> capacity s"
    using bounded [of s'] by auto
  with c show "length (bytes_written es) \<le> length (bytes_read es) + capacity s"
    by (metis add_left_mono length_append)
qed

end

end
