(* ===== verification/SimplePipe.thy ===== *)
theory SimplePipe
  imports KernelApi RingFifo
begin

text \<open>
  The pipe device of \<open>src/src/kernel_standalone/simple_pipe/main.c\<close>: one ring of bytes per minor
  number, no locking and no sleeping. Positions and sizes are \<open>size_t\<close> (64-bit words), the \<open>count\<close>
  argument of the copy helpers is an \<open>int\<close> (32 bits), so that the conversions of the code are part
  of the model. A copy that would leave the ring's memory is \<open>Crash OutOfBounds\<close>.
\<close>

section \<open>The pipe and its operations\<close>

record my_pipe_t =
  pdata :: "byte list"
  psize :: u64
  read_pos :: u64
  write_pos :: u64

text \<open>\<open>simple_pipe_ctor\<close> takes the result of \<open>kmalloc\<close>: the block (its bytes are arbitrary), or
  \<open>None\<close> for a null pointer.\<close>

definition simple_pipe_ctor :: "u32 \<Rightarrow> byte list option \<Rightarrow> int \<times> my_pipe_t option" where
  "simple_pipe_ctor pipe_size block =
     (case block of
        None \<Rightarrow> (- EFAULT, None)
      | Some b \<Rightarrow> (0, Some \<lparr>pdata = b, psize = scast pipe_size, read_pos = 0, write_pos = 0\<rparr>))"

text \<open>\<open>pipe_open\<close> picks the pipe of the device node: an index into the array \<open>pipes\<close>.\<close>

definition simple_pipe_open :: "nat \<Rightarrow> nat \<Rightarrow> int \<times> nat" where
  "simple_pipe_open iminor first_minor = (0, iminor - first_minor)"

definition simple_pipe_have_data :: "my_pipe_t \<Rightarrow> bool" where
  "simple_pipe_have_data pipe \<longleftrightarrow> read_pos pipe \<noteq> write_pos pipe"

definition simple_pipe_room :: "my_pipe_t \<Rightarrow> u64" where
  "simple_pipe_room pipe =
     (if read_pos pipe \<le> write_pos pipe
      then psize pipe - write_pos pipe + read_pos pipe - 1
      else read_pos pipe - write_pos pipe - 1)"

definition simple_pipe_data :: "my_pipe_t \<Rightarrow> u64" where
  "simple_pipe_data pipe =
     (if read_pos pipe \<le> write_pos pipe
      then write_pos pipe - read_pos pipe
      else psize pipe - read_pos pipe + write_pos pipe)"

text \<open>
  The copy helpers return the \<open>int\<close> that \<open>copy_from_user\<close> / \<open>copy_to_user\<close> gave (the number of
  bytes not copied, cut to 32 bits), the pipe and the advanced user pointer.
\<close>

definition simple_pipe_copy_from_user ::
  "uaccess \<Rightarrow> umem \<Rightarrow> my_pipe_t \<Rightarrow> u32 \<Rightarrow> u64 \<Rightarrow> (u32 \<times> my_pipe_t \<times> u64) outcome" where
  "simple_pipe_copy_from_user ua um pipe count ubuf =
     (let n = unat (scast count :: u64);
          (bs, left) = copy_from_user ua um ubuf n;
          ret = (of_nat left :: u32)
      in if length (pdata pipe) < unat (write_pos pipe) + n then Crash OutOfBounds
         else let pipe = pipe\<lparr>pdata := blit (pdata pipe) (unat (write_pos pipe)) bs\<rparr>
         in if ret = 0
            then let pipe = pipe\<lparr>write_pos := write_pos pipe + scast count\<rparr>;
                     pipe = (if write_pos pipe = psize pipe then pipe\<lparr>write_pos := 0\<rparr> else pipe)
                 in Done (ret, pipe, ubuf + scast count)
            else Done (ret, pipe, ubuf))"

definition simple_pipe_copy_to_user ::
  "uaccess \<Rightarrow> umem \<Rightarrow> my_pipe_t \<Rightarrow> u32 \<Rightarrow> u64 \<Rightarrow> (u32 \<times> my_pipe_t \<times> u64 \<times> umem) outcome" where
  "simple_pipe_copy_to_user ua um pipe count ubuf =
     (let n = unat (scast count :: u64)
      in if length (pdata pipe) < unat (read_pos pipe) + n then Crash OutOfBounds
         else let (um, left) = copy_to_user ua um ubuf (chunk (pdata pipe) (unat (read_pos pipe)) n);
                  ret = (of_nat left :: u32)
         in if ret = 0
            then let pipe = pipe\<lparr>read_pos := read_pos pipe + scast count\<rparr>;
                     pipe = (if read_pos pipe = psize pipe then pipe\<lparr>read_pos := 0\<rparr> else pipe)
                 in Done (ret, pipe, ubuf + scast count, um)
            else Done (ret, pipe, ubuf, um))"

text \<open>
  \<open>pipe_read\<close> and \<open>pipe_write\<close>: the result is the returned \<open>ssize_t\<close>, the pipe, the file
  position and, for a read, user memory. The two chunks of a wrapped copy are written out as in
  the source; a non-zero result of a chunk is returned at once.
\<close>

definition simple_pipe_read ::
  "uaccess \<Rightarrow> umem \<Rightarrow> my_pipe_t \<Rightarrow> u64 \<Rightarrow> u64 \<Rightarrow> u64 \<Rightarrow> (u64 \<times> my_pipe_t \<times> u64 \<times> umem) outcome" where
  "simple_pipe_read ua um pipe buf count ppos =
     (if \<not> access_ok ua buf (unat count) then Done (ssize_err EFAULT, pipe, ppos, um)
      else let data = simple_pipe_data pipe
      in if data = 0 then Done (0, pipe, ppos, um)
      else let work_size = min data count
      in outcome_bind
        (if read_pos pipe \<le> write_pos pipe
         then outcome_bind (simple_pipe_copy_to_user ua um pipe (ucast work_size) buf)
           (\<lambda>(ret, pipe, buf, um). Done (ret, pipe, um))
         else let first_chunk = min work_size (psize pipe - read_pos pipe)
           in outcome_bind (simple_pipe_copy_to_user ua um pipe (ucast first_chunk) buf)
             (\<lambda>(ret, pipe, buf, um).
               if ret \<noteq> 0 then Done (ret, pipe, um)
               else if first_chunk < work_size
               then let second_chunk = work_size - first_chunk
                 in outcome_bind (simple_pipe_copy_to_user ua um pipe (ucast second_chunk) buf)
                   (\<lambda>(ret, pipe, buf, um). Done (ret, pipe, um))
               else Done (ret, pipe, um)))
        (\<lambda>(ret, pipe, um).
          if ret \<noteq> 0 then Done (scast ret, pipe, ppos, um)
          else Done (work_size, pipe, ppos + work_size, um)))"

definition simple_pipe_write ::
  "uaccess \<Rightarrow> umem \<Rightarrow> my_pipe_t \<Rightarrow> u64 \<Rightarrow> u64 \<Rightarrow> u64 \<Rightarrow> (u64 \<times> my_pipe_t \<times> u64) outcome" where
  "simple_pipe_write ua um pipe buf count ppos =
     (if \<not> access_ok ua buf (unat count) then Done (ssize_err EFAULT, pipe, ppos)
      else let room = simple_pipe_room pipe
      in if room = 0 then Done (0, pipe, ppos)
      else let work_size = min room count
      in outcome_bind
        (if read_pos pipe \<le> write_pos pipe
         then let first_chunk = min work_size (psize pipe - write_pos pipe)
           in outcome_bind (simple_pipe_copy_from_user ua um pipe (ucast first_chunk) buf)
             (\<lambda>(ret, pipe, buf).
               if ret \<noteq> 0 then Done (ret, pipe)
               else if first_chunk < work_size
               then let second_chunk = work_size - first_chunk
                 in outcome_bind (simple_pipe_copy_from_user ua um pipe (ucast second_chunk) buf)
                   (\<lambda>(ret, pipe, buf). Done (ret, pipe))
               else Done (ret, pipe))
         else outcome_bind (simple_pipe_copy_from_user ua um pipe (ucast work_size) buf)
           (\<lambda>(ret, pipe, buf). Done (ret, pipe)))
        (\<lambda>(ret, pipe).
          if ret \<noteq> 0 then Done (scast ret, pipe, ppos)
          else Done (work_size, pipe, ppos + work_size)))"

section \<open>Invariant and abstraction\<close>

text \<open>Both are stated for every extension of the record, since the locking pipe extends it.\<close>

definition ring_inv :: "'a my_pipe_t_scheme \<Rightarrow> bool" where
  "ring_inv pipe \<longleftrightarrow> length (pdata pipe) = unat (psize pipe) \<and> unat (psize pipe) < 2 ^ 31 \<and>
     read_pos pipe < psize pipe \<and> write_pos pipe < psize pipe"

definition pipe_contents :: "'a my_pipe_t_scheme \<Rightarrow> byte list" where
  "pipe_contents pipe = ring_contents (pdata pipe) (unat (read_pos pipe)) (unat (write_pos pipe))"

definition pipe_capacity :: "'a my_pipe_t_scheme \<Rightarrow> nat" where
  "pipe_capacity pipe = unat (psize pipe) - 1"

abbreviation pipe_used :: "'a my_pipe_t_scheme \<Rightarrow> nat" where
  "pipe_used pipe \<equiv> ring_used (unat (psize pipe)) (unat (read_pos pipe)) (unat (write_pos pipe))"

abbreviation pipe_free :: "'a my_pipe_t_scheme \<Rightarrow> nat" where
  "pipe_free pipe \<equiv> ring_room (unat (psize pipe)) (unat (read_pos pipe)) (unat (write_pos pipe))"

lemma ring_invD:
  assumes "ring_inv pipe"
  shows "length (pdata pipe) = unat (psize pipe)" "unat (psize pipe) < 2 ^ 31"
    "unat (read_pos pipe) < unat (psize pipe)" "unat (write_pos pipe) < unat (psize pipe)"
  using assms by (simp_all add: ring_inv_def word_less_nat_alt)

lemma used_plus_free: "ring_inv pipe \<Longrightarrow> pipe_used pipe + pipe_free pipe = pipe_capacity pipe"
  by (simp add: pipe_capacity_def ring_room_used ring_invD)

lemma length_pipe_contents: "ring_inv pipe \<Longrightarrow> length (pipe_contents pipe) = pipe_used pipe"
  unfolding pipe_contents_def by (subst length_ring_contents) (simp_all add: ring_invD)

text \<open>The word arithmetic of \<open>pipe_room\<close> and \<open>pipe_data\<close> does not wrap on a valid ring.\<close>

lemma ring_room_word:
  fixes sz rp wp :: u64
  assumes "rp < sz" and "wp < sz"
  shows "unat (if rp \<le> wp then sz - wp + rp - 1 else rp - wp - 1) =
    ring_room (unat sz) (unat rp) (unat wp)"
proof (cases "rp \<le> wp")
  case True
  have lt: "unat rp < unat sz" "unat wp < unat sz" "unat rp \<le> unat wp"
    using assms True by (simp_all add: word_less_nat_alt word_le_nat_alt)
  have d: "unat (sz - wp) = unat sz - unat wp"
    using assms by (intro unat_diff_u64) simp
  have s: "unat (sz - wp + rp) = unat sz - unat wp + unat rp"
    using lt d unat_less_u64 [of sz] by (subst unat_add_u64) auto
  have "1 \<le> sz - wp + rp"
    using s lt by (simp add: word_le_nat_alt)
  then have "unat (sz - wp + rp - 1) = unat (sz - wp + rp) - 1"
    using unat_diff_u64 [of 1 "sz - wp + rp"] by simp
  with True s lt show ?thesis by (simp add: ring_room_def)
next
  case False
  have d: "unat (rp - wp) = unat rp - unat wp"
    using False by (intro unat_diff_u64) simp
  have "1 \<le> rp - wp"
    using d False by (simp add: word_le_nat_alt)
  then have "unat (rp - wp - 1) = unat (rp - wp) - 1"
    using unat_diff_u64 [of 1 "rp - wp"] by simp
  with False d show ?thesis by (simp add: ring_room_def word_le_nat_alt)
qed

lemma ring_data_word:
  fixes sz rp wp :: u64
  assumes "rp < sz" and "wp < sz"
  shows "unat (if rp \<le> wp then wp - rp else sz - rp + wp) =
    ring_used (unat sz) (unat rp) (unat wp)"
proof (cases "rp \<le> wp")
  case True
  then show ?thesis
    by (simp add: ring_used_def unat_diff_u64 word_le_nat_alt)
next
  case False
  have lt: "unat rp < unat sz" "unat wp < unat rp"
    using assms False by (simp_all add: word_less_nat_alt word_le_nat_alt)
  have d: "unat (sz - rp) = unat sz - unat rp"
    using assms by (intro unat_diff_u64) simp
  have "unat (sz - rp + wp) = unat sz - unat rp + unat wp"
    using lt d unat_less_u64 [of sz] by (subst unat_add_u64) auto
  with False lt show ?thesis by (simp add: ring_used_def word_le_nat_alt)
qed

lemma unat_simple_pipe_room: "ring_inv pipe \<Longrightarrow> unat (simple_pipe_room pipe) = pipe_free pipe"
  unfolding simple_pipe_room_def by (rule ring_room_word) (simp_all add: ring_inv_def)

lemma unat_simple_pipe_data: "ring_inv pipe \<Longrightarrow> unat (simple_pipe_data pipe) = pipe_used pipe"
  unfolding simple_pipe_data_def by (rule ring_data_word) (simp_all add: ring_inv_def)

section \<open>Copying one chunk\<close>

text \<open>
  The effect of the helpers on a ring: \<open>ring_put\<close> stores bytes and advances the write position,
  \<open>ring_scribble\<close> stores bytes in the free part without advancing (a copy that faulted),
  \<open>ring_get\<close> advances the read position.
\<close>

definition ring_put :: "'a my_pipe_t_scheme \<Rightarrow> byte list \<Rightarrow> 'a my_pipe_t_scheme" where
  "ring_put pipe bs = pipe\<lparr>pdata := blit (pdata pipe) (unat (write_pos pipe)) bs,
     write_pos := of_nat (ring_next (unat (psize pipe)) (unat (write_pos pipe)) (length bs))\<rparr>"

definition ring_scribble :: "'a my_pipe_t_scheme \<Rightarrow> byte list \<Rightarrow> 'a my_pipe_t_scheme" where
  "ring_scribble pipe bs = pipe\<lparr>pdata := blit (pdata pipe) (unat (write_pos pipe)) bs\<rparr>"

definition ring_get :: "'a my_pipe_t_scheme \<Rightarrow> nat \<Rightarrow> 'a my_pipe_t_scheme" where
  "ring_get pipe n = pipe\<lparr>read_pos :=
     of_nat (ring_next (unat (psize pipe)) (unat (read_pos pipe)) n)\<rparr>"

definition front_chunk :: "'a my_pipe_t_scheme \<Rightarrow> nat \<Rightarrow> byte list" where
  "front_chunk pipe n = chunk (pdata pipe) (unat (read_pos pipe)) n"

lemma psize_ring [simp]:
  "psize (ring_put pipe bs) = psize pipe" "psize (ring_scribble pipe bs) = psize pipe"
  "psize (ring_get pipe n) = psize pipe"
  by (simp_all add: ring_put_def ring_scribble_def ring_get_def)

lemma pipe_capacity_ring [simp]:
  "pipe_capacity (ring_put pipe bs) = pipe_capacity pipe"
  "pipe_capacity (ring_scribble pipe bs) = pipe_capacity pipe"
  "pipe_capacity (ring_get pipe n) = pipe_capacity pipe"
  by (simp_all add: pipe_capacity_def)

lemma unat_ring_next:
  fixes sz p :: u64
  assumes "unat p + n \<le> unat sz"
  shows "unat (of_nat (ring_next (unat sz) (unat p) n) :: u64) = ring_next (unat sz) (unat p) n"
  using assms unat_less_u64 [of sz] by (intro unat_of_nat_u64) (auto simp: ring_next_def)

lemma ring_next_word:
  fixes sz p w :: u64
  assumes "unat p + unat w \<le> unat sz"
  shows "(if p + w = sz then 0 else p + w) = of_nat (ring_next (unat sz) (unat p) (unat w))"
proof -
  have u: "unat (p + w) = unat p + unat w"
    using assms unat_less_u64 [of sz] by (intro unat_add_u64) simp
  show ?thesis
  proof (cases "p + w = sz")
    case True
    with u show ?thesis by (simp add: ring_next_def)
  next
    case False
    then have "unat p + unat w \<noteq> unat sz"
      using u by (metis unsigned_word_eqI)
    with False show ?thesis by (simp add: ring_next_def)
  qed
qed

lemma ring_put_inv:
  assumes "ring_inv pipe" and "unat (write_pos pipe) + length bs \<le> unat (psize pipe)"
  shows "ring_inv (ring_put pipe bs)"
  using assms ring_invD [OF assms(1)]
  by (simp add: ring_inv_def ring_put_def word_less_nat_alt unat_ring_next ring_next_less)

lemma ring_scribble_inv:
  assumes "ring_inv pipe" and "unat (write_pos pipe) + length bs \<le> unat (psize pipe)"
  shows "ring_inv (ring_scribble pipe bs)"
  using assms by (simp add: ring_inv_def ring_scribble_def)

lemma ring_get_inv:
  assumes "ring_inv pipe" and "unat (read_pos pipe) + n \<le> unat (psize pipe)"
  shows "ring_inv (ring_get pipe n)"
  using assms ring_invD [OF assms(1)]
  by (simp add: ring_inv_def ring_get_def word_less_nat_alt unat_ring_next ring_next_less)

lemma ring_put_contents:
  assumes "ring_inv pipe" and "unat (write_pos pipe) + length bs \<le> unat (psize pipe)"
    and "length bs \<le> pipe_free pipe"
  shows "pipe_contents (ring_put pipe bs) = pipe_contents pipe @ bs"
  using assms ring_invD [OF assms(1)]
    ring_put_chunk [of "unat (read_pos pipe)" "pdata pipe" "unat (write_pos pipe)" bs]
  by (simp add: pipe_contents_def ring_put_def unat_ring_next)

lemma ring_scribble_contents:
  assumes "ring_inv pipe" and "unat (write_pos pipe) + length bs \<le> unat (psize pipe)"
    and "length bs \<le> pipe_free pipe"
  shows "pipe_contents (ring_scribble pipe bs) = pipe_contents pipe"
proof (cases "unat (read_pos pipe) \<le> unat (write_pos pipe)")
  case True
  with assms ring_invD [OF assms(1)] show ?thesis
    by (simp add: pipe_contents_def ring_scribble_def ring_contents_def blit_def drop_take)
next
  case False
  with assms(3) have "unat (write_pos pipe) + length bs < unat (read_pos pipe)"
    by (auto simp: ring_room_def)
  with False assms ring_invD [OF assms(1)] show ?thesis
    by (simp add: pipe_contents_def ring_scribble_def ring_contents_def blit_def)
qed

lemma ring_get_contents:
  assumes "ring_inv pipe" and "unat (read_pos pipe) + n \<le> unat (psize pipe)"
    and "n \<le> pipe_used pipe"
  shows "pipe_contents pipe = front_chunk pipe n @ pipe_contents (ring_get pipe n)"
  using assms ring_invD [OF assms(1)]
    ring_get_chunk [of "unat (read_pos pipe)" "pdata pipe" "unat (write_pos pipe)" n]
  by (simp add: pipe_contents_def ring_get_def front_chunk_def unat_ring_next)

lemma length_front_chunk:
  "ring_inv pipe \<Longrightarrow> unat (read_pos pipe) + n \<le> unat (psize pipe) \<Longrightarrow>
    length (front_chunk pipe n) = n"
  by (simp add: front_chunk_def ring_invD)

lemma simple_pipe_copy_from_user_eq:
  assumes inv: "ring_inv pipe" and law: "copy_from_user_law ua"
    and fits: "unat (write_pos pipe) + unat w \<le> unat (psize pipe)"
  shows "simple_pipe_copy_from_user ua um pipe (ucast w) ubuf =
    (let (bs, left) = copy_from_user ua um ubuf (unat w)
     in if left = 0 then Done (0, ring_put pipe bs, ubuf + w)
        else Done (of_nat left, ring_scribble pipe bs, ubuf))"
    and "snd (copy_from_user ua um ubuf (unat w)) \<noteq> 0 \<Longrightarrow>
      (of_nat (snd (copy_from_user ua um ubuf (unat w))) :: u32) \<noteq> 0"
proof -
  note d = ring_invD [OF inv]
  have w: "unat w < 2 ^ 31"
    using fits d by linarith
  have sc: "(scast (ucast w :: u32) :: u64) = w"
    using w by (rule scast_ucast_small)
  obtain bs left where c: "copy_from_user ua um ubuf (unat w) = (bs, left)"
    by (cases "copy_from_user ua um ubuf (unat w)")
  have len: "length bs = unat w" and le: "left \<le> unat w"
    using length_copy_from_user [OF law, of um ubuf "unat w"]
      copy_from_user_le [OF law, of um ubuf "unat w"] c by simp_all
  have nz: "(of_nat left :: u32) = 0 \<longleftrightarrow> left = 0"
    using le w by (intro of_nat_u32_eq_0) simp
  show "snd (copy_from_user ua um ubuf (unat w)) \<noteq> 0 \<Longrightarrow>
      (of_nat (snd (copy_from_user ua um ubuf (unat w))) :: u32) \<noteq> 0"
    using c nz by simp
  have nx: "(if write_pos pipe + w = psize pipe then 0 else write_pos pipe + w) =
      of_nat (ring_next (unat (psize pipe)) (unat (write_pos pipe)) (length bs))"
    using ring_next_word [OF fits] len by simp
  show "simple_pipe_copy_from_user ua um pipe (ucast w) ubuf =
    (let (bs, left) = copy_from_user ua um ubuf (unat w)
     in if left = 0 then Done (0, ring_put pipe bs, ubuf + w)
        else Done (of_nat left, ring_scribble pipe bs, ubuf))"
    using fits d nz nx
    by (simp add: simple_pipe_copy_from_user_def sc c Let_def ring_put_def ring_scribble_def
        split: if_splits)
qed

lemma simple_pipe_copy_to_user_eq:
  assumes inv: "ring_inv pipe" and law: "copy_to_user_law ua"
    and fits: "unat (read_pos pipe) + unat w \<le> unat (psize pipe)"
  shows "simple_pipe_copy_to_user ua um pipe (ucast w) ubuf =
    (let (um', left) = copy_to_user ua um ubuf (front_chunk pipe (unat w))
     in if left = 0 then Done (0, ring_get pipe (unat w), ubuf + w, um')
        else Done (of_nat left, pipe, ubuf, um'))"
    and "snd (copy_to_user ua um ubuf (front_chunk pipe (unat w))) \<noteq> 0 \<Longrightarrow>
      (of_nat (snd (copy_to_user ua um ubuf (front_chunk pipe (unat w)))) :: u32) \<noteq> 0"
proof -
  note d = ring_invD [OF inv]
  have w: "unat w < 2 ^ 31"
    using fits d by linarith
  have sc: "(scast (ucast w :: u32) :: u64) = w"
    using w by (rule scast_ucast_small)
  obtain um' left where c: "copy_to_user ua um ubuf (front_chunk pipe (unat w)) = (um', left)"
    by (cases "copy_to_user ua um ubuf (front_chunk pipe (unat w))")
  have le: "left \<le> unat w"
    using copy_to_user_le [OF law, of um ubuf "front_chunk pipe (unat w)"] c
      length_front_chunk [OF inv fits] by simp
  have nz: "(of_nat left :: u32) = 0 \<longleftrightarrow> left = 0"
    using le w by (intro of_nat_u32_eq_0) simp
  show "snd (copy_to_user ua um ubuf (front_chunk pipe (unat w))) \<noteq> 0 \<Longrightarrow>
      (of_nat (snd (copy_to_user ua um ubuf (front_chunk pipe (unat w)))) :: u32) \<noteq> 0"
    using c nz by simp
  show "simple_pipe_copy_to_user ua um pipe (ucast w) ubuf =
    (let (um', left) = copy_to_user ua um ubuf (front_chunk pipe (unat w))
     in if left = 0 then Done (0, ring_get pipe (unat w), ubuf + w, um')
        else Done (of_nat left, pipe, ubuf, um'))"
    using fits d nz ring_next_word [OF fits] c
    by (simp add: simple_pipe_copy_to_user_def sc Let_def ring_get_def front_chunk_def
        split: if_splits)
qed

section \<open>Whole operations\<close>

text \<open>
  \<open>store_bytes\<close> and \<open>fetch_bytes\<close> are the two-chunk transfers of \<open>pipe_write\<close> and
  \<open>pipe_read\<close> in terms of \<open>ring_put\<close> and \<open>ring_get\<close>: the number of bytes that were not copied
  (0 on success) and the new state.
\<close>

definition first_put :: "'a my_pipe_t_scheme \<Rightarrow> nat \<Rightarrow> nat" where
  "first_put pipe n = (if read_pos pipe \<le> write_pos pipe
     then min n (unat (psize pipe) - unat (write_pos pipe)) else n)"

definition first_get :: "'a my_pipe_t_scheme \<Rightarrow> nat \<Rightarrow> nat" where
  "first_get pipe n = (if read_pos pipe \<le> write_pos pipe then n
     else min n (unat (psize pipe) - unat (read_pos pipe)))"

definition store_chunk ::
  "uaccess \<Rightarrow> umem \<Rightarrow> 'a my_pipe_t_scheme \<Rightarrow> u64 \<Rightarrow> nat \<Rightarrow> nat \<times> 'a my_pipe_t_scheme" where
  "store_chunk ua um pipe buf n = (let (bs, left) = copy_from_user ua um buf n
     in if left = 0 then (0, ring_put pipe bs) else (left, ring_scribble pipe bs))"

definition store_bytes ::
  "uaccess \<Rightarrow> umem \<Rightarrow> 'a my_pipe_t_scheme \<Rightarrow> u64 \<Rightarrow> nat \<Rightarrow> nat \<times> 'a my_pipe_t_scheme" where
  "store_bytes ua um pipe buf n = (let n1 = first_put pipe n; (left, pipe) = store_chunk ua um pipe buf n1
     in if left = 0 \<and> n1 < n then store_chunk ua um pipe (buf + of_nat n1) (n - n1) else (left, pipe))"

definition fetch_chunk ::
  "uaccess \<Rightarrow> umem \<Rightarrow> 'a my_pipe_t_scheme \<Rightarrow> u64 \<Rightarrow> nat \<Rightarrow> nat \<times> 'a my_pipe_t_scheme \<times> umem" where
  "fetch_chunk ua um pipe buf n = (let (um, left) = copy_to_user ua um buf (front_chunk pipe n)
     in if left = 0 then (0, ring_get pipe n, um) else (left, pipe, um))"

definition fetch_bytes ::
  "uaccess \<Rightarrow> umem \<Rightarrow> 'a my_pipe_t_scheme \<Rightarrow> u64 \<Rightarrow> nat \<Rightarrow> nat \<times> 'a my_pipe_t_scheme \<times> umem" where
  "fetch_bytes ua um pipe buf n =
     (let n1 = first_get pipe n; (left, pipe, um) = fetch_chunk ua um pipe buf n1
      in if left = 0 \<and> n1 < n then fetch_chunk ua um pipe (buf + of_nat n1) (n - n1)
         else (left, pipe, um))"

lemma first_put_fits:
  assumes "ring_inv pipe" and "n \<le> pipe_free pipe"
  shows "unat (write_pos pipe) + first_put pipe n \<le> unat (psize pipe)" "first_put pipe n \<le> n"
    "first_put pipe n < n \<Longrightarrow> length bs = first_put pipe n \<Longrightarrow> write_pos (ring_put pipe bs) = 0"
  using assms ring_invD [OF assms(1)]
  by (auto simp: first_put_def ring_put_def ring_next_def ring_room_def word_le_nat_alt
      split: if_splits)

lemma first_get_fits:
  assumes "ring_inv pipe" and "n \<le> pipe_used pipe"
  shows "unat (read_pos pipe) + first_get pipe n \<le> unat (psize pipe)" "first_get pipe n \<le> n"
    "first_get pipe n < n \<Longrightarrow> read_pos (ring_get pipe (first_get pipe n)) = 0"
  using assms ring_invD [OF assms(1)]
  by (auto simp: first_get_def ring_get_def ring_next_def ring_used_def word_le_nat_alt
      split: if_splits)

lemma store_chunk_facts:
  assumes inv: "ring_inv pipe" and law: "copy_from_user_law ua"
    and fits: "unat (write_pos pipe) + n \<le> unat (psize pipe)" and room: "n \<le> pipe_free pipe"
    and st: "store_chunk ua um pipe buf n = (left, pipe')"
  shows "ring_inv pipe'" "psize pipe' = psize pipe" "left \<le> n"
    "pipe_contents pipe' = pipe_contents pipe @ (if left = 0 then user_bytes um buf n else [])"
    "left = 0 \<Longrightarrow> pipe' = ring_put pipe (user_bytes um buf n)"
proof -
  obtain bs l where c: "copy_from_user ua um buf n = (bs, l)"
    by (cases "copy_from_user ua um buf n")
  have len: "length bs = n" and le: "l \<le> n" and ok: "l = 0 \<Longrightarrow> bs = user_bytes um buf n"
    using length_copy_from_user [OF law, of um buf n] copy_from_user_le [OF law, of um buf n]
      copy_from_user_ok [OF law, of um buf n] c by simp_all
  have st': "left = l" "pipe' = (if l = 0 then ring_put pipe bs else ring_scribble pipe bs)"
    using st c by (auto simp: store_chunk_def split: if_splits)
  show "ring_inv pipe'" "psize pipe' = psize pipe" "left \<le> n"
    "pipe_contents pipe' = pipe_contents pipe @ (if left = 0 then user_bytes um buf n else [])"
    "left = 0 \<Longrightarrow> pipe' = ring_put pipe (user_bytes um buf n)"
    using st' ok le len inv fits room
    by (auto simp: ring_put_inv ring_scribble_inv ring_put_contents ring_scribble_contents)
qed

lemma store_bytes_facts:
  assumes inv: "ring_inv pipe" and law: "copy_from_user_law ua" and room: "n \<le> pipe_free pipe"
    and st: "store_bytes ua um pipe buf n = (left, pipe')"
  shows "ring_inv pipe'" "psize pipe' = psize pipe" "left \<le> n"
    "\<exists>k. k + left \<le> n \<and> (left = 0 \<longrightarrow> k = n) \<and>
       pipe_contents pipe' = pipe_contents pipe @ user_bytes um buf k"
proof -
  define n1 where "n1 = first_put pipe n"
  obtain l1 p1 where s1: "store_chunk ua um pipe buf n1 = (l1, p1)"
    by (cases "store_chunk ua um pipe buf n1")
  have n1: "unat (write_pos pipe) + n1 \<le> unat (psize pipe)" "n1 \<le> n" "n1 \<le> pipe_free pipe"
    using first_put_fits [OF inv room] room by (simp_all add: n1_def)
  note f1 = store_chunk_facts [OF inv law n1(1) n1(3) s1]
  have "ring_inv pipe' \<and> psize pipe' = psize pipe \<and> left \<le> n \<and>
    (\<exists>k. k + left \<le> n \<and> (left = 0 \<longrightarrow> k = n) \<and>
       pipe_contents pipe' = pipe_contents pipe @ user_bytes um buf k)"
  proof (cases "l1 = 0 \<and> n1 < n")
    case True
    have s2: "store_chunk ua um p1 (buf + of_nat n1) (n - n1) = (left, pipe')"
      using st s1 True by (simp add: store_bytes_def n1_def [symmetric])
    have w0: "write_pos p1 = 0"
      using f1(5) True first_put_fits(3) [OF inv room, of "user_bytes um buf n1"]
      by (simp add: n1_def)
    have c1: "pipe_contents p1 = pipe_contents pipe @ user_bytes um buf n1"
      using f1(4) True by simp
    have "pipe_used p1 = pipe_used pipe + n1"
      using length_pipe_contents [OF f1(1)] length_pipe_contents [OF inv] c1 by simp
    then have room1: "n - n1 \<le> pipe_free p1"
      using used_plus_free [OF f1(1)] used_plus_free [OF inv] room f1(2)
      by (simp add: pipe_capacity_def)
    have "pipe_free p1 \<le> unat (psize p1)"
      using used_plus_free [OF f1(1)] by (simp add: pipe_capacity_def)
    then have fit1: "unat (write_pos p1) + (n - n1) \<le> unat (psize p1)"
      using w0 room1 by simp
    note f2 = store_chunk_facts [OF f1(1) law fit1 room1 s2]
    show ?thesis
    proof (cases "left = 0")
      case True
      have "user_bytes um buf n = user_bytes um buf n1 @ user_bytes um (buf + of_nat n1) (n - n1)"
        using user_bytes_append [of um buf n1 "n - n1"] n1(2) by simp
      with True f2 f1(2) c1 show ?thesis by auto
    next
      case False
      with f2 f1(2) c1 n1(2) show ?thesis
        by (intro conjI exI [of _ n1]) auto
    qed
  next
    case False
    then have "left = l1" "pipe' = p1"
      using st s1 by (auto simp: store_bytes_def n1_def [symmetric])
    moreover have "l1 = 0 \<Longrightarrow> n1 = n"
      using False n1(2) by simp
    ultimately show ?thesis
      using f1 n1(2) by (intro conjI exI [of _ "if l1 = 0 then n else 0"]) (auto simp: user_bytes_def)
  qed
  then show "ring_inv pipe'" "psize pipe' = psize pipe" "left \<le> n"
    "\<exists>k. k + left \<le> n \<and> (left = 0 \<longrightarrow> k = n) \<and>
       pipe_contents pipe' = pipe_contents pipe @ user_bytes um buf k"
    by auto
qed

lemma fetch_chunk_facts:
  assumes inv: "ring_inv pipe" and law: "copy_to_user_law ua"
    and fits: "unat (read_pos pipe) + n \<le> unat (psize pipe)" and used: "n \<le> pipe_used pipe"
    and st: "fetch_chunk ua um pipe buf n = (left, pipe', um')"
  shows "ring_inv pipe'" "psize pipe' = psize pipe" "left \<le> n"
    "pipe_contents pipe' = drop (if left = 0 then n else 0) (pipe_contents pipe)"
    "left = 0 \<Longrightarrow> pipe' = ring_get pipe n"
    "left = 0 \<Longrightarrow> um' = user_store um buf (take n (pipe_contents pipe))"
proof -
  obtain um1 l where c: "copy_to_user ua um buf (front_chunk pipe n) = (um1, l)"
    by (cases "copy_to_user ua um buf (front_chunk pipe n)")
  have len: "length (front_chunk pipe n) = n"
    by (rule length_front_chunk [OF inv fits])
  have le: "l \<le> n" and ok: "l = 0 \<Longrightarrow> um1 = user_store um buf (front_chunk pipe n)"
    using copy_to_user_le [OF law, of um buf "front_chunk pipe n"] len
      copy_to_user_ok [OF law, of um buf "front_chunk pipe n"] c by simp_all
  have st': "left = l" "pipe' = (if l = 0 then ring_get pipe n else pipe)" "um' = um1"
    using st c by (auto simp: fetch_chunk_def split: if_splits)
  have split: "pipe_contents pipe = front_chunk pipe n @ pipe_contents (ring_get pipe n)"
    by (rule ring_get_contents [OF inv fits used])
  have tk: "take n (pipe_contents pipe) = front_chunk pipe n"
    "drop n (pipe_contents pipe) = pipe_contents (ring_get pipe n)"
    using len by (simp_all add: split)
  show "ring_inv pipe'" "psize pipe' = psize pipe" "left \<le> n"
    "pipe_contents pipe' = drop (if left = 0 then n else 0) (pipe_contents pipe)"
    "left = 0 \<Longrightarrow> pipe' = ring_get pipe n"
    "left = 0 \<Longrightarrow> um' = user_store um buf (take n (pipe_contents pipe))"
    using st' ok le inv fits tk by (auto simp: ring_get_inv)
qed

lemma fetch_bytes_facts:
  assumes inv: "ring_inv pipe" and law: "copy_to_user_law ua" and used: "n \<le> pipe_used pipe"
    and st: "fetch_bytes ua um pipe buf n = (left, pipe', um')"
  shows "ring_inv pipe'" "psize pipe' = psize pipe" "left \<le> n"
    "\<exists>k. k + left \<le> n \<and> (left = 0 \<longrightarrow> k = n) \<and> pipe_contents pipe' = drop k (pipe_contents pipe)"
    "left = 0 \<Longrightarrow> um' = user_store um buf (take n (pipe_contents pipe))"
proof -
  define n1 where "n1 = first_get pipe n"
  obtain l1 p1 um1 where s1: "fetch_chunk ua um pipe buf n1 = (l1, p1, um1)"
    by (cases "fetch_chunk ua um pipe buf n1")
  have n1: "unat (read_pos pipe) + n1 \<le> unat (psize pipe)" "n1 \<le> n" "n1 \<le> pipe_used pipe"
    using first_get_fits [OF inv used] used by (simp_all add: n1_def)
  note f1 = fetch_chunk_facts [OF inv law n1(1) n1(3) s1]
  have lenc: "length (pipe_contents pipe) = pipe_used pipe"
    by (rule length_pipe_contents [OF inv])
  have "ring_inv pipe' \<and> psize pipe' = psize pipe \<and> left \<le> n \<and>
    (\<exists>k. k + left \<le> n \<and> (left = 0 \<longrightarrow> k = n) \<and> pipe_contents pipe' = drop k (pipe_contents pipe)) \<and>
    (left = 0 \<longrightarrow> um' = user_store um buf (take n (pipe_contents pipe)))"
  proof (cases "l1 = 0 \<and> n1 < n")
    case True
    have s2: "fetch_chunk ua um1 p1 (buf + of_nat n1) (n - n1) = (left, pipe', um')"
      using st s1 True by (simp add: fetch_bytes_def n1_def [symmetric])
    have r0: "read_pos p1 = 0"
      using f1(5) True first_get_fits(3) [OF inv used] by (simp add: n1_def)
    have c1: "pipe_contents p1 = drop n1 (pipe_contents pipe)"
      using f1(4) True by simp
    have "pipe_used p1 = pipe_used pipe - n1"
      using length_pipe_contents [OF f1(1)] lenc c1 by simp
    then have used1: "n - n1 \<le> pipe_used p1"
      using used by simp
    have "pipe_used p1 \<le> unat (psize p1)"
      using used_plus_free [OF f1(1)] by (simp add: pipe_capacity_def)
    then have fit1: "unat (read_pos p1) + (n - n1) \<le> unat (psize p1)"
      using r0 used1 by simp
    note f2 = fetch_chunk_facts [OF f1(1) law fit1 used1 s2]
    have small: "n \<le> 2 ^ 64"
      using n1 used used_plus_free [OF inv] unat_less_u64 [of "psize pipe"]
      by (simp add: pipe_capacity_def)
    have "left = 0 \<Longrightarrow> um' = user_store um buf (take n (pipe_contents pipe))"
    proof -
      assume "left = 0"
      then have "um' = user_store (user_store um buf (take n1 (pipe_contents pipe)))
          (buf + of_nat (length (take n1 (pipe_contents pipe)))) (take (n - n1) (drop n1 (pipe_contents pipe)))"
        using f2(6) f1(6) True c1 lenc n1(3) by simp
      also have "\<dots> = user_store um buf
          (take n1 (pipe_contents pipe) @ take (n - n1) (drop n1 (pipe_contents pipe)))"
        using small n1(2) by (intro user_store_append) simp
      also have "take n1 (pipe_contents pipe) @ take (n - n1) (drop n1 (pipe_contents pipe)) =
          take n (pipe_contents pipe)"
        using n1(2) by (metis le_add_diff_inverse take_add)
      finally show ?thesis .
    qed
    with f2 f1(2) c1 n1(2) show ?thesis
      by (intro conjI exI [of _ "if left = 0 then n else n1"]) auto
  next
    case False
    then have e: "left = l1" "pipe' = p1" "um' = um1"
      using st s1 by (auto simp: fetch_bytes_def n1_def [symmetric])
    moreover have "l1 = 0 \<Longrightarrow> n1 = n"
      using False n1(2) by simp
    ultimately show ?thesis
      using f1 n1(2) by (intro conjI exI [of _ "if l1 = 0 then n else 0"]) auto
  qed
  then show "ring_inv pipe'" "psize pipe' = psize pipe" "left \<le> n"
    "\<exists>k. k + left \<le> n \<and> (left = 0 \<longrightarrow> k = n) \<and> pipe_contents pipe' = drop k (pipe_contents pipe)"
    "left = 0 \<Longrightarrow> um' = user_store um buf (take n (pipe_contents pipe))"
    by auto
qed

lemma ring_put_Nil: "ring_inv pipe \<Longrightarrow> ring_put pipe [] = pipe"
  using ring_invD [of pipe] by (simp add: ring_put_def ring_next_def)

lemma ring_get_0: "ring_inv pipe \<Longrightarrow> ring_get pipe 0 = pipe"
  using ring_invD [of pipe] by (simp add: ring_get_def ring_next_def)

lemma store_bytes_0:
  assumes "ring_inv pipe" and "copy_from_user_law ua"
  shows "store_bytes ua um pipe buf 0 = (0, pipe)"
proof -
  have "copy_from_user ua um buf 0 = ([], 0)"
    using length_copy_from_user [OF assms(2), of um buf 0] copy_from_user_le [OF assms(2), of um buf 0]
    by (metis le_zero_eq length_0_conv prod.collapse)
  then show ?thesis
    using assms by (simp add: store_bytes_def store_chunk_def first_put_def ring_put_Nil)
qed

lemma fetch_bytes_0:
  assumes "ring_inv pipe" and "copy_to_user_law ua"
  shows "fetch_bytes ua um pipe buf 0 = (0, pipe, um)"
proof -
  have "copy_to_user ua um buf [] = (um, 0)"
    using copy_to_user_ok [OF assms(2), of um buf "[]"] copy_to_user_le [OF assms(2), of um buf "[]"]
    by simp
  then show ?thesis
    using assms by (simp add: fetch_bytes_def fetch_chunk_def first_get_def ring_get_0 front_chunk_def)
qed

lemma simple_pipe_copy_from_user_chunk:
  assumes "ring_inv pipe" and "copy_from_user_law ua"
    and "unat (write_pos pipe) + unat w \<le> unat (psize pipe)"
    and "store_chunk ua um pipe buf (unat w) = (left, pipe')"
  shows "simple_pipe_copy_from_user ua um pipe (ucast w) buf =
    Done (of_nat left, pipe', if left = 0 then buf + w else buf)"
  using assms(4) simple_pipe_copy_from_user_eq(1) [OF assms(1-3), of um buf]
  by (auto simp: store_chunk_def split: prod.splits if_splits)

lemma simple_pipe_copy_to_user_chunk:
  assumes "ring_inv pipe" and "copy_to_user_law ua"
    and "unat (read_pos pipe) + unat w \<le> unat (psize pipe)"
    and "fetch_chunk ua um pipe buf (unat w) = (left, pipe', um')"
  shows "simple_pipe_copy_to_user ua um pipe (ucast w) buf =
    Done (of_nat left, pipe', if left = 0 then buf + w else buf, um')"
  using assms(4) simple_pipe_copy_to_user_eq(1) [OF assms(1-3), of um buf]
  by (auto simp: fetch_chunk_def split: prod.splits if_splits)

lemma scast_of_nat_u32:
  assumes "n < 2 ^ 31"
  shows "(scast (of_nat n :: u32) :: u64) = of_nat n"
proof -
  have "(of_nat n :: u32) = ucast (of_nat n :: u64)"
    using assms by (simp add: unsigned_of_nat take_bit_nat_eq_self)
  moreover have "unat (of_nat n :: u64) < 2 ^ 31"
    using assms by (subst unat_of_nat_u64) simp_all
  ultimately show ?thesis
    by (metis scast_ucast_small)
qed

lemma psize_minus_word:
  assumes "ring_inv pipe"
  shows "unat (psize pipe - write_pos pipe) = unat (psize pipe) - unat (write_pos pipe)"
    "unat (psize pipe - read_pos pipe) = unat (psize pipe) - unat (read_pos pipe)"
  using assms by (simp_all add: ring_inv_def unat_diff_u64 order_less_imp_le)

text \<open>\<open>pipe_write\<close> and \<open>pipe_read\<close> are the two-chunk transfers of the smaller of the two sizes.\<close>

definition write_result :: "nat \<Rightarrow> u64 \<Rightarrow> nat \<times> 'p \<Rightarrow> u64 \<times> 'p \<times> u64" where
  "write_result n ppos r = (let (left, pipe) = r
     in if left = 0 then (of_nat n, pipe, ppos + of_nat n) else (of_nat left, pipe, ppos))"

definition read_result :: "nat \<Rightarrow> u64 \<Rightarrow> nat \<times> 'p \<times> umem \<Rightarrow> u64 \<times> 'p \<times> u64 \<times> umem" where
  "read_result n ppos r = (let (left, pipe, um) = r
     in if left = 0 then (of_nat n, pipe, ppos + of_nat n, um) else (of_nat left, pipe, ppos, um))"

text \<open>
  The two-chunk transfers as the code composes them, over any copy helper; the locales say what a
  helper has to do so that the transfer is \<open>store_bytes\<close> or \<open>fetch_bytes\<close>.
\<close>

definition transfer_in ::
  "('a my_pipe_t_scheme \<Rightarrow> u32 \<Rightarrow> u64 \<Rightarrow> (u32 \<times> 'a my_pipe_t_scheme \<times> u64) outcome) \<Rightarrow>
    'a my_pipe_t_scheme \<Rightarrow> u64 \<Rightarrow> u64 \<Rightarrow> (u32 \<times> 'a my_pipe_t_scheme) outcome" where
  "transfer_in copy pipe work_size buf =
     (if read_pos pipe \<le> write_pos pipe
      then let first_chunk = min work_size (psize pipe - write_pos pipe)
        in outcome_bind (copy pipe (ucast first_chunk) buf)
          (\<lambda>(ret, pipe, buf).
            if ret \<noteq> 0 then Done (ret, pipe)
            else if first_chunk < work_size
            then let second_chunk = work_size - first_chunk
              in outcome_bind (copy pipe (ucast second_chunk) buf)
                (\<lambda>(ret, pipe, buf). Done (ret, pipe))
            else Done (ret, pipe))
      else outcome_bind (copy pipe (ucast work_size) buf) (\<lambda>(ret, pipe, buf). Done (ret, pipe)))"

definition transfer_out ::
  "(umem \<Rightarrow> 'a my_pipe_t_scheme \<Rightarrow> u32 \<Rightarrow> u64 \<Rightarrow> (u32 \<times> 'a my_pipe_t_scheme \<times> u64 \<times> umem) outcome) \<Rightarrow>
    umem \<Rightarrow> 'a my_pipe_t_scheme \<Rightarrow> u64 \<Rightarrow> u64 \<Rightarrow> (u32 \<times> 'a my_pipe_t_scheme \<times> umem) outcome" where
  "transfer_out copy um pipe work_size buf =
     (if read_pos pipe \<le> write_pos pipe
      then outcome_bind (copy um pipe (ucast work_size) buf)
        (\<lambda>(ret, pipe, buf, um). Done (ret, pipe, um))
      else let first_chunk = min work_size (psize pipe - read_pos pipe)
        in outcome_bind (copy um pipe (ucast first_chunk) buf)
          (\<lambda>(ret, pipe, buf, um).
            if ret \<noteq> 0 then Done (ret, pipe, um)
            else if first_chunk < work_size
            then let second_chunk = work_size - first_chunk
              in outcome_bind (copy um pipe (ucast second_chunk) buf)
                (\<lambda>(ret, pipe, buf, um). Done (ret, pipe, um))
            else Done (ret, pipe, um)))"

lemma small_count:
  assumes "ring_inv pipe" and "l \<le> n" and "n \<le> pipe_capacity pipe"
  shows "(of_nat l :: u32) = 0 \<longleftrightarrow> l = 0" "(scast (of_nat l :: u32) :: u64) = of_nat l"
proof -
  have "l < 2 ^ 31"
    using assms ring_invD(2) [OF assms(1)] by (simp add: pipe_capacity_def)
  then show "(of_nat l :: u32) = 0 \<longleftrightarrow> l = 0" "(scast (of_nat l :: u32) :: u64) = of_nat l"
    by (simp add: of_nat_u32_eq_0, rule scast_of_nat_u32)
qed

lemma free_used_capacity:
  "ring_inv pipe \<Longrightarrow> pipe_free pipe \<le> pipe_capacity pipe"
  "ring_inv pipe \<Longrightarrow> pipe_used pipe \<le> pipe_capacity pipe"
  using used_plus_free [of pipe] by simp_all

locale chunk_writer =
  fixes copy :: "uaccess \<Rightarrow> umem \<Rightarrow> 'a my_pipe_t_scheme \<Rightarrow> u32 \<Rightarrow> u64 \<Rightarrow>
    (u32 \<times> 'a my_pipe_t_scheme \<times> u64) outcome"
  assumes copy_chunk: "ring_inv pipe \<Longrightarrow> copy_from_user_law ua \<Longrightarrow>
    unat (write_pos pipe) + unat w \<le> unat (psize pipe) \<Longrightarrow>
    store_chunk ua um pipe buf (unat w) = (left, pipe') \<Longrightarrow>
    copy ua um pipe (ucast w) buf = Done (of_nat left, pipe', if left = 0 then buf + w else buf)"
begin

lemma transfer_in_eq:
  assumes inv: "ring_inv pipe" and law: "copy_from_user_law ua" and room: "unat w \<le> pipe_free pipe"
    and sb: "store_bytes ua um pipe buf (unat w) = (left, pipe')"
  shows "transfer_in (copy ua um) pipe w buf = Done (of_nat left, pipe')"
proof -
  define w1 where "w1 = (if read_pos pipe \<le> write_pos pipe then min w (psize pipe - write_pos pipe) else w)"
  have uw1: "unat w1 = first_put pipe (unat w)"
    by (simp add: w1_def first_put_def unat_min_u64 psize_minus_word [OF inv])
  note fits = first_put_fits [OF inv room]
  obtain l1 p1 where s1: "store_chunk ua um pipe buf (unat w1) = (l1, p1)"
    by (cases "store_chunk ua um pipe buf (unat w1)")
  have r1: "unat w1 \<le> pipe_free pipe" and f1: "unat (write_pos pipe) + unat w1 \<le> unat (psize pipe)"
    using fits room uw1 by simp_all
  note c1 = copy_chunk [OF inv law f1 s1]
  note g1 = store_chunk_facts [OF inv law f1 r1 s1]
  have w1_le: "w1 \<le> w" and w1_lt: "w1 < w \<longleftrightarrow> first_put pipe (unat w) < unat w"
    using fits uw1 by (simp_all add: word_le_nat_alt word_less_nat_alt)
  have z: "(of_nat l1 :: u32) = 0 \<longleftrightarrow> l1 = 0"
    by (rule small_count(1) [OF inv, of _ "unat w1"]) (use g1(3) r1 free_used_capacity [OF inv] in simp_all)
  show ?thesis
  proof (cases "l1 = 0 \<and> w1 < w")
    case True
    then have rw: "read_pos pipe \<le> write_pos pipe"
      by (auto simp: w1_def split: if_splits)
    have d: "unat (w - w1) = unat w - unat w1"
      using w1_le by (simp add: unat_diff_u64)
    have s2: "store_chunk ua um p1 (buf + w1) (unat (w - w1)) = (left, pipe')"
      using sb s1 True w1_lt d by (simp add: store_bytes_def Let_def flip: uw1)
    have f2: "unat (write_pos p1) + unat (w - w1) \<le> unat (psize p1)"
      using g1(5) True fits(3) [of "user_bytes um buf (unat w1)"] w1_lt uw1 g1(2) d room
        free_used_capacity [OF inv] by (simp add: pipe_capacity_def)
    from copy_chunk [OF g1(1) law f2 s2] True rw c1 show ?thesis
      by (simp add: transfer_in_def Let_def w1_def)
  next
    case False
    then have "left = l1" "pipe' = p1"
      using s1 w1_lt uw1 sb by (auto simp add: store_bytes_def Let_def)
    with False c1 z show ?thesis
      by (cases "read_pos pipe \<le> write_pos pipe") (auto simp: transfer_in_def Let_def w1_def)
  qed
qed

end

locale chunk_reader =
  fixes copy :: "uaccess \<Rightarrow> umem \<Rightarrow> 'a my_pipe_t_scheme \<Rightarrow> u32 \<Rightarrow> u64 \<Rightarrow>
    (u32 \<times> 'a my_pipe_t_scheme \<times> u64 \<times> umem) outcome"
  assumes copy_chunk: "ring_inv pipe \<Longrightarrow> copy_to_user_law ua \<Longrightarrow>
    unat (read_pos pipe) + unat w \<le> unat (psize pipe) \<Longrightarrow>
    fetch_chunk ua um pipe buf (unat w) = (left, pipe', um') \<Longrightarrow>
    copy ua um pipe (ucast w) buf =
      Done (of_nat left, pipe', if left = 0 then buf + w else buf, um')"
begin

lemma transfer_out_eq:
  assumes inv: "ring_inv pipe" and law: "copy_to_user_law ua" and used: "unat w \<le> pipe_used pipe"
    and sb: "fetch_bytes ua um pipe buf (unat w) = (left, pipe', um')"
  shows "transfer_out (copy ua) um pipe w buf = Done (of_nat left, pipe', um')"
proof -
  define w1 where "w1 = (if read_pos pipe \<le> write_pos pipe then w else min w (psize pipe - read_pos pipe))"
  have uw1: "unat w1 = first_get pipe (unat w)"
    by (simp add: w1_def first_get_def unat_min_u64 psize_minus_word [OF inv])
  note fits = first_get_fits [OF inv used]
  obtain l1 p1 um1 where s1: "fetch_chunk ua um pipe buf (unat w1) = (l1, p1, um1)"
    by (cases "fetch_chunk ua um pipe buf (unat w1)")
  have r1: "unat w1 \<le> pipe_used pipe" and f1: "unat (read_pos pipe) + unat w1 \<le> unat (psize pipe)"
    using fits used uw1 by simp_all
  note c1 = copy_chunk [OF inv law f1 s1]
  note g1 = fetch_chunk_facts [OF inv law f1 r1 s1]
  have w1_le: "w1 \<le> w" and w1_lt: "w1 < w \<longleftrightarrow> first_get pipe (unat w) < unat w"
    using fits uw1 by (simp_all add: word_le_nat_alt word_less_nat_alt)
  have z: "(of_nat l1 :: u32) = 0 \<longleftrightarrow> l1 = 0"
    by (rule small_count(1) [OF inv, of _ "unat w1"]) (use g1(3) r1 free_used_capacity [OF inv] in simp_all)
  show ?thesis
  proof (cases "l1 = 0 \<and> w1 < w")
    case True
    then have rw: "\<not> read_pos pipe \<le> write_pos pipe"
      by (auto simp: w1_def split: if_splits)
    have d: "unat (w - w1) = unat w - unat w1"
      using w1_le by (simp add: unat_diff_u64)
    have s2: "fetch_chunk ua um1 p1 (buf + w1) (unat (w - w1)) = (left, pipe', um')"
      using sb s1 True w1_lt d by (simp add: fetch_bytes_def Let_def flip: uw1)
    have f2: "unat (read_pos p1) + unat (w - w1) \<le> unat (psize p1)"
      using g1(5) True fits(3) w1_lt uw1 g1(2) d used free_used_capacity [OF inv]
      by (simp add: pipe_capacity_def)
    from copy_chunk [OF g1(1) law f2 s2] True rw c1 show ?thesis
      by (simp add: transfer_out_def Let_def w1_def)
  next
    case False
    then have "left = l1" "pipe' = p1" "um' = um1"
      using s1 w1_lt uw1 sb by (auto simp add: fetch_bytes_def Let_def)
    with False c1 z show ?thesis
      by (cases "read_pos pipe \<le> write_pos pipe") (auto simp: transfer_out_def Let_def w1_def)
  qed
qed

end

interpretation simple_in: chunk_writer simple_pipe_copy_from_user
  by unfold_locales (rule simple_pipe_copy_from_user_chunk)

interpretation simple_out: chunk_reader simple_pipe_copy_to_user
  by unfold_locales (rule simple_pipe_copy_to_user_chunk)

lemma simple_pipe_write_eq:
  assumes inv: "ring_inv pipe" and law: "copy_from_user_law ua" and ok: "access_ok ua buf (unat count)"
    and n: "n = min (pipe_free pipe) (unat count)"
  shows "simple_pipe_write ua um pipe buf count ppos =
    Done (write_result n ppos (store_bytes ua um pipe buf n))"
proof (cases "simple_pipe_room pipe = 0")
  case True
  then have "n = 0"
    using n unat_simple_pipe_room [OF inv] by simp
  with True ok store_bytes_0 [OF inv law] show ?thesis
    by (simp add: simple_pipe_write_def write_result_def)
next
  case False
  define w where "w = min (simple_pipe_room pipe) count"
  have uw: "unat w = n"
    by (simp add: w_def n unat_min_u64 unat_simple_pipe_room [OF inv])
  have room: "unat w \<le> pipe_free pipe"
    by (simp add: uw n)
  obtain l p where sb: "store_bytes ua um pipe buf (unat w) = (l, p)"
    by (cases "store_bytes ua um pipe buf (unat w)")
  have l: "l \<le> unat w" "unat w \<le> pipe_capacity pipe"
    using store_bytes_facts(3) [OF inv law room sb] room free_used_capacity [OF inv] by simp_all
  have "simple_pipe_write ua um pipe buf count ppos =
    outcome_bind (transfer_in (simple_pipe_copy_from_user ua um) pipe w buf)
      (\<lambda>(ret, pipe). if ret \<noteq> 0 then Done (scast ret, pipe, ppos)
        else Done (w, pipe, ppos + w))"
    using False ok by (simp only: simple_pipe_write_def transfer_in_def w_def Let_def not_True_eq_False if_False)
  then show ?thesis
    using sb small_count [OF inv l]
    by (simp add: simple_in.transfer_in_eq [OF inv law room sb] write_result_def del: outcome_bind_eq_Done
        flip: uw)
qed

lemma simple_pipe_read_eq:
  assumes inv: "ring_inv pipe" and law: "copy_to_user_law ua" and ok: "access_ok ua buf (unat count)"
    and n: "n = min (pipe_used pipe) (unat count)"
  shows "simple_pipe_read ua um pipe buf count ppos =
    Done (read_result n ppos (fetch_bytes ua um pipe buf n))"
proof (cases "simple_pipe_data pipe = 0")
  case True
  then have "n = 0"
    using n unat_simple_pipe_data [OF inv] by simp
  with True ok fetch_bytes_0 [OF inv law] show ?thesis
    by (simp add: simple_pipe_read_def read_result_def)
next
  case False
  define w where "w = min (simple_pipe_data pipe) count"
  have uw: "unat w = n"
    by (simp add: w_def n unat_min_u64 unat_simple_pipe_data [OF inv])
  have used: "unat w \<le> pipe_used pipe"
    by (simp add: uw n)
  obtain l p um1 where sb: "fetch_bytes ua um pipe buf (unat w) = (l, p, um1)"
    by (cases "fetch_bytes ua um pipe buf (unat w)")
  have l: "l \<le> unat w" "unat w \<le> pipe_capacity pipe"
    using fetch_bytes_facts(3) [OF inv law used sb] used free_used_capacity [OF inv] by simp_all
  have "simple_pipe_read ua um pipe buf count ppos =
    outcome_bind (transfer_out (simple_pipe_copy_to_user ua) um pipe w buf)
      (\<lambda>(ret, pipe, um). if ret \<noteq> 0 then Done (scast ret, pipe, ppos, um)
        else Done (w, pipe, ppos + w, um))"
    using False ok by (simp only: simple_pipe_read_def transfer_out_def w_def Let_def not_True_eq_False if_False)
  then show ?thesis
    using sb small_count [OF inv l]
    by (simp add: simple_out.transfer_out_eq [OF inv law used sb] read_result_def del: outcome_bind_eq_Done
        flip: uw)
qed

lemma store_bytes_readable:
  assumes inv: "ring_inv pipe" and law: "copy_from_user_law ua" and room: "n \<le> pipe_free pipe"
    and rd: "user_readable ua buf m" and m: "n \<le> m"
  shows "fst (store_bytes ua um pipe buf n) = 0"
proof -
  have first: "fst (store_chunk ua um p (buf + of_nat i) k) = 0"
    if "i + k \<le> n" for p :: "'a my_pipe_t_scheme" and i k
  proof -
    have "snd (copy_from_user ua um (buf + of_nat i) k) = 0"
      using rd that m by (simp add: user_readable_def)
    then show ?thesis
      by (auto simp: store_chunk_def split: prod.splits)
  qed
  show ?thesis
    using first [of 0 "first_put pipe n" pipe] first [of "first_put pipe n" "n - first_put pipe n"]
      first_put_fits(2) [OF inv room]
    by (auto simp: store_bytes_def Let_def split: prod.splits)
qed

lemma fetch_bytes_writable:
  assumes inv: "ring_inv pipe" and law: "copy_to_user_law ua" and used: "n \<le> pipe_used pipe"
    and rd: "user_writable ua buf m" and m: "n \<le> m"
  shows "fst (fetch_bytes ua um pipe buf n) = 0"
proof -
  have first: "fst (fetch_chunk ua um p (buf + of_nat i) k) = 0" if "i + k \<le> n" for um i k
    and p :: "'a my_pipe_t_scheme"
  proof -
    have "i + length (front_chunk p k) \<le> m"
      using that m by (simp add: front_chunk_def chunk_def)
    with rd have "snd (copy_to_user ua um (buf + of_nat i) (front_chunk p k)) = 0"
      by (simp add: user_writable_def)
    then show ?thesis
      by (auto simp: fetch_chunk_def split: prod.splits)
  qed
  show ?thesis
    using first [of 0 "first_get pipe n" um pipe] first [of "first_get pipe n" "n - first_get pipe n"]
      first_get_fits(2) [OF inv used]
    by (auto simp: fetch_bytes_def Let_def split: prod.splits)
qed

lemma pipe_free_capacity:
  "ring_inv pipe \<Longrightarrow> pipe_free pipe = pipe_capacity pipe - length (pipe_contents pipe)"
  using used_plus_free [of pipe] length_pipe_contents [of pipe] by simp

text \<open>The outcome of the transfers on memory that does not fault, and on any memory.\<close>

lemma store_bytes_total:
  assumes "ring_inv pipe" and "uaccess_laws ua" and "user_readable ua buf (unat count)"
    and "n = min (pipe_capacity pipe - length (pipe_contents pipe)) (unat count)"
  shows "\<exists>pipe'. store_bytes ua um pipe buf n = (0, pipe') \<and> ring_inv pipe' \<and>
    pipe_capacity pipe' = pipe_capacity pipe \<and>
    pipe_contents pipe' = pipe_contents pipe @ user_bytes um buf n"
proof -
  have law: "copy_from_user_law ua"
    using assms(2) by (simp add: uaccess_laws_def)
  have room: "n \<le> pipe_free pipe" and m: "n \<le> unat count"
    using assms(4) pipe_free_capacity [OF assms(1)] by simp_all
  obtain pipe' where st: "store_bytes ua um pipe buf n = (0, pipe')"
    using store_bytes_readable [OF assms(1) law room assms(3) m, of um]
    by (metis prod.collapse)
  from store_bytes_facts [OF assms(1) law room st] st show ?thesis
    by (auto simp: pipe_capacity_def)
qed

lemma fetch_bytes_total:
  assumes "ring_inv pipe" and "uaccess_laws ua" and "user_writable ua buf (unat count)"
    and "n = min (length (pipe_contents pipe)) (unat count)"
  shows "\<exists>pipe'. fetch_bytes ua um pipe buf n =
      (0, pipe', user_store um buf (take n (pipe_contents pipe))) \<and> ring_inv pipe' \<and>
    pipe_capacity pipe' = pipe_capacity pipe \<and> pipe_contents pipe' = drop n (pipe_contents pipe)"
proof -
  have law: "copy_to_user_law ua"
    using assms(2) by (simp add: uaccess_laws_def)
  have used: "n \<le> pipe_used pipe" and m: "n \<le> unat count"
    using assms(4) length_pipe_contents [OF assms(1)] by simp_all
  obtain pipe' um' where st: "fetch_bytes ua um pipe buf n = (0, pipe', um')"
    using fetch_bytes_writable [OF assms(1) law used assms(3) m, of um]
    by (metis prod.collapse)
  from fetch_bytes_facts [OF assms(1) law used st] st show ?thesis
    by (auto simp: pipe_capacity_def)
qed

section \<open>Sequences of calls\<close>

text \<open>
  One step is one completed \<open>read\<close> or \<open>write\<close> on the device, labelled with the bytes that the
  caller handed over or received according to the returned size. The caller's memory is arbitrary,
  except that a call whose range passes \<open>access_ok\<close> does not fault.
\<close>

inductive simple_pipe_step :: "my_pipe_t \<Rightarrow> byte fifo_event \<Rightarrow> my_pipe_t \<Rightarrow> bool" where
  step_write: "simple_pipe_write ua um pipe buf count ppos = Done (ret, pipe', ppos') \<Longrightarrow>
    uaccess_laws ua \<Longrightarrow> access_ok ua buf (unat count) \<Longrightarrow> user_readable ua buf (unat count) \<Longrightarrow>
    simple_pipe_step pipe (Wrote (user_bytes um buf (unat ret))) pipe'"
| step_read: "simple_pipe_read ua um pipe buf count ppos = Done (ret, pipe', ppos', um') \<Longrightarrow>
    uaccess_laws ua \<Longrightarrow> access_ok ua buf (unat count) \<Longrightarrow> user_writable ua buf (unat count) \<Longrightarrow>
    simple_pipe_step pipe (ReadOut (user_bytes um' buf (unat ret))) pipe'"
| step_bad_write: "simple_pipe_write ua um pipe buf count ppos = Done (ret, pipe', ppos') \<Longrightarrow>
    \<not> access_ok ua buf (unat count) \<Longrightarrow> simple_pipe_step pipe Quiet pipe'"
| step_bad_read: "simple_pipe_read ua um pipe buf count ppos = Done (ret, pipe', ppos', um') \<Longrightarrow>
    \<not> access_ok ua buf (unat count) \<Longrightarrow> simple_pipe_step pipe Quiet pipe'"

inductive_cases simple_pipe_step_WroteE: "simple_pipe_step pipe (Wrote bs) pipe'"
inductive_cases simple_pipe_step_ReadOutE: "simple_pipe_step pipe (ReadOut bs) pipe'"
inductive_cases simple_pipe_step_QuietE: "simple_pipe_step pipe Quiet pipe'"

lemma capacity_small: "ring_inv pipe \<Longrightarrow> pipe_capacity pipe < 2 ^ 64"
  using unat_less_u64 [of "psize pipe"] by (simp add: pipe_capacity_def)

lemma contents_bounded: "ring_inv pipe \<Longrightarrow> length (pipe_contents pipe) \<le> pipe_capacity pipe"
  using used_plus_free [of pipe] length_pipe_contents [of pipe] by simp

lemma simple_pipe_write_readable:
  assumes "ring_inv pipe" and "uaccess_laws ua" and "access_ok ua buf (unat count)"
    and "user_readable ua buf (unat count)"
    and "n = min (pipe_capacity pipe - length (pipe_contents pipe)) (unat count)"
  shows "\<exists>pipe'. simple_pipe_write ua um pipe buf count ppos =
      Done (of_nat n, pipe', ppos + of_nat n) \<and> ring_inv pipe' \<and>
    pipe_capacity pipe' = pipe_capacity pipe \<and>
    pipe_contents pipe' = pipe_contents pipe @ user_bytes um buf n"
  using store_bytes_total [OF assms(1,2,4,5), of um] assms pipe_free_capacity [OF assms(1)]
    simple_pipe_write_eq [OF assms(1) _ assms(3), of n um ppos]
  by (auto simp: uaccess_laws_def write_result_def)

lemma simple_pipe_read_writable:
  assumes "ring_inv pipe" and "uaccess_laws ua" and "access_ok ua buf (unat count)"
    and "user_writable ua buf (unat count)"
    and "n = min (length (pipe_contents pipe)) (unat count)"
  shows "\<exists>pipe'. simple_pipe_read ua um pipe buf count ppos =
      Done (of_nat n, pipe', ppos + of_nat n, user_store um buf (take n (pipe_contents pipe))) \<and>
    ring_inv pipe' \<and> pipe_capacity pipe' = pipe_capacity pipe \<and>
    pipe_contents pipe' = drop n (pipe_contents pipe)"
  using fetch_bytes_total [OF assms(1,2,4,5), of um] assms length_pipe_contents [OF assms(1)]
    simple_pipe_read_eq [OF assms(1) _ assms(3), of n um ppos]
  by (auto simp: uaccess_laws_def read_result_def)

lemma step_write_contents:
  assumes "ring_inv pipe" and "simple_pipe_step pipe (Wrote bs) pipe'"
  shows "ring_inv pipe' \<and> pipe_capacity pipe' = pipe_capacity pipe \<and>
    pipe_contents pipe' = pipe_contents pipe @ bs"
  using assms(2)
proof (rule simple_pipe_step_WroteE)
  fix ua um buf count ppos ret ppos'
  assume bs: "bs = user_bytes um buf (unat ret)"
    and w: "simple_pipe_write ua um pipe buf count ppos = Done (ret, pipe', ppos')"
    and h: "uaccess_laws ua" "access_ok ua buf (unat count)" "user_readable ua buf (unat count)"
  have "unat ret = min (pipe_capacity pipe - length (pipe_contents pipe)) (unat count)"
    using simple_pipe_write_readable [OF assms(1) h refl, of um ppos] w capacity_small [OF assms(1)]
    by (auto simp: min_def)
  with simple_pipe_write_readable [OF assms(1) h refl, of um ppos] w bs show ?thesis
    by auto
qed

lemma step_read_contents:
  assumes "ring_inv pipe" and "simple_pipe_step pipe (ReadOut bs) pipe'"
  shows "ring_inv pipe' \<and> pipe_capacity pipe' = pipe_capacity pipe \<and>
    pipe_contents pipe = bs @ pipe_contents pipe'"
  using assms(2)
proof (rule simple_pipe_step_ReadOutE)
  fix ua um buf count ppos ret ppos' um'
  assume bs: "bs = user_bytes um' buf (unat ret)"
    and w: "simple_pipe_read ua um pipe buf count ppos = Done (ret, pipe', ppos', um')"
    and h: "uaccess_laws ua" "access_ok ua buf (unat count)" "user_writable ua buf (unat count)"
  define n where "n = min (length (pipe_contents pipe)) (unat count)"
  have small: "n < 2 ^ 64"
    using capacity_small [OF assms(1)] contents_bounded [OF assms(1)] by (simp add: n_def)
  note r = simple_pipe_read_writable [OF assms(1) h n_def, of um ppos]
  have um': "um' = user_store um buf (take n (pipe_contents pipe))" and ret: "unat ret = n"
    and inv: "ring_inv pipe'" "pipe_capacity pipe' = pipe_capacity pipe"
    and c: "pipe_contents pipe' = drop n (pipe_contents pipe)"
    using r w small by auto
  have "length (take n (pipe_contents pipe)) = n"
    by (simp add: n_def)
  then have "bs = take n (pipe_contents pipe)"
    using user_bytes_user_store [of "take n (pipe_contents pipe)" um buf] small bs um' ret by simp
  with inv c show ?thesis by simp
qed

lemma step_quiet_contents: "simple_pipe_step pipe Quiet pipe' \<Longrightarrow> pipe' = pipe"
  by (erule simple_pipe_step_QuietE) (simp_all add: simple_pipe_write_def simple_pipe_read_def)

interpretation simple: fifo_channel simple_pipe_step ring_inv pipe_contents pipe_capacity
proof
  fix s s' :: my_pipe_t and e
  assume "ring_inv s" and "simple_pipe_step s e s'"
  then show "ring_inv s'" "pipe_capacity s' = pipe_capacity s"
    by (cases e; use step_write_contents step_read_contents step_quiet_contents in blast)+
qed (use step_write_contents step_read_contents step_quiet_contents contents_bounded in blast)+

section \<open>Properties\<close>

text \<open>The ring used by the witnesses: eight cells, empty, about to wrap; memory where the byte at
  address \<open>a\<close> is the low byte of \<open>a\<close>, mapped below address 100.\<close>

definition ring8 :: my_pipe_t where
  "ring8 = \<lparr>pdata = replicate 8 0, psize = 8, read_pos = 6, write_pos = 6\<rparr>"

definition counting_memory :: umem where
  "counting_memory a = ucast a"

lemma ring8_facts:
  "ring_inv ring8" "pipe_contents ring8 = []" "pipe_capacity ring8 = 7"
  by (simp_all add: ring_inv_def ring8_def pipe_contents_def pipe_capacity_def)

lemma mapped100:
  "access_ok (mapped_uaccess 100) a n \<longleftrightarrow> unat a + n \<le> 2 ^ 47"
  "unat a + n \<le> 100 \<Longrightarrow> user_readable (mapped_uaccess 100) a n"
  "unat a + n \<le> 100 \<Longrightarrow> user_writable (mapped_uaccess 100) a n"
  by (simp add: mapped_uaccess_def) (simp_all add: mapped_uaccess_readable mapped_uaccess_writable)

text \<open>Whatever the caller passes to \<open>pipe_write\<close> and wherever its memory faults, the call returns
  without touching memory outside the ring, keeps the ring valid and its size, and appends some
  prefix of the caller's bytes, at most \<open>count\<close>, to the pipe. A range that fails \<open>access_ok\<close> is
  refused with \<open>-EFAULT\<close> and changes nothing. When no byte of the range faults, the prefix is as
  long as the free room allows, and its length is what is returned and added to the position.\<close>

theorem simple_pipe_write_total:
  assumes "ring_inv pipe" and "uaccess_laws ua"
  shows "\<exists>ret pipe' ppos' k. simple_pipe_write ua um pipe buf count ppos = Done (ret, pipe', ppos') \<and>
    ring_inv pipe' \<and> pipe_capacity pipe' = pipe_capacity pipe \<and> k \<le> unat count \<and>
    pipe_contents pipe' = pipe_contents pipe @ user_bytes um buf k \<and>
    (\<not> access_ok ua buf (unat count) \<longrightarrow> ret = ssize_err EFAULT \<and> pipe' = pipe \<and> ppos' = ppos) \<and>
    (access_ok ua buf (unat count) \<and> user_readable ua buf (unat count) \<longrightarrow>
      k = min (pipe_capacity pipe - length (pipe_contents pipe)) (unat count) \<and>
      ret = of_nat k \<and> ppos' = ppos + of_nat k)"
proof (cases "access_ok ua buf (unat count)")
  case False
  then show ?thesis
    using assms by (intro exI [of _ "ssize_err EFAULT"] exI [of _ pipe] exI [of _ ppos] exI [of _ 0])
      (simp add: simple_pipe_write_def user_bytes_def)
next
  case True
  have law: "copy_from_user_law ua"
    using assms by (simp add: uaccess_laws_def)
  define n where "n = min (pipe_free pipe) (unat count)"
  have room: "n \<le> pipe_free pipe"
    by (simp add: n_def)
  obtain left pipe' where st: "store_bytes ua um pipe buf n = (left, pipe')"
    by (cases "store_bytes ua um pipe buf n")
  note f = store_bytes_facts [OF assms(1) law room st]
  then obtain k where k: "k + left \<le> n" "left = 0 \<longrightarrow> k = n"
    "pipe_contents pipe' = pipe_contents pipe @ user_bytes um buf k" by auto
  have w: "simple_pipe_write ua um pipe buf count ppos = Done (write_result n ppos (left, pipe'))"
    using simple_pipe_write_eq [OF assms(1) law True n_def, of um ppos] st by simp
  have ok: "left = 0" if "user_readable ua buf (unat count)"
    using store_bytes_readable [OF assms(1) law room that, of um] st by (simp add: n_def)
  define r :: "u64 \<times> u64" where "r = (if left = 0 then (of_nat n, ppos + of_nat n) else (of_nat left, ppos))"
  show ?thesis
    by (rule exI [of _ "fst r"], rule exI [of _ pipe'], rule exI [of _ "snd r"], rule exI [of _ k])
      (use True w k f(1,2) ok pipe_free_capacity [OF assms(1)] n_def in
        \<open>auto simp: write_result_def pipe_capacity_def r_def\<close>)
qed

theorem simple_pipe_write_total_witness:
  "\<exists>ret pipe' ppos'. simple_pipe_write (mapped_uaccess 100) counting_memory ring8 10 5 0 =
     Done (ret, pipe', ppos') \<and> ring_inv pipe' \<and> ret = 5 \<and>
     pipe_contents pipe' = user_bytes counting_memory 10 5"
  using simple_pipe_write_total [OF ring8_facts(1) mapped_uaccess_laws, of 100 counting_memory 10 5 0]
  by (auto simp: mapped100 ring8_facts)

text \<open>\<open>pipe_read\<close> never leaves the ring's memory and keeps the ring valid. When the caller's range
  is accessible and does not fault, the oldest bytes of the pipe (as many as there are, at most
  \<open>count\<close>) are stored in the caller's buffer in order, removed from the pipe, and their number is
  returned; a copy that faults removes a prefix of the bytes and stores at most them.\<close>

theorem simple_pipe_read_total:
  assumes "ring_inv pipe" and "uaccess_laws ua"
  shows "\<exists>ret pipe' ppos' um' k.
    simple_pipe_read ua um pipe buf count ppos = Done (ret, pipe', ppos', um') \<and>
    ring_inv pipe' \<and> pipe_capacity pipe' = pipe_capacity pipe \<and> k \<le> unat count \<and>
    pipe_contents pipe' = drop k (pipe_contents pipe) \<and>
    (\<not> access_ok ua buf (unat count) \<longrightarrow>
      ret = ssize_err EFAULT \<and> pipe' = pipe \<and> ppos' = ppos \<and> um' = um) \<and>
    (access_ok ua buf (unat count) \<and> user_writable ua buf (unat count) \<longrightarrow>
      k = min (length (pipe_contents pipe)) (unat count) \<and> ret = of_nat k \<and>
      ppos' = ppos + of_nat k \<and> um' = user_store um buf (take k (pipe_contents pipe)))"
proof (cases "access_ok ua buf (unat count)")
  case False
  then show ?thesis
    using assms by (intro exI [of _ "ssize_err EFAULT"] exI [of _ pipe] exI [of _ ppos] exI [of _ um]
        exI [of _ 0]) (simp add: simple_pipe_read_def)
next
  case True
  have law: "copy_to_user_law ua"
    using assms by (simp add: uaccess_laws_def)
  define n where "n = min (pipe_used pipe) (unat count)"
  have used: "n \<le> pipe_used pipe"
    by (simp add: n_def)
  obtain left pipe' um' where st: "fetch_bytes ua um pipe buf n = (left, pipe', um')"
    by (cases "fetch_bytes ua um pipe buf n")
  note f = fetch_bytes_facts [OF assms(1) law used st]
  then obtain k where k: "k + left \<le> n" "left = 0 \<longrightarrow> k = n"
    "pipe_contents pipe' = drop k (pipe_contents pipe)" by auto
  have w: "simple_pipe_read ua um pipe buf count ppos = Done (read_result n ppos (left, pipe', um'))"
    using simple_pipe_read_eq [OF assms(1) law True n_def, of um ppos] st by simp
  have ok: "left = 0" if "user_writable ua buf (unat count)"
    using fetch_bytes_writable [OF assms(1) law used that, of um] st by (simp add: n_def)
  define r :: "u64 \<times> u64" where "r = (if left = 0 then (of_nat n, ppos + of_nat n) else (of_nat left, ppos))"
  show ?thesis
    by (rule exI [of _ "fst r"], rule exI [of _ pipe'], rule exI [of _ "snd r"], rule exI [of _ um'],
        rule exI [of _ k])
      (use True w k f(1,2,5) ok length_pipe_contents [OF assms(1)] n_def in
        \<open>auto simp: read_result_def pipe_capacity_def r_def\<close>)
qed

theorem simple_pipe_read_total_witness:
  "\<exists>ret pipe' ppos' um'. simple_pipe_read (mapped_uaccess 100) counting_memory
     (ring_put ring8 [3, 4]) 10 5 0 = Done (ret, pipe', ppos', um') \<and> ret = 2 \<and>
     um' = user_store counting_memory 10 [3, 4]"
proof -
  have c: "ring_inv (ring_put ring8 [3, 4])" "pipe_contents (ring_put ring8 [3, 4]) = [3, 4]"
    by (subst ring_put_contents ring_put_inv; simp add: ring8_facts; simp add: ring8_def ring_room_def)+
  show ?thesis
    using simple_pipe_read_total [OF c(1) mapped_uaccess_laws, of 100 counting_memory 10 5 0]
    by (auto simp: mapped100 c(2))
qed



text \<open>A \<open>pipe_write\<close> whose copy faults in its first chunk accepts no byte, yet returns the positive
  number of bytes that could not be copied: the caller is told that these bytes were written.\<close>

theorem simple_pipe_write_fault:
  assumes "ring_inv pipe" and "uaccess_laws ua" and "access_ok ua buf (unat count)"
    and "left = snd (copy_from_user ua um buf (first_put pipe (min (pipe_free pipe) (unat count))))"
    and "0 < left"
  shows "\<exists>pipe'. simple_pipe_write ua um pipe buf count ppos = Done (of_nat left, pipe', ppos) \<and>
    pipe_contents pipe' = pipe_contents pipe \<and> 0 < sint (of_nat left :: u64)"
proof -
  have law: "copy_from_user_law ua"
    using assms by (simp add: uaccess_laws_def)
  define n where "n = min (pipe_free pipe) (unat count)"
  have room: "n \<le> pipe_free pipe"
    by (simp add: n_def)
  note fits = first_put_fits [OF assms(1) room]
  obtain l pipe' where c: "store_chunk ua um pipe buf (first_put pipe n) = (l, pipe')"
    by (cases "store_chunk ua um pipe buf (first_put pipe n)")
  have l: "l = left"
    using c assms(4) by (auto simp: store_chunk_def n_def split: prod.splits if_splits)
  have st: "store_bytes ua um pipe buf n = (left, pipe')"
    using c l assms(5) by (simp add: store_bytes_def)
  have "pipe_contents pipe' = pipe_contents pipe"
    using store_chunk_facts(4) [OF assms(1) law fits(1) _ c] fits(2) room l assms(5) by simp
  moreover have "simple_pipe_write ua um pipe buf count ppos = Done (of_nat left, pipe', ppos)"
    using simple_pipe_write_eq [OF assms(1) law assms(3) n_def, of um ppos] st assms(5)
    by (simp add: write_result_def)
  moreover have "left < 2 ^ 31"
    using store_bytes_facts(3) [OF assms(1) law room st] room used_plus_free [OF assms(1)]
      ring_invD(2) [OF assms(1)] by (simp add: pipe_capacity_def)
  then have "sint (of_nat left :: u64) = int left"
    by (intro sint_of_nat_u64) simp
  ultimately show ?thesis
    using assms(5) by simp
qed

theorem simple_pipe_write_fault_witness:
  "\<exists>pipe'. simple_pipe_write (mapped_uaccess 12) counting_memory ring8 11 5 0 = Done (1, pipe', 0) \<and>
     pipe_contents pipe' = []"
proof -
  have "snd (copy_from_user (mapped_uaccess 12) counting_memory 11
      (first_put ring8 (min (pipe_free ring8) (unat (5 :: u64))))) = 1"
    by (simp add: mapped_uaccess_def mapped_part_def first_put_def ring8_def ring_room_def Let_def)
  from simple_pipe_write_fault [OF ring8_facts(1) mapped_uaccess_laws _ this [symmetric], of 0]
  show ?thesis
    by (simp add: mapped_uaccess_def ring8_facts)
qed

end
