(* ===== verification/KPipe.thy ===== *)
theory KPipe
  imports SimplePipe
begin

text \<open>
  The pipe device of \<open>src/src/kernel_standalone/pipe/main.c\<close> as it is configured there
  (\<open>DO_COPY\<close>, \<open>DO_MUTEX\<close>, \<open>DO_WAITQUEUE\<close>, \<open>DO_WAKEUP\<close>): the ring of \<open>simple_pipe\<close> with a mutex,
  two wait queues and counts of the open readers and writers. This theory has the operations as
  they run with the mutex held: an operation either blocks or returns, and says whether it wakes
  the other side. The interleaving of threads, the mutex and the wait queues are in \<open>PipeSys\<close>.
\<close>

section \<open>The pipe and its operations\<close>

record kpipe = my_pipe_t +
  readers :: u32
  writers :: u32

text \<open>\<open>kmalloc\<close> may give a null pointer, which the constructor stores: the model then has no pipe.\<close>

definition kpipe_ctor :: "u32 \<Rightarrow> byte list option \<Rightarrow> kpipe option" where
  "kpipe_ctor pipe_size block =
     map_option (\<lambda>b. \<lparr>pdata = b, psize = scast pipe_size, read_pos = 0, write_pos = 0,
       readers = 0, writers = 0\<rparr>) block"

definition kpipe_have_data :: "kpipe \<Rightarrow> bool" where
  "kpipe_have_data pipe \<longleftrightarrow> read_pos pipe \<noteq> write_pos pipe"

definition kpipe_room :: "kpipe \<Rightarrow> u64" where
  "kpipe_room pipe =
     (if read_pos pipe \<le> write_pos pipe
      then psize pipe - write_pos pipe + read_pos pipe - 1
      else read_pos pipe - write_pos pipe - 1)"

definition kpipe_data :: "kpipe \<Rightarrow> u64" where
  "kpipe_data pipe =
     (if read_pos pipe \<le> write_pos pipe
      then write_pos pipe - read_pos pipe
      else psize pipe - read_pos pipe + write_pos pipe)"

text \<open>The wake-up conditions, evaluated with the mutex held.\<close>

definition kpipe_reader_should_i_wake_up :: "kpipe \<Rightarrow> bool" where
  "kpipe_reader_should_i_wake_up pipe \<longleftrightarrow> kpipe_data pipe > 0 \<or> writers pipe = 0"

definition kpipe_writer_should_i_wake_up :: "kpipe \<Rightarrow> bool" where
  "kpipe_writer_should_i_wake_up pipe \<longleftrightarrow> kpipe_room pipe > 0"

definition kpipe_copy_from_user ::
  "uaccess \<Rightarrow> umem \<Rightarrow> kpipe \<Rightarrow> u32 \<Rightarrow> u64 \<Rightarrow> (u32 \<times> kpipe \<times> u64) outcome" where
  "kpipe_copy_from_user ua um pipe count ubuf =
     (let n = unat (scast count :: u64);
          (bs, left) = copy_from_user ua um ubuf n;
          ret = (of_nat left :: u32)
      in if length (pdata pipe) < unat (write_pos pipe) + n then Crash OutOfBounds
         else let pipe = pipe\<lparr>pdata := blit (pdata pipe) (unat (write_pos pipe)) bs\<rparr>
         in if ret = 0
            then let ubuf = ubuf + scast count;
                     pipe = pipe\<lparr>write_pos := write_pos pipe + scast count\<rparr>
                 in if write_pos pipe > psize pipe then Crash BugOn
                    else if write_pos pipe = psize pipe
                    then Done (ret, pipe\<lparr>write_pos := 0\<rparr>, ubuf)
                    else Done (ret, pipe, ubuf)
            else Done (ret, pipe, ubuf))"

text \<open>Here \<open>ret\<close> is an \<open>unsigned long\<close> that is cut to \<open>int\<close> when it is returned.\<close>

definition kpipe_copy_to_user ::
  "uaccess \<Rightarrow> umem \<Rightarrow> kpipe \<Rightarrow> u32 \<Rightarrow> u64 \<Rightarrow> (u32 \<times> kpipe \<times> u64 \<times> umem) outcome" where
  "kpipe_copy_to_user ua um pipe count ubuf =
     (let n = unat (scast count :: u64)
      in if length (pdata pipe) < unat (read_pos pipe) + n then Crash OutOfBounds
         else let (um, left) = copy_to_user ua um ubuf (chunk (pdata pipe) (unat (read_pos pipe)) n);
                  ret = (of_nat left :: u64)
         in if ret = 0
            then let ubuf = ubuf + scast count;
                     pipe = pipe\<lparr>read_pos := read_pos pipe + scast count\<rparr>
                 in if read_pos pipe > psize pipe then Crash BugOn
                    else if read_pos pipe = psize pipe
                    then Done (ucast ret, pipe\<lparr>read_pos := 0\<rparr>, ubuf, um)
                    else Done (ucast ret, pipe, ubuf, um)
            else Done (ucast ret, pipe, ubuf, um))"

text \<open>The open mode of a file: \<open>FMODE_READ\<close> and \<open>FMODE_WRITE\<close>.\<close>

record f_mode =
  fmode_read :: bool
  fmode_write :: bool

definition kpipe_open :: "f_mode \<Rightarrow> kpipe \<Rightarrow> kpipe" where
  "kpipe_open m pipe =
     (let pipe = (if fmode_read m then pipe\<lparr>readers := readers pipe + 1\<rparr> else pipe)
      in if fmode_write m then pipe\<lparr>writers := writers pipe + 1\<rparr> else pipe)"

text \<open>The second component says whether the readers are woken.\<close>

definition kpipe_release :: "f_mode \<Rightarrow> kpipe \<Rightarrow> kpipe \<times> bool" where
  "kpipe_release m pipe =
     (let pipe = (if fmode_read m then pipe\<lparr>readers := readers pipe - 1\<rparr> else pipe);
          pipe = (if fmode_write m then pipe\<lparr>writers := writers pipe - 1\<rparr> else pipe)
      in (pipe, fmode_write m \<and> writers pipe = 0))"

text \<open>
  \<open>pipe_read\<close> and \<open>pipe_write\<close> from the point where the mutex is held and the loop condition has
  been read: \<open>Blocks\<close> when the thread goes to sleep; otherwise the returned value, the pipe, the
  file position, user memory (for a read) and whether the other side is woken after the unlock.
\<close>

datatype 'a attempt = Blocks | Returns 'a

definition kpipe_read_locked ::
  "uaccess \<Rightarrow> umem \<Rightarrow> kpipe \<Rightarrow> u64 \<Rightarrow> u64 \<Rightarrow> u64 \<Rightarrow> (u64 \<times> kpipe \<times> u64 \<times> umem \<times> bool) outcome attempt" where
  "kpipe_read_locked ua um pipe buf count ppos =
     (let data = kpipe_data pipe
      in if data = 0 \<and> 0 < sint (writers pipe) then Blocks
      else if data = 0 \<and> writers pipe = 0 then Returns (Done (0, pipe, ppos, um, False))
      else let work_size = min data count
      in Returns (outcome_bind
        (if read_pos pipe \<le> write_pos pipe
         then outcome_bind (kpipe_copy_to_user ua um pipe (ucast work_size) buf)
           (\<lambda>(ret, pipe, buf, um). Done (ret, pipe, um))
         else let first_chunk = min work_size (psize pipe - read_pos pipe)
           in outcome_bind (kpipe_copy_to_user ua um pipe (ucast first_chunk) buf)
             (\<lambda>(ret, pipe, buf, um).
               if ret \<noteq> 0 then Done (ret, pipe, um)
               else if first_chunk < work_size
               then let second_chunk = work_size - first_chunk
                 in outcome_bind (kpipe_copy_to_user ua um pipe (ucast second_chunk) buf)
                   (\<lambda>(ret, pipe, buf, um). Done (ret, pipe, um))
               else Done (ret, pipe, um)))
        (\<lambda>(ret, pipe, um).
          if ret \<noteq> 0 then Done (scast ret, pipe, ppos, um, False)
          else Done (work_size, pipe, ppos + work_size, um, True))))"

definition kpipe_read ::
  "uaccess \<Rightarrow> umem \<Rightarrow> kpipe \<Rightarrow> u64 \<Rightarrow> u64 \<Rightarrow> u64 \<Rightarrow> (u64 \<times> kpipe \<times> u64 \<times> umem \<times> bool) outcome attempt" where
  "kpipe_read ua um pipe buf count ppos =
     (if \<not> access_ok ua buf (unat count)
      then Returns (Done (ssize_err EFAULT, pipe, ppos, um, False))
      else kpipe_read_locked ua um pipe buf count ppos)"

definition kpipe_write_locked ::
  "uaccess \<Rightarrow> umem \<Rightarrow> kpipe \<Rightarrow> u64 \<Rightarrow> u64 \<Rightarrow> u64 \<Rightarrow> (u64 \<times> kpipe \<times> u64 \<times> bool) outcome attempt" where
  "kpipe_write_locked ua um pipe buf count ppos =
     (let room = kpipe_room pipe
      in if room = 0 then Blocks
      else let work_size = min room count
      in Returns (outcome_bind
        (if read_pos pipe \<le> write_pos pipe
         then let first_chunk = min work_size (psize pipe - write_pos pipe)
           in outcome_bind (kpipe_copy_from_user ua um pipe (ucast first_chunk) buf)
             (\<lambda>(ret, pipe, buf).
               if ret \<noteq> 0 then Done (ret, pipe)
               else if first_chunk < work_size
               then let second_chunk = work_size - first_chunk
                 in outcome_bind (kpipe_copy_from_user ua um pipe (ucast second_chunk) buf)
                   (\<lambda>(ret, pipe, buf). Done (ret, pipe))
               else Done (ret, pipe))
         else outcome_bind (kpipe_copy_from_user ua um pipe (ucast work_size) buf)
           (\<lambda>(ret, pipe, buf). Done (ret, pipe)))
        (\<lambda>(ret, pipe).
          if ret \<noteq> 0 then Done (scast ret, pipe, ppos, False)
          else Done (work_size, pipe, ppos + work_size, True))))"

definition kpipe_write ::
  "uaccess \<Rightarrow> umem \<Rightarrow> kpipe \<Rightarrow> u64 \<Rightarrow> u64 \<Rightarrow> u64 \<Rightarrow> (u64 \<times> kpipe \<times> u64 \<times> bool) outcome attempt" where
  "kpipe_write ua um pipe buf count ppos =
     (if \<not> access_ok ua buf (unat count) then Returns (Done (ssize_err EFAULT, pipe, ppos, False))
      else kpipe_write_locked ua um pipe buf count ppos)"

section \<open>The copy helpers\<close>

lemma unat_kpipe_room: "ring_inv pipe \<Longrightarrow> unat (kpipe_room pipe) = pipe_free pipe"
  unfolding kpipe_room_def by (rule ring_room_word) (simp_all add: ring_inv_def)

lemma unat_kpipe_data: "ring_inv pipe \<Longrightarrow> unat (kpipe_data pipe) = pipe_used pipe"
  unfolding kpipe_data_def by (rule ring_data_word) (simp_all add: ring_inv_def)

lemma no_bug_on:
  fixes p w sz :: u64
  assumes "unat p + unat w \<le> unat sz"
  shows "\<not> p + w > sz"
proof -
  have "unat (p + w) = unat p + unat w"
    using assms unat_less_u64 [of sz] by (intro unat_add_u64) simp
  with assms show ?thesis
    by (simp add: word_less_nat_alt)
qed

lemma small_left:
  assumes "left \<le> unat w" and "unat w < 2 ^ 31"
  shows "(of_nat left :: u32) = 0 \<longleftrightarrow> left = 0" "(of_nat left :: u64) = 0 \<longleftrightarrow> left = 0"
    "(ucast (of_nat left :: u64) :: u32) = of_nat left"
proof -
  have l: "left < 2 ^ 31"
    using assms by simp
  then show "(of_nat left :: u32) = 0 \<longleftrightarrow> left = 0"
    by (simp add: of_nat_u32_eq_0)
  have "unat (of_nat left :: u64) = left"
    using l by (subst unat_of_nat_u64) simp_all
  then show "(of_nat left :: u64) = 0 \<longleftrightarrow> left = 0"
    by auto
  show "(ucast (of_nat left :: u64) :: u32) = of_nat left"
    using l by (simp add: unsigned_of_nat take_bit_nat_eq_self)
qed

lemma kpipe_copy_from_user_chunk:
  assumes inv: "ring_inv pipe" and law: "copy_from_user_law ua"
    and fits: "unat (write_pos pipe) + unat w \<le> unat (psize pipe)"
    and st: "store_chunk ua um pipe buf (unat w) = (left, pipe')"
  shows "kpipe_copy_from_user ua um pipe (ucast w) buf =
    Done (of_nat left, pipe', if left = 0 then buf + w else buf)"
proof -
  note d = ring_invD [OF inv]
  have w: "unat w < 2 ^ 31"
    using fits d by linarith
  obtain bs where c: "copy_from_user ua um buf (unat w) = (bs, left)"
    and p: "pipe' = (if left = 0 then ring_put pipe bs else ring_scribble pipe bs)"
    using st by (auto simp: store_chunk_def split: prod.splits if_splits)
  have len: "length bs = unat w" and le: "left \<le> unat w"
    using length_copy_from_user [OF law, of um buf "unat w"]
      copy_from_user_le [OF law, of um buf "unat w"] c by simp_all
  have nx: "(if write_pos pipe + w = psize pipe then 0 else write_pos pipe + w) =
      of_nat (ring_next (unat (psize pipe)) (unat (write_pos pipe)) (length bs))"
    using ring_next_word [OF fits] len by simp
  show ?thesis
    using fits d nx no_bug_on [OF fits] small_left [OF le w] p
    by (simp add: kpipe_copy_from_user_def scast_ucast_small [OF w] c Let_def ring_put_def
        ring_scribble_def split: if_splits)
qed

lemma kpipe_copy_to_user_chunk:
  assumes inv: "ring_inv pipe" and law: "copy_to_user_law ua"
    and fits: "unat (read_pos pipe) + unat w \<le> unat (psize pipe)"
    and st: "fetch_chunk ua um pipe buf (unat w) = (left, pipe', um')"
  shows "kpipe_copy_to_user ua um pipe (ucast w) buf =
    Done (of_nat left, pipe', if left = 0 then buf + w else buf, um')"
proof -
  note d = ring_invD [OF inv]
  have w: "unat w < 2 ^ 31"
    using fits d by linarith
  have c: "copy_to_user ua um buf (front_chunk pipe (unat w)) = (um', left)"
    and p: "pipe' = (if left = 0 then ring_get pipe (unat w) else pipe)"
    using st by (auto simp: fetch_chunk_def split: prod.splits if_splits)
  have le: "left \<le> unat w"
    using copy_to_user_le [OF law, of um buf "front_chunk pipe (unat w)"] c
      length_front_chunk [OF inv fits] by simp
  show ?thesis
    using fits d ring_next_word [OF fits] no_bug_on [OF fits] small_left [OF le w] p c
    by (simp add: kpipe_copy_to_user_def scast_ucast_small [OF w] Let_def ring_get_def
        front_chunk_def split: if_splits)
qed

interpretation kpipe_in: chunk_writer kpipe_copy_from_user
  by unfold_locales (rule kpipe_copy_from_user_chunk)

interpretation kpipe_out: chunk_reader kpipe_copy_to_user
  by unfold_locales (rule kpipe_copy_to_user_chunk)

section \<open>Whole operations\<close>

text \<open>Both operations as the two-chunk transfers of the shared ring.\<close>

lemma kpipe_write_locked_eq:
  assumes inv: "ring_inv pipe" and law: "copy_from_user_law ua"
    and n: "n = min (pipe_free pipe) (unat count)"
  shows "kpipe_write_locked ua um pipe buf count ppos =
    (if pipe_free pipe = 0 then Blocks
     else let (left, pipe') = store_bytes ua um pipe buf n
       in Returns (Done (if left = 0 then (of_nat n, pipe', ppos + of_nat n, True)
            else (of_nat left, pipe', ppos, False))))"
proof (cases "kpipe_room pipe = 0")
  case True
  then show ?thesis
    using unat_kpipe_room [OF inv] by (simp add: kpipe_write_locked_def)
next
  case False
  then have nz: "pipe_free pipe \<noteq> 0"
    using unat_kpipe_room [OF inv] by (metis unat_eq_0)
  define w where "w = min (kpipe_room pipe) count"
  have uw: "unat w = n"
    by (simp add: w_def n unat_min_u64 unat_kpipe_room [OF inv])
  have room: "unat w \<le> pipe_free pipe"
    by (simp add: uw n)
  obtain l p where sb: "store_bytes ua um pipe buf (unat w) = (l, p)"
    by (cases "store_bytes ua um pipe buf (unat w)")
  have l: "l \<le> unat w" "unat w \<le> pipe_capacity pipe"
    using store_bytes_facts(3) [OF inv law room sb] room free_used_capacity [OF inv] by simp_all
  have "kpipe_write_locked ua um pipe buf count ppos =
    Returns (outcome_bind (transfer_in (kpipe_copy_from_user ua um) pipe w buf)
      (\<lambda>(ret, pipe). if ret \<noteq> 0 then Done (scast ret, pipe, ppos, False)
        else Done (w, pipe, ppos + w, True)))"
    using False by (simp only: kpipe_write_locked_def transfer_in_def w_def Let_def if_False)
  then show ?thesis
    using sb small_count [OF inv l] nz
    by (simp add: kpipe_in.transfer_in_eq [OF inv law room sb] del: outcome_bind_eq_Done flip: uw)
qed

lemma kpipe_read_locked_eq:
  assumes inv: "ring_inv pipe" and law: "copy_to_user_law ua"
    and n: "n = min (pipe_used pipe) (unat count)"
  shows "kpipe_read_locked ua um pipe buf count ppos =
    (if pipe_used pipe = 0 \<and> 0 < sint (writers pipe) then Blocks
     else if pipe_used pipe = 0 \<and> writers pipe = 0 then Returns (Done (0, pipe, ppos, um, False))
     else let (left, pipe', um') = fetch_bytes ua um pipe buf n
       in Returns (Done (if left = 0 then (of_nat n, pipe', ppos + of_nat n, um', True)
            else (of_nat left, pipe', ppos, um', False))))"
proof -
  have z: "kpipe_data pipe = 0 \<longleftrightarrow> pipe_used pipe = 0"
    using unat_kpipe_data [OF inv] by (metis unat_eq_0)
  define w where "w = min (kpipe_data pipe) count"
  have uw: "unat w = n"
    by (simp add: w_def n unat_min_u64 unat_kpipe_data [OF inv])
  have used: "unat w \<le> pipe_used pipe"
    by (simp add: uw n)
  obtain l p um1 where sb: "fetch_bytes ua um pipe buf (unat w) = (l, p, um1)"
    by (cases "fetch_bytes ua um pipe buf (unat w)")
  have l: "l \<le> unat w" "unat w \<le> pipe_capacity pipe"
    using fetch_bytes_facts(3) [OF inv law used sb] used free_used_capacity [OF inv] by simp_all
  have "kpipe_read_locked ua um pipe buf count ppos =
    (if pipe_used pipe = 0 \<and> 0 < sint (writers pipe) then Blocks
     else if pipe_used pipe = 0 \<and> writers pipe = 0 then Returns (Done (0, pipe, ppos, um, False))
     else Returns (outcome_bind (transfer_out (kpipe_copy_to_user ua) um pipe w buf)
      (\<lambda>(ret, pipe, um). if ret \<noteq> 0 then Done (scast ret, pipe, ppos, um, False)
        else Done (w, pipe, ppos + w, um, True))))"
    by (simp only: kpipe_read_locked_def transfer_out_def w_def Let_def z)
  then show ?thesis
    using sb small_count [OF inv l]
    by (simp add: kpipe_out.transfer_out_eq [OF inv law used sb] del: outcome_bind_eq_Done flip: uw)
qed

section \<open>The locking pipe and the simple pipe\<close>

abbreviation bare :: "kpipe \<Rightarrow> my_pipe_t" where
  "bare \<equiv> my_pipe_t.truncate"

lemma bare_fields [simp]:
  "pdata (bare p) = pdata p" "psize (bare p) = psize p" "read_pos (bare p) = read_pos p"
  "write_pos (bare p) = write_pos p"
  by (simp_all add: my_pipe_t.truncate_def)

lemma bare_ring [simp]:
  "bare (ring_put p bs) = ring_put (bare p) bs" "bare (ring_scribble p bs) = ring_scribble (bare p) bs"
  "bare (ring_get p n) = ring_get (bare p) n" "front_chunk (bare p) n = front_chunk p n"
  "ring_inv (bare p) \<longleftrightarrow> ring_inv p" "pipe_contents (bare p) = pipe_contents p"
  "pipe_capacity (bare p) = pipe_capacity p"
  "front_chunk (ring_get (bare p) k) n = front_chunk (ring_get p k) n"
  by (simp_all add: my_pipe_t.truncate_def ring_put_def ring_scribble_def ring_get_def front_chunk_def
      ring_inv_def pipe_contents_def pipe_capacity_def)

lemma bare_first [simp]:
  "first_put (bare p) n = first_put p n" "first_get (bare p) n = first_get p n"
  by (simp_all add: first_put_def first_get_def)

lemma bare_transfer:
  "store_bytes ua um (bare p) b n = apsnd bare (store_bytes ua um p b n)"
  "fetch_bytes ua um (bare p) b n = apsnd (apfst bare) (fetch_bytes ua um p b n)"
  by (auto simp: store_bytes_def store_chunk_def fetch_bytes_def fetch_chunk_def Let_def
      split: prod.splits)

lemma kpipe_write_simple:
  assumes inv: "ring_inv p" and law: "copy_from_user_law ua"
  shows "case kpipe_write ua um p buf count ppos of
     Blocks \<Rightarrow> simple_pipe_write ua um (bare p) buf count ppos = Done (0, bare p, ppos)
   | Returns r \<Rightarrow> \<exists>ret p' ppos' wake. r = Done (ret, p', ppos', wake) \<and>
       simple_pipe_write ua um (bare p) buf count ppos = Done (ret, bare p', ppos')"
proof (cases "access_ok ua buf (unat count)")
  case False
  then show ?thesis
    by (auto simp: kpipe_write_def simple_pipe_write_def)
next
  case ok: True
  define n where "n = min (pipe_free p) (unat count)"
  obtain l p1 where sb: "store_bytes ua um p buf n = (l, p1)"
    by (cases "store_bytes ua um p buf n")
  have w: "simple_pipe_write ua um (bare p) buf count ppos =
      Done (write_result n ppos (apsnd bare (store_bytes ua um p buf n)))"
    using simple_pipe_write_eq [OF _ law ok, of "bare p" n um ppos] inv
    by (simp add: n_def bare_transfer)
  note k = kpipe_write_locked_eq [OF inv law n_def, of um buf ppos]
  show ?thesis
  proof (cases "pipe_free p = 0")
    case True
    then have "n = 0"
      by (simp add: n_def)
    with w True ok k store_bytes_0 [OF inv law] show ?thesis
      by (simp add: kpipe_write_def write_result_def)
  next
    case False
    with w sb ok k show ?thesis
      by (auto simp: kpipe_write_def write_result_def)
  qed
qed

lemma kpipe_read_simple:
  assumes inv: "ring_inv p" and law: "copy_to_user_law ua" and wr: "0 \<le> sint (writers p)"
  shows "case kpipe_read ua um p buf count ppos of
     Blocks \<Rightarrow> simple_pipe_read ua um (bare p) buf count ppos = Done (0, bare p, ppos, um)
   | Returns r \<Rightarrow> \<exists>ret p' ppos' um' wake. r = Done (ret, p', ppos', um', wake) \<and>
       simple_pipe_read ua um (bare p) buf count ppos = Done (ret, bare p', ppos', um')"
proof (cases "access_ok ua buf (unat count)")
  case False
  then show ?thesis
    by (auto simp: kpipe_read_def simple_pipe_read_def)
next
  case ok: True
  define n where "n = min (pipe_used p) (unat count)"
  obtain l p1 um1 where fb: "fetch_bytes ua um p buf n = (l, p1, um1)"
    by (cases "fetch_bytes ua um p buf n")
  have r: "simple_pipe_read ua um (bare p) buf count ppos =
      Done (read_result n ppos (apsnd (apfst bare) (fetch_bytes ua um p buf n)))"
    using simple_pipe_read_eq [OF _ law ok, of "bare p" n um ppos] inv
    by (simp add: n_def bare_transfer)
  note k = kpipe_read_locked_eq [OF inv law n_def, of um buf ppos]
  show ?thesis
  proof (cases "pipe_used p = 0")
    case True
    then have "n = 0"
      by (simp add: n_def)
    moreover have "0 < sint (writers p) \<or> writers p = 0"
      using wr by (metis order_le_less signed_eq_0_iff)
    ultimately show ?thesis
      using r True ok k fetch_bytes_0 [OF inv law] by (auto simp: kpipe_read_def read_result_def)
  next
    case False
    with r fb ok k show ?thesis
      by (auto simp: kpipe_read_def read_result_def)
  qed
qed

section \<open>Properties\<close>

text \<open>A pipe of four cells as the constructor leaves it, for the witnesses.\<close>

definition pipe4 :: kpipe where
  "pipe4 = \<lparr>pdata = [0, 0, 0, 0], psize = 4, read_pos = 0, write_pos = 0, readers = 0, writers = 0\<rparr>"

lemma pipe4_facts:
  "kpipe_ctor 4 (Some [0, 0, 0, 0]) = Some pipe4" "ring_inv pipe4" "pipe_contents pipe4 = []"
  "writers pipe4 = 0" "pipe_capacity pipe4 = 3" "sint (4 :: u32) = 4" "sint (1 :: u32) = 1"
proof -
  show "sint (4 :: u32) = 4" "sint (1 :: u32) = 1"
    by simp_all
  show "kpipe_ctor 4 (Some [0, 0, 0, 0]) = Some pipe4"
    by (simp add: kpipe_ctor_def pipe4_def)
  show "ring_inv pipe4" "pipe_contents pipe4 = []" "writers pipe4 = 0" "pipe_capacity pipe4 = 3"
    by (simp_all add: ring_inv_def pipe4_def pipe_contents_def pipe_capacity_def)
qed

text \<open>C31: The locking pipe is the simple pipe with blocking added. Whenever \<open>pipe_write\<close> or
  \<open>pipe_read\<close> of \<open>pipe/main.c\<close> returns, it returns the value, moves the file position and leaves
  the ring (and user memory) as the function of \<open>simple_pipe/main.c\<close> does from the same state,
  faults included; whenever it blocks, the function of \<open>simple_pipe/main.c\<close> returns 0 and changes
  nothing.\<close>

theorem kpipe_refines_simple_pipe:
  assumes inv: "ring_inv p" and laws: "uaccess_laws ua" and writers: "0 \<le> sint (writers p)"
  shows "(case kpipe_write ua um p buf count ppos of
       Blocks \<Rightarrow> simple_pipe_write ua um (bare p) buf count ppos = Done (0, bare p, ppos)
     | Returns r \<Rightarrow> \<exists>ret p' ppos' wake. r = Done (ret, p', ppos', wake) \<and>
         simple_pipe_write ua um (bare p) buf count ppos = Done (ret, bare p', ppos')) \<and>
    (case kpipe_read ua um p buf count ppos of
       Blocks \<Rightarrow> simple_pipe_read ua um (bare p) buf count ppos = Done (0, bare p, ppos, um)
     | Returns r \<Rightarrow> \<exists>ret p' ppos' um' wake. r = Done (ret, p', ppos', um', wake) \<and>
         simple_pipe_read ua um (bare p) buf count ppos = Done (ret, bare p', ppos', um'))"
  using kpipe_write_simple [OF inv] kpipe_read_simple [OF inv _ writers] laws
  by (simp add: uaccess_laws_def)

theorem kpipe_refines_simple_pipe_witness:
  "\<exists>ret p' ppos'. kpipe_write flat_uaccess counting_memory pipe4 10 2 0 = Returns (Done (ret, p', ppos', True)) \<and>
     simple_pipe_write flat_uaccess counting_memory (bare pipe4) 10 2 0 = Done (ret, bare p', ppos')"
proof -
  have "pipe_free pipe4 = 3"
    by (simp add: pipe4_def ring_room_def)
  moreover have "copy_from_user_law flat_uaccess"
    using flat_uaccess_facts(1) by (simp add: uaccess_laws_def)
  moreover have "user_readable flat_uaccess 10 (unat (2 :: u64))"
    by (rule flat_uaccess_facts)
  moreover obtain p1 where "store_bytes flat_uaccess counting_memory pipe4 10
      (min (pipe_free pipe4) (unat (2 :: u64))) = (0, p1)"
    using store_bytes_total [OF pipe4_facts(2) flat_uaccess_facts(1) _ refl, of 10 "2 :: u64" counting_memory]
    by (auto simp: flat_uaccess_facts pipe_free_capacity [OF pipe4_facts(2)])
  ultimately have "\<exists>ret p' ppos'. kpipe_write flat_uaccess counting_memory pipe4 10 2 0 =
      Returns (Done (ret, p', ppos', True))"
    using kpipe_write_locked_eq [OF pipe4_facts(2) _ refl, of flat_uaccess counting_memory 10 2 0]
    by (auto simp: kpipe_write_def flat_uaccess_facts)
  with kpipe_refines_simple_pipe [OF pipe4_facts(2) flat_uaccess_facts(1), of counting_memory 10 2 0]
  show ?thesis
    by (auto simp: pipe4_facts)
qed

text \<open>What \<open>pipe_read\<close> does on memory that does not fault: it blocks exactly when the pipe is empty
  and some file is open for writing; it reports end of file, without waking anyone, when the pipe is
  empty and no file is open for writing; otherwise it delivers the oldest bytes in order, as many as
  there are up to \<open>count\<close>, removes them, leaves the counts alone and wakes the writers.\<close>

theorem kpipe_read_decides:
  assumes inv: "ring_inv p" and laws: "uaccess_laws ua" and ok: "access_ok ua buf (unat count)"
    and wr: "user_writable ua buf (unat count)" and nonneg: "0 \<le> sint (writers p)"
  shows "(kpipe_read ua um p buf count ppos = Blocks \<longleftrightarrow> pipe_contents p = [] \<and> writers p \<noteq> 0) \<and>
    (pipe_contents p = [] \<and> writers p = 0 \<longrightarrow>
      kpipe_read ua um p buf count ppos = Returns (Done (0, p, ppos, um, False))) \<and>
    (pipe_contents p \<noteq> [] \<longrightarrow> (\<exists>n p'. n = min (length (pipe_contents p)) (unat count) \<and>
      kpipe_read ua um p buf count ppos = Returns (Done (of_nat n, p', ppos + of_nat n,
        user_store um buf (take n (pipe_contents p)), True)) \<and>
      ring_inv p' \<and> pipe_contents p' = drop n (pipe_contents p)))"
proof -
  have law: "copy_to_user_law ua"
    using laws by (simp add: uaccess_laws_def)
  define n where "n = min (length (pipe_contents p)) (unat count)"
  have used: "pipe_used p = length (pipe_contents p)"
    using length_pipe_contents [OF inv] by simp
  then have n: "n = min (pipe_used p) (unat count)"
    by (simp add: n_def)
  obtain q where q: "fetch_bytes ua um p buf n = (0, q, user_store um buf (take n (pipe_contents p)))"
    "ring_inv q" "pipe_contents q = drop n (pipe_contents p)"
    using fetch_bytes_total [OF inv laws wr n_def, of um] by auto
  have pos: "0 < sint (writers p) \<longleftrightarrow> writers p \<noteq> 0"
    using nonneg by (metis order_le_less signed_eq_0_iff less_irrefl)
  have k: "kpipe_read ua um p buf count ppos =
      (if pipe_contents p = [] then if writers p \<noteq> 0 then Blocks else Returns (Done (0, p, ppos, um, False))
       else Returns (Done (of_nat n, q, ppos + of_nat n, user_store um buf (take n (pipe_contents p)), True)))"
    using kpipe_read_locked_eq [OF inv law n, of um buf ppos] q(1) ok
    by (simp add: kpipe_read_def used pos)
  show ?thesis
    using k q(2,3) by (auto simp: n_def)
qed

theorem kpipe_read_decides_witness:
  "kpipe_read flat_uaccess counting_memory pipe4 10 5 0 = Returns (Done (0, pipe4, 0, counting_memory, False)) \<and>
   kpipe_read flat_uaccess counting_memory (pipe4\<lparr>writers := 1\<rparr>) 10 5 0 = Blocks"
proof -
  have w: "ring_inv (pipe4\<lparr>writers := 1\<rparr>)" "pipe_contents (pipe4\<lparr>writers := 1\<rparr>) = []"
    by (simp_all add: pipe4_def ring_inv_def pipe_contents_def)
  show ?thesis
    using kpipe_read_decides [OF pipe4_facts(2) flat_uaccess_facts(1,2,4), of counting_memory 10 5 0]
      kpipe_read_decides [OF w(1) flat_uaccess_facts(1,2,4), of counting_memory 10 5 0]
    by (simp add: pipe4_facts w(2))
qed

text \<open>A \<open>pipe_write\<close> that wraps around the end of the ring and faults in its second chunk leaves
  the bytes of the first chunk in the pipe, does not wake the readers, and returns the positive
  number of bytes it could not copy: a reader that sleeps on the empty pipe stays asleep although
  there is data.\<close>

theorem kpipe_partial_write_no_wakeup:
  assumes inv: "ring_inv p" and laws: "uaccess_laws ua" and ok: "access_ok ua buf (unat count)"
    and n: "n = min (pipe_free p) (unat count)" and n1: "n1 = first_put p n" "n1 < n"
    and first: "snd (copy_from_user ua um buf n1) = 0"
    and second: "left = snd (copy_from_user ua um (buf + of_nat n1) (n - n1))" "0 < left"
  shows "\<exists>p'. kpipe_write ua um p buf count ppos = Returns (Done (of_nat left, p', ppos, False)) \<and>
    pipe_contents p' = pipe_contents p @ user_bytes um buf n1 \<and> 0 < n1"
proof -
  have law: "copy_from_user_law ua"
    using laws by (simp add: uaccess_laws_def)
  have room: "n \<le> pipe_free p" and room1: "n1 \<le> pipe_free p"
    using n n1 by simp_all
  note fits = first_put_fits [OF inv room, folded n1(1)]
  have s1: "store_chunk ua um p buf n1 = (0, ring_put p (user_bytes um buf n1))"
    using copy_from_user_ok [OF law first] by (simp add: store_chunk_def)
  note f1 = store_chunk_facts [OF inv law fits(1) room1 s1]
  obtain bs where c2: "copy_from_user ua um (buf + of_nat n1) (n - n1) = (bs, left)"
    using second(1) by (metis prod.collapse)
  let ?p = "ring_put p (user_bytes um buf n1)"
  have sb: "store_bytes ua um p buf n = (left, ring_scribble ?p bs)"
    using s1 c2 second(2) n1 by (simp add: store_bytes_def store_chunk_def Let_def)
  have len: "length bs = n - n1"
    using length_copy_from_user [OF law, of um "buf + of_nat n1" "n - n1"] c2 by simp
  have "pipe_used ?p = pipe_used p + n1"
    using length_pipe_contents [OF f1(1)] length_pipe_contents [OF inv] f1(4) by simp
  then have "n - n1 \<le> pipe_free ?p"
    using used_plus_free [OF f1(1)] used_plus_free [OF inv] room by (simp add: pipe_capacity_def)
  moreover have "write_pos ?p = 0"
    using fits(3) [of "user_bytes um buf n1"] n1(2) by simp
  ultimately have "pipe_contents (ring_scribble ?p bs) = pipe_contents ?p"
    using ring_scribble_contents [OF f1(1), of bs] len free_used_capacity(1) [OF f1(1)]
    by (simp add: pipe_capacity_def)
  moreover have "0 < n1"
    using n1 ring_invD(4) [OF inv] by (auto simp: first_put_def split: if_splits)
  moreover have "pipe_free p \<noteq> 0"
    using room n1(2) by simp
  ultimately show ?thesis
    using kpipe_write_locked_eq [OF inv law n, of um buf ppos] sb second(2) f1(4) ok
    by (simp add: kpipe_write_def)
qed

theorem kpipe_partial_write_no_wakeup_witness:
  "\<exists>p'. kpipe_write (mapped_uaccess 12) counting_memory (pipe4\<lparr>read_pos := 3, write_pos := 3\<rparr>) 11 2 0 =
     Returns (Done (1, p', 0, False)) \<and> pipe_contents p' = [11]"
proof -
  let ?p = "pipe4\<lparr>read_pos := 3, write_pos := 3\<rparr>"
  let ?n = "min (pipe_free ?p) (unat (2 :: u64))"
  have inv: "ring_inv ?p" and c: "pipe_contents ?p = []"
    by (simp_all add: pipe4_def ring_inv_def pipe_contents_def)
  have n: "?n = 2"
    by (simp add: pipe4_def ring_room_def)
  have f: "first_put ?p ?n = 1"
    unfolding n by (simp add: pipe4_def first_put_def)
  have one: "user_bytes counting_memory 11 1 = [11]"
    by (simp add: user_bytes_def counting_memory_def)
  have u1: "snd (copy_from_user (mapped_uaccess 12) counting_memory 11 1) = 0"
    and u2: "snd (copy_from_user (mapped_uaccess 12) counting_memory (11 + of_nat 1) (2 - 1)) = 1"
    by (simp_all add: mapped_uaccess_def mapped_part_def Let_def)
  have "\<exists>p'. kpipe_write (mapped_uaccess 12) counting_memory ?p 11 2 0 = Returns (Done (of_nat 1, p', 0, False)) \<and>
      pipe_contents p' = pipe_contents ?p @ user_bytes counting_memory 11 1 \<and> (0 :: nat) < 1"
    by (rule kpipe_partial_write_no_wakeup [OF inv mapped_uaccess_laws _ refl f [symmetric], unfolded n])
      (simp_all add: u1 u2 mapped_uaccess_def, (simp add: mapped_part_def Let_def)+)
  then show ?thesis
    by (simp add: c one [unfolded One_nat_def])
qed

end
