(* ===== verification/PipeSys.thy ===== *)
theory PipeSys
  imports KPipe
begin

text \<open>
  Threads that open, read, write and release one device of
  \<open>src/src/kernel_standalone/pipe/main.c\<close>, interleaved at the points where the code takes or
  releases the mutex, sleeps or wakes. A thread is at one of the program points below; the parts of
  an operation between \<open>pipe_lock\<close> and \<open>pipe_unlock\<close> are the functions of \<open>KPipe\<close>.
  \<open>wait_event_interruptible\<close> is modelled by what the kernel documents: the caller is on the queue
  before the condition is evaluated, the condition is evaluated again after every wake-up, and a
  pending signal ends the wait with \<open>-ERESTARTSYS\<close> when the condition is false.
\<close>

section \<open>Program points and states\<close>

text \<open>
  Readers: \<open>RdLock\<close> waits for the mutex, \<open>RdHold\<close> holds it at the loop test of \<open>pipe_read\<close>,
  \<open>RdCond\<close> is inside \<open>wait_event_interruptible\<close> before the condition (the flag says that a signal
  is pending), \<open>RdCheck\<close> evaluates the condition with the mutex held, \<open>RdSleep\<close> sleeps,
  \<open>RdIntr\<close> was interrupted and is at the \<open>pipe_unlock\<close> that follows, \<open>RdWake\<close> has released the
  mutex and is about to wake the writers. The arguments are the buffer and the size. The points
  of writers are alike; \<open>Op\<close> and \<open>Rl\<close> belong to \<open>pipe_open\<close> and \<open>pipe_release\<close>.
\<close>

datatype ppc =
    Idle
  | RdLock u64 u64 | RdHold u64 u64 | RdCond bool u64 u64 | RdCheck bool u64 u64 | RdSleep u64 u64
  | RdIntr | RdWake
  | WrLock u64 u64 | WrHold u64 u64 | WrCond bool u64 u64 | WrCheck bool u64 u64 | WrSleep u64 u64
  | WrIntr | WrWake
  | OpLock f_mode | OpHold f_mode | RlLock f_mode | RlHold f_mode

record psys =
  kp :: kpipe
  mutex :: "nat option"
  pcs :: "nat \<Rightarrow> ppc"
  opened :: "nat \<Rightarrow> f_mode option"
  bad_unlock :: bool

fun holds :: "ppc \<Rightarrow> bool" where
  "holds (RdHold _ _) = True"
| "holds (RdCheck _ _ _) = True"
| "holds (WrHold _ _) = True"
| "holds (WrCheck _ _ _) = True"
| "holds (OpHold _) = True"
| "holds (RlHold _) = True"
| "holds _ = False"

text \<open>\<open>wake_up_all\<close> on the two queues: every sleeper evaluates its condition again.\<close>

fun woken_reader :: "ppc \<Rightarrow> ppc" where
  "woken_reader (RdSleep b c) = RdCond False b c"
| "woken_reader p = p"

fun woken_writer :: "ppc \<Rightarrow> ppc" where
  "woken_writer (WrSleep b c) = WrCond False b c"
| "woken_writer p = p"

definition wake_readers :: "(nat \<Rightarrow> ppc) \<Rightarrow> nat \<Rightarrow> ppc" where
  "wake_readers p = (\<lambda>t. woken_reader (p t))"

definition wake_writers :: "(nat \<Rightarrow> ppc) \<Rightarrow> nat \<Rightarrow> ppc" where
  "wake_writers p = (\<lambda>t. woken_writer (p t))"

definition writer_files :: "psys \<Rightarrow> nat set" where
  "writer_files s = {t. \<exists>m. opened s t = Some m \<and> fmode_write m}"

definition max_files :: nat where
  "max_files = 2 ^ 31 - 1"

text \<open>
  One step of one thread. The first argument says whether signals occur. A label says which bytes
  entered or left the pipe. Every thread has at most one open file, and the kernel bounds the
  number of open files (\<open>max_files\<close>); a call on a file needs the file to be open in the mode of
  the call.
  The copies do not fault (\<open>user_readable\<close>, \<open>user_writable\<close>).
\<close>

inductive pipe_sys_step :: "bool \<Rightarrow> psys \<Rightarrow> byte fifo_event \<Rightarrow> psys \<Rightarrow> bool" for sigs where
  call_read: "pcs s t = Idle \<Longrightarrow> opened s t = Some m \<Longrightarrow> fmode_read m \<Longrightarrow>
    pipe_sys_step sigs s Quiet (s\<lparr>pcs := (pcs s)(t := RdLock b c)\<rparr>)"
| lock_read: "pcs s t = RdLock b c \<Longrightarrow> mutex s = None \<Longrightarrow>
    pipe_sys_step sigs s Quiet (s\<lparr>pcs := (pcs s)(t := RdHold b c), mutex := Some t\<rparr>)"
| read_blocks: "pcs s t = RdHold b c \<Longrightarrow> kpipe_read_locked ua um (kp s) b c ppos = Blocks \<Longrightarrow>
    pipe_sys_step sigs s Quiet (s\<lparr>pcs := (pcs s)(t := RdCond False b c), mutex := None\<rparr>)"
| read_returns: "pcs s t = RdHold b c \<Longrightarrow>
    kpipe_read_locked ua um (kp s) b c ppos = Returns (Done (ret, p, ppos', um', wake)) \<Longrightarrow>
    uaccess_laws ua \<Longrightarrow> access_ok ua b (unat c) \<Longrightarrow> user_writable ua b (unat c) \<Longrightarrow>
    pipe_sys_step sigs s (ReadOut (user_bytes um' b (unat ret)))
      (s\<lparr>kp := p, pcs := (pcs s)(t := if wake then RdWake else Idle), mutex := None\<rparr>)"
| read_wakes: "pcs s t = RdWake \<Longrightarrow>
    pipe_sys_step sigs s Quiet (s\<lparr>pcs := (wake_writers (pcs s))(t := Idle)\<rparr>)"
| read_checks: "pcs s t = RdCond sig b c \<Longrightarrow> mutex s = None \<Longrightarrow>
    pipe_sys_step sigs s Quiet (s\<lparr>pcs := (pcs s)(t := RdCheck sig b c), mutex := Some t\<rparr>)"
| read_ready: "pcs s t = RdCheck sig b c \<Longrightarrow> kpipe_reader_should_i_wake_up (kp s) \<Longrightarrow>
    pipe_sys_step sigs s Quiet (s\<lparr>pcs := (pcs s)(t := RdHold b c)\<rparr>)"
| read_waits: "pcs s t = RdCheck sig b c \<Longrightarrow> \<not> kpipe_reader_should_i_wake_up (kp s) \<Longrightarrow>
    pipe_sys_step sigs s Quiet
      (s\<lparr>pcs := (pcs s)(t := if sig then RdIntr else RdSleep b c), mutex := None\<rparr>)"
| read_signal: "sigs \<Longrightarrow> pcs s t = RdSleep b c \<or> pcs s t = RdCond False b c \<Longrightarrow>
    pipe_sys_step sigs s Quiet (s\<lparr>pcs := (pcs s)(t := RdCond True b c)\<rparr>)"
| read_interrupted: "pcs s t = RdIntr \<Longrightarrow>
    pipe_sys_step sigs s Quiet
      (s\<lparr>pcs := (pcs s)(t := Idle), mutex := None, bad_unlock := bad_unlock s \<or> mutex s \<noteq> Some t\<rparr>)"
| call_write: "pcs s t = Idle \<Longrightarrow> opened s t = Some m \<Longrightarrow> fmode_write m \<Longrightarrow>
    pipe_sys_step sigs s Quiet (s\<lparr>pcs := (pcs s)(t := WrLock b c)\<rparr>)"
| lock_write: "pcs s t = WrLock b c \<Longrightarrow> mutex s = None \<Longrightarrow>
    pipe_sys_step sigs s Quiet (s\<lparr>pcs := (pcs s)(t := WrHold b c), mutex := Some t\<rparr>)"
| write_blocks: "pcs s t = WrHold b c \<Longrightarrow> kpipe_write_locked ua um (kp s) b c ppos = Blocks \<Longrightarrow>
    pipe_sys_step sigs s Quiet (s\<lparr>pcs := (pcs s)(t := WrCond False b c), mutex := None\<rparr>)"
| write_returns: "pcs s t = WrHold b c \<Longrightarrow>
    kpipe_write_locked ua um (kp s) b c ppos = Returns (Done (ret, p, ppos', wake)) \<Longrightarrow>
    uaccess_laws ua \<Longrightarrow> access_ok ua b (unat c) \<Longrightarrow> user_readable ua b (unat c) \<Longrightarrow>
    pipe_sys_step sigs s (Wrote (user_bytes um b (unat ret)))
      (s\<lparr>kp := p, pcs := (pcs s)(t := if wake then WrWake else Idle), mutex := None\<rparr>)"
| write_wakes: "pcs s t = WrWake \<Longrightarrow>
    pipe_sys_step sigs s Quiet (s\<lparr>pcs := (wake_readers (pcs s))(t := Idle)\<rparr>)"
| write_checks: "pcs s t = WrCond sig b c \<Longrightarrow> mutex s = None \<Longrightarrow>
    pipe_sys_step sigs s Quiet (s\<lparr>pcs := (pcs s)(t := WrCheck sig b c), mutex := Some t\<rparr>)"
| write_ready: "pcs s t = WrCheck sig b c \<Longrightarrow> kpipe_writer_should_i_wake_up (kp s) \<Longrightarrow>
    pipe_sys_step sigs s Quiet (s\<lparr>pcs := (pcs s)(t := WrHold b c)\<rparr>)"
| write_waits: "pcs s t = WrCheck sig b c \<Longrightarrow> \<not> kpipe_writer_should_i_wake_up (kp s) \<Longrightarrow>
    pipe_sys_step sigs s Quiet
      (s\<lparr>pcs := (pcs s)(t := if sig then WrIntr else WrSleep b c), mutex := None\<rparr>)"
| write_signal: "sigs \<Longrightarrow> pcs s t = WrSleep b c \<or> pcs s t = WrCond False b c \<Longrightarrow>
    pipe_sys_step sigs s Quiet (s\<lparr>pcs := (pcs s)(t := WrCond True b c)\<rparr>)"
| write_interrupted: "pcs s t = WrIntr \<Longrightarrow>
    pipe_sys_step sigs s Quiet
      (s\<lparr>pcs := (pcs s)(t := Idle), mutex := None, bad_unlock := bad_unlock s \<or> mutex s \<noteq> Some t\<rparr>)"
| call_open: "pcs s t = Idle \<Longrightarrow> opened s t = None \<Longrightarrow> t < max_files \<Longrightarrow>
    pipe_sys_step sigs s Quiet (s\<lparr>pcs := (pcs s)(t := OpLock m)\<rparr>)"
| lock_open: "pcs s t = OpLock m \<Longrightarrow> mutex s = None \<Longrightarrow>
    pipe_sys_step sigs s Quiet (s\<lparr>pcs := (pcs s)(t := OpHold m), mutex := Some t\<rparr>)"
| sys_open: "pcs s t = OpHold m \<Longrightarrow>
    pipe_sys_step sigs s Quiet
      (s\<lparr>kp := kpipe_open m (kp s), opened := (opened s)(t := Some m),
         pcs := (pcs s)(t := Idle), mutex := None\<rparr>)"
| call_release: "pcs s t = Idle \<Longrightarrow> opened s t = Some m \<Longrightarrow>
    pipe_sys_step sigs s Quiet (s\<lparr>pcs := (pcs s)(t := RlLock m)\<rparr>)"
| lock_release: "pcs s t = RlLock m \<Longrightarrow> mutex s = None \<Longrightarrow>
    pipe_sys_step sigs s Quiet (s\<lparr>pcs := (pcs s)(t := RlHold m), mutex := Some t\<rparr>)"
| sys_release: "pcs s t = RlHold m \<Longrightarrow> kpipe_release m (kp s) = (p, wake) \<Longrightarrow>
    pipe_sys_step sigs s Quiet
      (s\<lparr>kp := p, opened := (opened s)(t := None),
         pcs := (if wake then wake_readers (pcs s) else pcs s)(t := Idle), mutex := None\<rparr>)"


section \<open>The invariant\<close>

text \<open>
  The ring is valid; the mutex is held by exactly the threads at a holding point; the counter of
  writers is the number of files open for writing; a reader sleeps only while the pipe is empty and
  some file is open for writing, or a writer is about to wake it; a writer sleeps only while the
  pipe is full, or a reader is about to wake it.
\<close>

definition files_ok :: "psys \<Rightarrow> bool" where
  "files_ok s \<longleftrightarrow> dom (opened s) \<subseteq> {..<max_files} \<and>
     writers (kp s) = of_nat (card (writer_files s)) \<and>
     (\<forall>t m. pcs s t = OpLock m \<or> pcs s t = OpHold m \<longrightarrow> opened s t = None \<and> t < max_files) \<and>
     (\<forall>t m. pcs s t = RlLock m \<or> pcs s t = RlHold m \<longrightarrow> opened s t = Some m)"

definition mutex_ok :: "psys \<Rightarrow> bool" where
  "mutex_ok s \<longleftrightarrow> (\<forall>t. holds (pcs s t) \<longleftrightarrow> mutex s = Some t)"

definition readers_sleep_ok :: "psys \<Rightarrow> bool" where
  "readers_sleep_ok s \<longleftrightarrow> (\<forall>t b c. pcs s t = RdSleep b c \<longrightarrow>
     pipe_contents (kp s) = [] \<and> writers (kp s) \<noteq> 0 \<or> (\<exists>u. pcs s u = WrWake))"

definition writers_sleep_ok :: "psys \<Rightarrow> bool" where
  "writers_sleep_ok s \<longleftrightarrow> (\<forall>t b c. pcs s t = WrSleep b c \<longrightarrow>
     length (pipe_contents (kp s)) = pipe_capacity (kp s) \<or> (\<exists>u. pcs s u = RdWake))"

definition no_intr :: "psys \<Rightarrow> bool" where
  "no_intr s \<longleftrightarrow> \<not> bad_unlock s \<and> (\<forall>t b c. pcs s t \<noteq> RdIntr \<and> pcs s t \<noteq> WrIntr \<and>
     pcs s t \<noteq> RdCond True b c \<and> pcs s t \<noteq> RdCheck True b c \<and>
     pcs s t \<noteq> WrCond True b c \<and> pcs s t \<noteq> WrCheck True b c)"

definition psys_inv :: "psys \<Rightarrow> bool" where
  "psys_inv s \<longleftrightarrow> ring_inv (kp s) \<and> mutex_ok s \<and> files_ok s \<and>
     readers_sleep_ok s \<and> writers_sleep_ok s \<and> no_intr s"

section \<open>What the locked operations do to the ring\<close>

lemma kpipe_open_ring [simp]:
  "ring_inv (kpipe_open m p) \<longleftrightarrow> ring_inv p" "pipe_contents (kpipe_open m p) = pipe_contents p"
  "pipe_capacity (kpipe_open m p) = pipe_capacity p"
  "writers (kpipe_open m p) = writers p + (if fmode_write m then 1 else 0)"
  by (auto simp: kpipe_open_def ring_inv_def pipe_contents_def pipe_capacity_def Let_def)

lemma kpipe_release_ring:
  assumes "kpipe_release m p = (p', wake)"
  shows "ring_inv p' \<longleftrightarrow> ring_inv p" "pipe_contents p' = pipe_contents p"
    "pipe_capacity p' = pipe_capacity p"
    "writers p' = writers p - (if fmode_write m then 1 else 0)"
    "wake \<longleftrightarrow> fmode_write m \<and> writers p' = 0"
  using assms
  by (cases "fmode_read m"; cases "fmode_write m";
      auto simp: kpipe_release_def ring_inv_def pipe_contents_def pipe_capacity_def Let_def)+

lemma writers_ring [simp]:
  "writers (ring_put p bs) = writers p" "writers (ring_scribble p bs) = writers p"
  "writers (ring_get p n) = writers p"
  by (simp_all add: ring_put_def ring_scribble_def ring_get_def)

lemma writers_transfer:
  "store_bytes ua um p b n = (left, p') \<Longrightarrow> writers p' = writers p"
  "fetch_bytes ua um p b n = (left, p', um') \<Longrightarrow> writers p' = writers p"
  by (auto simp: store_bytes_def store_chunk_def fetch_bytes_def fetch_chunk_def Let_def
      split: prod.splits if_splits)

lemma locked_write:
  assumes "ring_inv p" and "uaccess_laws ua" and "user_readable ua b (unat c)"
    and w: "kpipe_write_locked ua um p b c ppos = Returns (Done (ret, p', ppos', wake))"
  shows "ring_inv p'" "pipe_capacity p' = pipe_capacity p" "writers p' = writers p" "wake"
    "pipe_contents p' = pipe_contents p @ user_bytes um b (unat ret)"
proof -
  have law: "copy_from_user_law ua"
    using assms(2) by (simp add: uaccess_laws_def)
  define n where "n = min (pipe_capacity p - length (pipe_contents p)) (unat c)"
  have n: "n = min (pipe_free p) (unat c)"
    using pipe_free_capacity [OF assms(1)] by (simp add: n_def)
  obtain q where q: "store_bytes ua um p b n = (0, q)" "ring_inv q" "pipe_capacity q = pipe_capacity p"
    "pipe_contents q = pipe_contents p @ user_bytes um b n"
    using store_bytes_total [OF assms(1-3) n_def, of um] by auto
  have r: "ret = of_nat n" "p' = q" "wake"
    using w q(1) kpipe_write_locked_eq [OF assms(1) law n, of um b ppos] by (auto split: if_splits)
  have "unat ret = n"
    using r capacity_small [OF assms(1)] by (simp add: n_def)
  with r q writers_transfer(1) [OF q(1)]
  show "ring_inv p'" "pipe_capacity p' = pipe_capacity p" "writers p' = writers p" "wake"
    "pipe_contents p' = pipe_contents p @ user_bytes um b (unat ret)" by simp_all
qed

lemma locked_read:
  assumes "ring_inv p" and "uaccess_laws ua" and "user_writable ua b (unat c)"
    and w: "kpipe_read_locked ua um p b c ppos = Returns (Done (ret, p', ppos', um', wake))"
  shows "ring_inv p'" "pipe_capacity p' = pipe_capacity p" "writers p' = writers p" "wake \<or> p' = p"
    "pipe_contents p = user_bytes um' b (unat ret) @ pipe_contents p'"
proof -
  have law: "copy_to_user_law ua"
    using assms(2) by (simp add: uaccess_laws_def)
  define n where "n = min (length (pipe_contents p)) (unat c)"
  have n: "n = min (pipe_used p) (unat c)"
    using length_pipe_contents [OF assms(1)] by (simp add: n_def)
  have small: "n < 2 ^ 64"
    using capacity_small [OF assms(1)] contents_bounded [OF assms(1)] by (simp add: n_def)
  let ?um = "user_store um b (take n (pipe_contents p))"
  obtain q where q: "fetch_bytes ua um p b n = (0, q, ?um)" "ring_inv q"
    "pipe_capacity q = pipe_capacity p" "pipe_contents q = drop n (pipe_contents p)"
    using fetch_bytes_total [OF assms(1-3) n_def, of um] by auto
  have len: "length (take n (pipe_contents p)) = n"
    by (simp add: n_def)
  have "user_bytes ?um b n = take n (pipe_contents p)"
    using user_bytes_user_store [of "take n (pipe_contents p)" um b] small len by simp
  then have split: "pipe_contents p = user_bytes ?um b n @ pipe_contents q"
    using q(4) by simp
  have "p' = p \<and> ret = 0 \<or> p' = q \<and> ret = of_nat n \<and> um' = ?um \<and> wake"
    using w q(1) kpipe_read_locked_eq [OF assms(1) law n, of um b ppos] by (auto split: if_splits)
  then show "ring_inv p'" "pipe_capacity p' = pipe_capacity p" "writers p' = writers p"
    "wake \<or> p' = p" "pipe_contents p = user_bytes um' b (unat ret) @ pipe_contents p'"
    using assms(1) q writers_transfer(2) [OF q(1)] small split by (auto simp: user_bytes_def)
qed

lemma not_ready:
  assumes "ring_inv p"
  shows "\<not> kpipe_reader_should_i_wake_up p \<longleftrightarrow> pipe_contents p = [] \<and> writers p \<noteq> 0"
    "\<not> kpipe_writer_should_i_wake_up p \<longleftrightarrow> length (pipe_contents p) = pipe_capacity p"
proof -
  have "kpipe_data p = 0 \<longleftrightarrow> unat (kpipe_data p) = 0" "kpipe_room p = 0 \<longleftrightarrow> unat (kpipe_room p) = 0"
    by (simp_all add: unat_eq_0)
  then have "0 < kpipe_data p \<longleftrightarrow> length (pipe_contents p) \<noteq> 0" "0 < kpipe_room p \<longleftrightarrow> pipe_free p \<noteq> 0"
    by (auto simp only: word_gt_0 unat_kpipe_data [OF assms] unat_kpipe_room [OF assms]
        length_pipe_contents [OF assms])
  then show "\<not> kpipe_reader_should_i_wake_up p \<longleftrightarrow> pipe_contents p = [] \<and> writers p \<noteq> 0"
    "\<not> kpipe_writer_should_i_wake_up p \<longleftrightarrow> length (pipe_contents p) = pipe_capacity p"
    using length_pipe_contents [OF assms] used_plus_free [OF assms]
    by (auto simp: kpipe_reader_should_i_wake_up_def kpipe_writer_should_i_wake_up_def)
qed

section \<open>Preservation\<close>

text \<open>
  The conjuncts one at a time. Most steps change the program point of one thread only; for the rest
  of the invariant it is enough to know what the step does to the pipe and to the sleepers.
\<close>

lemma woken_simps [simp]:
  "woken_reader p = RdSleep b c \<longleftrightarrow> False" "woken_writer p = WrSleep b c \<longleftrightarrow> False"
  "woken_reader p = WrSleep b c \<longleftrightarrow> p = WrSleep b c" "woken_writer p = RdSleep b c \<longleftrightarrow> p = RdSleep b c"
  "woken_reader p = RdWake \<longleftrightarrow> p = RdWake" "woken_writer p = WrWake \<longleftrightarrow> p = WrWake"
  "woken_reader p = WrWake \<longleftrightarrow> p = WrWake" "woken_writer p = RdWake \<longleftrightarrow> p = RdWake"
  "woken_reader p = RdIntr \<longleftrightarrow> p = RdIntr" "woken_writer p = RdIntr \<longleftrightarrow> p = RdIntr"
  "woken_reader p = WrIntr \<longleftrightarrow> p = WrIntr" "woken_writer p = WrIntr \<longleftrightarrow> p = WrIntr"
  "woken_reader p = OpLock m \<longleftrightarrow> p = OpLock m" "woken_writer p = OpLock m \<longleftrightarrow> p = OpLock m"
  "woken_reader p = OpHold m \<longleftrightarrow> p = OpHold m" "woken_writer p = OpHold m \<longleftrightarrow> p = OpHold m"
  "woken_reader p = RlLock m \<longleftrightarrow> p = RlLock m" "woken_writer p = RlLock m \<longleftrightarrow> p = RlLock m"
  "woken_reader p = RlHold m \<longleftrightarrow> p = RlHold m" "woken_writer p = RlHold m \<longleftrightarrow> p = RlHold m"
  "woken_reader p = RdCond True b c \<longleftrightarrow> p = RdCond True b c"
  "woken_writer p = RdCond True b c \<longleftrightarrow> p = RdCond True b c"
  "woken_reader p = WrCond True b c \<longleftrightarrow> p = WrCond True b c"
  "woken_writer p = WrCond True b c \<longleftrightarrow> p = WrCond True b c"
  "woken_reader p = RdCheck x b c \<longleftrightarrow> p = RdCheck x b c"
  "woken_writer p = RdCheck x b c \<longleftrightarrow> p = RdCheck x b c"
  "woken_reader p = WrCheck x b c \<longleftrightarrow> p = WrCheck x b c"
  "woken_writer p = WrCheck x b c \<longleftrightarrow> p = WrCheck x b c"
  "holds (woken_reader p) \<longleftrightarrow> holds p" "holds (woken_writer p) \<longleftrightarrow> holds p"
  by (cases p; simp)+

lemmas wake_defs = wake_readers_def wake_writers_def

lemma step_ring_inv:
  assumes "pipe_sys_step sigs s e s'" and "ring_inv (kp s)"
  shows "ring_inv (kp s') \<and> pipe_capacity (kp s') = pipe_capacity (kp s)"
  using assms(1)
proof cases
  case (read_returns t b c ua um ppos ret p ppos' um' wake)
  with locked_read [OF assms(2)] show ?thesis by simp
next
  case (write_returns t b c ua um ppos ret p ppos' wake)
  with locked_write [OF assms(2)] show ?thesis by simp
next
  case (sys_release t m p wake)
  with kpipe_release_ring assms(2) show ?thesis by simp
qed (use assms(2) in simp_all)

lemma step_mutex_ok:
  assumes "pipe_sys_step sigs s e s'" and "mutex_ok s" and "no_intr s"
  shows "mutex_ok s'"
  using assms(1)
proof cases
  case (read_interrupted t)
  with assms show ?thesis by (simp add: no_intr_def)
next
  case (write_interrupted t)
  with assms show ?thesis by (simp add: no_intr_def)
qed (use assms(2) in \<open>force simp: mutex_ok_def wake_defs\<close>)+

lemma step_no_intr:
  assumes "pipe_sys_step False s e s'" and "no_intr s"
  shows "no_intr s'"
  using assms(1)
proof cases
qed (use assms(2) in \<open>simp add: no_intr_def wake_defs; (metis (full_types))?\<close>)+

lemma card_files_small:
  assumes "files_ok s"
  shows "finite (writer_files s)" "card (writer_files s) \<le> max_files"
proof -
  have sub: "writer_files s \<subseteq> {..<max_files}"
    using assms by (auto simp: files_ok_def writer_files_def)
  then show "finite (writer_files s)"
    by (rule finite_subset) simp
  show "card (writer_files s) \<le> max_files"
    using card_mono [OF _ sub] by simp
qed

lemma writers_zero:
  assumes "files_ok s"
  shows "writers (kp s) = 0 \<longleftrightarrow> writer_files s = {}"
proof -
  have "card (writer_files s) < 2 ^ 32"
    using card_files_small [OF assms] by (simp add: max_files_def)
  then have "writers (kp s) = 0 \<longleftrightarrow> card (writer_files s) = 0"
    using assms of_nat_u32_eq_0 by (simp add: files_ok_def)
  with card_files_small(1) [OF assms] show ?thesis by simp
qed

lemma step_files_ok:
  assumes "pipe_sys_step sigs s e s'" and "files_ok s" and "ring_inv (kp s)"
  shows "files_ok s'"
  using assms(1)
proof cases
  case (read_returns t b c ua um ppos ret p ppos' um' wake)
  with locked_read [OF assms(3)] assms(2) show ?thesis
    by (simp add: files_ok_def writer_files_def)
next
  case (write_returns t b c ua um ppos ret p ppos' wake)
  with locked_write [OF assms(3)] assms(2) show ?thesis
    by (simp add: files_ok_def writer_files_def)
next
  case (sys_open t m)
  have t: "opened s t = None" "t < max_files"
    using assms(2) sys_open by (auto simp: files_ok_def)
  have "writer_files s' = (if fmode_write m then insert t (writer_files s) else writer_files s)"
    using t sys_open by (auto simp: writer_files_def)
  moreover have "t \<notin> writer_files s"
    using t by (simp add: writer_files_def)
  ultimately have "card (writer_files s') = card (writer_files s) + (if fmode_write m then 1 else 0)"
    using card_files_small(1) [OF assms(2)] by simp
  with t sys_open assms(2) show ?thesis
    by (auto simp: files_ok_def)
next
  case (sys_release t m p wake)
  have t: "opened s t = Some m"
    using assms(2) sys_release by (auto simp: files_ok_def)
  have w: "writer_files s' = (if fmode_write m then writer_files s - {t} else writer_files s)"
    using t sys_release by (auto simp: writer_files_def)
  have c: "of_nat (card (writer_files s)) =
      of_nat (card (writer_files s')) + (if fmode_write m then 1 else 0 :: u32)"
  proof (cases "fmode_write m")
    case True
    then have "t \<in> writer_files s"
      using t by (simp add: writer_files_def)
    then have "card (writer_files s) = Suc (card (writer_files s'))"
      using card_Suc_Diff1 [OF card_files_small(1) [OF assms(2)]] True w by simp
    with True show ?thesis by simp
  qed (simp add: w)
  have sub: "dom (opened s') \<subseteq> {..<max_files}"
    using assms(2) sys_release by (auto simp: files_ok_def)
  have wr: "writers (kp s') = of_nat (card (writer_files s'))"
    using c assms(2) sys_release kpipe_release_ring(4) [OF sys_release(4)]
    by (simp add: files_ok_def)
  have pc: "(pcs s' u = OpLock n \<or> pcs s' u = OpHold n \<longrightarrow> opened s' u = None \<and> u < max_files) \<and>
    (pcs s' u = RlLock n \<or> pcs s' u = RlHold n \<longrightarrow> opened s' u = Some n)" for u n
    using assms(2) sys_release by (auto simp: files_ok_def wake_defs)
  from sub wr pc show ?thesis
    by (simp add: files_ok_def)
qed (use assms(2) in \<open>simp add: files_ok_def writer_files_def wake_defs; (metis option.distinct(1))?\<close>)+

lemma readers_sleep_keep:
  assumes "readers_sleep_ok s"
    and "\<And>u b c. pcs s' u = RdSleep b c \<Longrightarrow> pcs s u = RdSleep b c"
    and "pipe_contents (kp s) = [] \<Longrightarrow> writers (kp s) \<noteq> 0 \<Longrightarrow>
      pipe_contents (kp s') = [] \<and> writers (kp s') \<noteq> 0"
    and "\<And>u. pcs s u = WrWake \<Longrightarrow> pcs s' u = WrWake"
  shows "readers_sleep_ok s'"
  using assms unfolding readers_sleep_ok_def by meson

lemma writers_sleep_keep:
  assumes "writers_sleep_ok s"
    and "\<And>u b c. pcs s' u = WrSleep b c \<Longrightarrow> pcs s u = WrSleep b c"
    and "length (pipe_contents (kp s)) = pipe_capacity (kp s) \<Longrightarrow>
      length (pipe_contents (kp s')) = pipe_capacity (kp s')"
    and "\<And>u. pcs s u = RdWake \<Longrightarrow> pcs s' u = RdWake"
  shows "writers_sleep_ok s'"
  using assms unfolding writers_sleep_ok_def by meson

lemma step_readers_sleep:
  assumes "pipe_sys_step sigs s e s'" and "readers_sleep_ok s" and "files_ok s" and "ring_inv (kp s)"
  shows "readers_sleep_ok s'"
  using assms(1)
proof cases
  case (read_returns t b c ua um ppos ret p ppos' um' wake)
  note r = locked_read [OF assms(4) read_returns(5,7,4)]
  show ?thesis
    by (rule readers_sleep_keep [OF assms(2)])
      (use r(3,5) read_returns(2,3) in \<open>auto split: if_splits\<close>)
next
  case (read_wakes t)
  then show ?thesis
    by (intro readers_sleep_keep [OF assms(2)]) (auto simp: wake_defs split: if_splits)
next
  case (read_waits t sig b c)
  with not_ready(1) [OF assms(4)] show ?thesis
    by (simp add: readers_sleep_ok_def)
next
  case (write_returns t b c ua um ppos ret p ppos' wake)
  then have "pcs s' t = WrWake"
    using locked_write(4) [OF assms(4) write_returns(5,7,4)] by simp
  then show ?thesis
    unfolding readers_sleep_ok_def by blast
next
  case (write_wakes t)
  then show ?thesis
    by (simp add: readers_sleep_ok_def wake_defs)
next
  case (sys_open t m)
  have "files_ok s'"
    by (rule step_files_ok [OF assms(1,3,4)])
  moreover have "writer_files s \<subseteq> writer_files s'"
    using sys_open assms(3) by (auto simp: files_ok_def writer_files_def)
  ultimately have w: "writers (kp s) \<noteq> 0 \<Longrightarrow> writers (kp s') \<noteq> 0"
    using writers_zero assms(3) by blast
  show ?thesis
    by (rule readers_sleep_keep [OF assms(2)]) (use w sys_open in \<open>auto split: if_splits\<close>)
next
  case (sys_release t m p wake)
  note r = kpipe_release_ring [OF sys_release(4)]
  show ?thesis
  proof (cases wake)
    case True
    with sys_release show ?thesis
      by (simp add: readers_sleep_ok_def wake_defs)
  next
    case False
    with r sys_release(2,3) show ?thesis
      by (intro readers_sleep_keep [OF assms(2)]) (auto split: if_splits)
  qed
qed (rule readers_sleep_keep [OF assms(2)]; auto split: if_splits)+

lemma step_writers_sleep:
  assumes "pipe_sys_step sigs s e s'" and "writers_sleep_ok s" and "ring_inv (kp s)"
  shows "writers_sleep_ok s'"
  using assms(1)
proof cases
  case (read_returns t b c ua um ppos ret p ppos' um' wake)
  note r = locked_read [OF assms(3) read_returns(5,7,4)]
  show ?thesis
  proof (cases wake)
    case True
    then have "pcs s' t = RdWake"
      using read_returns(2) by simp
    then show ?thesis
      unfolding writers_sleep_ok_def by blast
  next
    case False
    with r(4) read_returns(2,3) show ?thesis
      by (intro writers_sleep_keep [OF assms(2)]) (auto split: if_splits)
  qed
next
  case (read_wakes t)
  then show ?thesis
    by (simp add: writers_sleep_ok_def wake_defs)
next
  case (write_waits t sig b c)
  with not_ready(2) [OF assms(3)] show ?thesis
    by (simp add: writers_sleep_ok_def)
next
  case (write_returns t b c ua um ppos ret p ppos' wake)
  note r = locked_write [OF assms(3) write_returns(5,7,4)]
  have "length (pipe_contents p) \<le> pipe_capacity p"
    by (rule contents_bounded [OF r(1)])
  then have "length (pipe_contents (kp s)) = pipe_capacity (kp s) \<Longrightarrow>
      length (pipe_contents p) = pipe_capacity p"
    using r by simp
  then show ?thesis
    by (intro writers_sleep_keep [OF assms(2)])
      (use write_returns(2,3) in \<open>auto split: if_splits\<close>)
next
  case (write_wakes t)
  then show ?thesis
    by (intro writers_sleep_keep [OF assms(2)]) (auto simp: wake_defs split: if_splits)
next
  case (sys_release t m p wake)
  note r = kpipe_release_ring [OF sys_release(4)]
  show ?thesis
    by (rule writers_sleep_keep [OF assms(2)])
      (use r(2,3) sys_release(2,3) in \<open>auto simp: wake_defs split: if_splits\<close>)
qed (rule writers_sleep_keep [OF assms(2)]; auto split: if_splits)+

lemma step_psys_inv:
  assumes "pipe_sys_step False s e s'" and "psys_inv s"
  shows "psys_inv s'"
  using assms step_ring_inv [OF assms(1)] step_mutex_ok [OF assms(1)] step_files_ok [OF assms(1)]
    step_readers_sleep [OF assms(1)] step_writers_sleep [OF assms(1)] step_no_intr [OF assms(1)]
  by (simp add: psys_inv_def)

section \<open>The contract of a pipe\<close>

abbreviation psys_contents :: "psys \<Rightarrow> byte list" where
  "psys_contents s \<equiv> pipe_contents (kp s)"

lemma step_psys_contents:
  assumes "pipe_sys_step sigs s e s'" and "ring_inv (kp s)"
  shows "bytes_read [e] @ psys_contents s' = psys_contents s @ bytes_written [e]"
  using assms(1)
proof cases
  case (read_returns t b c ua um ppos ret p ppos' um' wake)
  with locked_read [OF assms(2)] show ?thesis by simp
next
  case (write_returns t b c ua um ppos ret p ppos' wake)
  with locked_write [OF assms(2)] show ?thesis by simp
next
  case (sys_release t m p wake)
  with kpipe_release_ring show ?thesis by simp
qed simp_all

interpretation psys: fifo_channel "pipe_sys_step False" psys_inv psys_contents "\<lambda>s. pipe_capacity (kp s)"
proof
  fix s s' e bs
  assume i: "psys_inv s"
  then have r: "ring_inv (kp s)" by (simp add: psys_inv_def)
  show "length (psys_contents s) \<le> pipe_capacity (kp s)"
    by (rule contents_bounded [OF r])
  {
    assume "pipe_sys_step False s e s'"
    with i r show "psys_inv s'" "pipe_capacity (kp s') = pipe_capacity (kp s)"
      using step_psys_inv step_ring_inv by blast+
  }
  note c = step_psys_contents [OF _ r]
  show "psys_contents s' = psys_contents s @ bs" if "pipe_sys_step False s (Wrote bs) s'"
    using c [OF that] by simp
  show "psys_contents s = bs @ psys_contents s'" if "pipe_sys_step False s (ReadOut bs) s'"
    using c [OF that] by simp
  show "psys_contents s' = psys_contents s" if "pipe_sys_step False s Quiet s'"
    using c [OF that] by simp
qed

section \<open>Runs from a new pipe\<close>

text \<open>A pipe that \<open>pipe_ctor\<close> has set up, before any thread uses it.\<close>

definition psys_init :: "kpipe \<Rightarrow> psys" where
  "psys_init p = \<lparr>kp = p, mutex = None, pcs = (\<lambda>_. Idle), opened = (\<lambda>_. None), bad_unlock = False\<rparr>"

lemma kpipe_ctor_valid:
  assumes "kpipe_ctor sz (Some block) = Some p" and "0 < sint sz" and "length block = nat (sint sz)"
  shows "ring_inv p \<and> pipe_contents p = [] \<and> pipe_capacity p = nat (sint sz) - 1 \<and>
    writers p = 0 \<and> readers p = 0"
proof -
  have lt: "sint sz < 2 ^ 31"
    using sint_lt [of sz] by simp
  have u: "unat (scast sz :: u64) = nat (sint sz)"
  proof -
    have "(scast sz :: u64) = of_nat (nat (sint sz))"
      using assms(2) by simp
    moreover have "nat (sint sz) < 2 ^ 64"
      using lt by simp
    ultimately show ?thesis by simp
  qed
  with assms lt show ?thesis
    by (auto simp: kpipe_ctor_def ring_inv_def pipe_contents_def pipe_capacity_def word_less_nat_alt)
qed

lemma psys_inv_init:
  assumes "ring_inv p" and "writers p = 0"
  shows "psys_inv (psys_init p)"
  using assms
  by (simp add: psys_inv_def psys_init_def mutex_ok_def files_ok_def readers_sleep_ok_def
      writers_sleep_ok_def no_intr_def writer_files_def)

definition pipe_run :: "psys \<Rightarrow> bool" where
  "pipe_run s \<longleftrightarrow> (\<exists>sz block p es. kpipe_ctor sz (Some block) = Some p \<and> 0 < sint sz \<and>
     length block = nat (sint sz) \<and> steps (pipe_sys_step False) (psys_init p) es s)"

lemma pipe_run_inv: "pipe_run s \<Longrightarrow> psys_inv s"
  unfolding pipe_run_def by (meson kpipe_ctor_valid psys_inv_init psys.steps_inv)

section \<open>Some runs\<close>

lemma open_run:
  assumes "pcs s t = Idle" and "opened s t = None" and "t < max_files" and "mutex s = None"
  shows "steps (pipe_sys_step sigs) s [Quiet, Quiet, Quiet]
    (s\<lparr>kp := kpipe_open m (kp s), opened := (opened s)(t := Some m)\<rparr>)"
proof -
  define s1 where "s1 = s\<lparr>pcs := (pcs s)(t := OpLock m)\<rparr>"
  define s2 where "s2 = s1\<lparr>pcs := (pcs s1)(t := OpHold m), mutex := Some t\<rparr>"
  define s3 where "s3 = s2\<lparr>kp := kpipe_open m (kp s2), opened := (opened s2)(t := Some m),
    pcs := (pcs s2)(t := Idle), mutex := None\<rparr>"
  have 1: "pipe_sys_step sigs s Quiet s1"
    unfolding s1_def by (rule call_open) (use assms in simp_all)
  have 2: "pipe_sys_step sigs s1 Quiet s2"
    unfolding s2_def by (rule lock_open) (use assms in \<open>simp_all add: s1_def\<close>)
  have 3: "pipe_sys_step sigs s2 Quiet s3"
    unfolding s3_def by (rule sys_open) (simp add: s2_def)
  have "(pcs s)(t := Idle) = pcs s"
    using assms(1) by auto
  then have "s3 = s\<lparr>kp := kpipe_open m (kp s), opened := (opened s)(t := Some m)\<rparr>"
    using assms(4) by (simp add: s3_def s2_def s1_def)
  with 1 2 3 show ?thesis
    by (metis steps_Cons steps_Nil)
qed

lemma blocked_read_run:
  assumes "pcs s t = Idle" and "opened s t = Some m" and "fmode_read m" and "mutex s = None"
    and "ring_inv (kp s)" and "pipe_contents (kp s) = []" and "0 < sint (writers (kp s))"
  shows "steps (pipe_sys_step sigs) s [Quiet, Quiet, Quiet]
    (s\<lparr>pcs := (pcs s)(t := RdCond False b c)\<rparr>)"
proof -
  define s1 where "s1 = s\<lparr>pcs := (pcs s)(t := RdLock b c)\<rparr>"
  define s2 where "s2 = s1\<lparr>pcs := (pcs s1)(t := RdHold b c), mutex := Some t\<rparr>"
  define s3 where "s3 = s2\<lparr>pcs := (pcs s2)(t := RdCond False b c), mutex := None\<rparr>"
  have "kpipe_data (kp s) = 0"
    using unat_kpipe_data [OF assms(5)] length_pipe_contents [OF assms(5)] assms(6)
    by (simp add: unat_eq_0)
  then have bl: "kpipe_read_locked ua um (kp s2) b c ppos = Blocks" for ua um ppos
    using assms(7) by (simp add: kpipe_read_locked_def s2_def s1_def)
  have 1: "pipe_sys_step sigs s Quiet s1"
    unfolding s1_def by (rule call_read) (use assms in simp_all)
  have 2: "pipe_sys_step sigs s1 Quiet s2"
    unfolding s2_def by (rule lock_read) (use assms in \<open>simp_all add: s1_def\<close>)
  have 3: "pipe_sys_step sigs s2 Quiet s3"
    unfolding s3_def by (rule read_blocks [OF _ bl]) (simp add: s2_def)
  have "s3 = s\<lparr>pcs := (pcs s)(t := RdCond False b c)\<rparr>"
    using assms(4) by (simp add: s3_def s2_def s1_def)
  with 1 2 3 show ?thesis
    by (metis steps_Cons steps_Nil)
qed

lemma check_read_run:
  assumes "pcs s t = RdCond sig b c" and "mutex s = None" and "\<not> kpipe_reader_should_i_wake_up (kp s)"
  shows "steps (pipe_sys_step sigs) s [Quiet, Quiet]
    (s\<lparr>pcs := (pcs s)(t := if sig then RdIntr else RdSleep b c)\<rparr>)"
proof -
  define s1 where "s1 = s\<lparr>pcs := (pcs s)(t := RdCheck sig b c), mutex := Some t\<rparr>"
  define s2 where "s2 = s1\<lparr>pcs := (pcs s1)(t := if sig then RdIntr else RdSleep b c), mutex := None\<rparr>"
  have 1: "pipe_sys_step sigs s Quiet s1"
    unfolding s1_def by (rule read_checks) (use assms in simp_all)
  have 2: "pipe_sys_step sigs s1 Quiet s2"
    unfolding s2_def by (rule read_waits) (use assms in \<open>simp_all add: s1_def\<close>)
  have "s2 = s\<lparr>pcs := (pcs s)(t := if sig then RdIntr else RdSleep b c)\<rparr>"
    using assms(2) by (simp add: s2_def s1_def)
  with 1 2 show ?thesis
    by (metis steps_Cons steps_Nil)
qed

text \<open>A pipe of four cells that thread 0 has opened for reading and writing and on which it reads.\<close>

definition mode_rw :: f_mode where
  "mode_rw = \<lparr>fmode_read = True, fmode_write = True\<rparr>"

definition pipe4_opened :: psys where
  "pipe4_opened = (psys_init pipe4)\<lparr>kp := kpipe_open mode_rw pipe4, opened := [0 \<mapsto> mode_rw]\<rparr>"

lemma pipe_run_pipe4:
  "steps (pipe_sys_step False) (psys_init pipe4) es s \<Longrightarrow> pipe_run s"
  unfolding pipe_run_def
  by (rule exI [of _ 4], rule exI [of _ "[0, 0, 0, 0]"], rule exI [of _ pipe4], rule exI [of _ es])
    (simp add: pipe4_facts)

lemma pipe4_opened_run:
  "steps (pipe_sys_step sigs) (psys_init pipe4) [Quiet, Quiet, Quiet] pipe4_opened"
  using open_run [of "psys_init pipe4" 0 sigs mode_rw]
  by (simp add: pipe4_opened_def psys_init_def max_files_def)

lemma pipe4_opened_facts:
  "ring_inv (kp pipe4_opened)" "pipe_contents (kp pipe4_opened) = []" "writers (kp pipe4_opened) = 1"
  "pcs pipe4_opened t = Idle" "opened pipe4_opened = [0 \<mapsto> mode_rw]" "mutex pipe4_opened = None"
  "\<not> kpipe_reader_should_i_wake_up (kp pipe4_opened)"
  using not_ready(1) [of "kp pipe4_opened"]
  by (simp_all add: pipe4_opened_def psys_init_def pipe4_facts mode_rw_def)

lemma pipe4_sleeping_run:
  "steps (pipe_sys_step False) (psys_init pipe4) [Quiet, Quiet, Quiet, Quiet, Quiet, Quiet, Quiet, Quiet]
    (pipe4_opened\<lparr>pcs := (pcs pipe4_opened)(0 := RdSleep b c)\<rparr>)"
proof -
  let ?s = "pipe4_opened\<lparr>pcs := (pcs pipe4_opened)(0 := RdCond False b c)\<rparr>"
  have 1: "steps (pipe_sys_step False) pipe4_opened [Quiet, Quiet, Quiet] ?s"
    by (rule blocked_read_run [where m = mode_rw]) (simp_all add: pipe4_opened_facts mode_rw_def pipe4_facts)
  have 2: "steps (pipe_sys_step False) ?s [Quiet, Quiet]
      (?s\<lparr>pcs := (pcs ?s)(0 := if False then RdIntr else RdSleep b c)\<rparr>)"
    by (rule check_read_run) (simp_all add: pipe4_opened_facts)
  from steps_append [OF steps_append [OF pipe4_opened_run 1] 2] show ?thesis
    by simp
qed

lemma write_run:
  fixes c :: u64
  assumes "pcs s t = Idle" and "opened s t = Some m" and "fmode_write m" and "mutex s = None"
    and inv: "ring_inv (kp s)" and "length (psys_contents s) < pipe_capacity (kp s)"
    and ua: "uaccess_laws ua" "access_ok ua b (unat c)" "user_readable ua b (unat c)"
    and n: "n = min (pipe_capacity (kp s) - length (psys_contents s)) (unat c)"
  shows "\<exists>p. steps (pipe_sys_step sigs) s [Quiet, Quiet, Wrote (user_bytes um b n), Quiet]
    (s\<lparr>kp := p, pcs := wake_readers (pcs s)\<rparr>)"
proof -
  have law: "copy_from_user_law ua"
    using ua by (simp add: uaccess_laws_def)
  obtain p where sb: "store_bytes ua um (kp s) b n = (0, p)"
    using store_bytes_total [OF inv ua(1,3) n, of um] by auto
  have n': "n = min (pipe_free (kp s)) (unat c)" and fr: "pipe_free (kp s) \<noteq> 0"
    using n pipe_free_capacity [OF inv] assms(6) by simp_all
  define s1 where "s1 = s\<lparr>pcs := (pcs s)(t := WrLock b c)\<rparr>"
  define s2 where "s2 = s1\<lparr>pcs := (pcs s1)(t := WrHold b c), mutex := Some t\<rparr>"
  define s3 where "s3 = s2\<lparr>kp := p, pcs := (pcs s2)(t := if True then WrWake else Idle), mutex := None\<rparr>"
  define s4 where "s4 = s3\<lparr>pcs := (wake_readers (pcs s3))(t := Idle)\<rparr>"
  have w: "kpipe_write_locked ua um (kp s2) b c 0 = Returns (Done (of_nat n, p, of_nat n, True))"
    using kpipe_write_locked_eq [OF inv law n', of um b 0] sb fr by (simp add: s2_def s1_def)
  have un: "unat (of_nat n :: u64) = n"
    using capacity_small [OF inv] n by (intro unat_of_nat_u64) simp
  have 1: "pipe_sys_step sigs s Quiet s1"
    unfolding s1_def by (rule call_write) (use assms in simp_all)
  have 2: "pipe_sys_step sigs s1 Quiet s2"
    unfolding s2_def by (rule lock_write) (use assms in \<open>simp_all add: s1_def\<close>)
  have 3: "pipe_sys_step sigs s2 (Wrote (user_bytes um b n)) s3"
    using write_returns [OF _ w ua, of t sigs] un by (simp add: s3_def s2_def)
  have 4: "pipe_sys_step sigs s3 Quiet s4"
    unfolding s4_def by (rule write_wakes) (simp add: s3_def)
  have "s4 = s\<lparr>kp := p, pcs := wake_readers (pcs s)\<rparr>"
  proof -
    have "(wake_readers (pcs s3))(t := Idle) = wake_readers (pcs s)"
      using assms(1) by (auto simp: s3_def s2_def s1_def wake_defs)
    then show ?thesis
      using assms(4) by (simp add: s4_def s3_def s2_def s1_def)
  qed
  with 1 2 3 4 show ?thesis
    by (metis steps_Cons steps_Nil)
qed

section \<open>Properties\<close>







lemma kpipe_locked_returns:
  assumes "ring_inv p" and "uaccess_laws ua"
  shows "kpipe_read_locked ua um p b c ppos = Blocks \<or>
      (\<exists>r. kpipe_read_locked ua um p b c ppos = Returns (Done r))"
    "kpipe_write_locked ua um p b c ppos = Blocks \<or>
      (\<exists>r. kpipe_write_locked ua um p b c ppos = Returns (Done r))"
  using assms(2) kpipe_read_locked_eq [OF assms(1) _ refl, of ua um b c ppos]
    kpipe_write_locked_eq [OF assms(1) _ refl, of ua um b c ppos]
  by (auto simp: uaccess_laws_def split: if_splits prod.splits)

lemma moves:
  "pipe_sys_step sigs s e s' \<Longrightarrow> pcs s' u \<noteq> pcs s u \<Longrightarrow>
    \<exists>e s'. pipe_sys_step sigs s e s' \<and> pcs s' u \<noteq> pcs s u"
  by blast

lemma holder_steps:
  assumes "ring_inv (kp s)" and "holds (pcs s u)"
  shows "\<exists>e s'. pipe_sys_step sigs s e s' \<and> pcs s' u \<noteq> pcs s u"
proof (cases "pcs s u")
  case (RdHold b c)
  note r = kpipe_locked_returns(1) [OF assms(1) flat_uaccess_facts(1), of "\<lambda>_. 0" b c 0]
  then consider "kpipe_read_locked flat_uaccess (\<lambda>_. 0) (kp s) b c 0 = Blocks" |
    ret p pp um wk where
      "kpipe_read_locked flat_uaccess (\<lambda>_. 0) (kp s) b c 0 = Returns (Done (ret, p, pp, um, wk))"
    by (metis prod_cases5)
  then show ?thesis
  proof cases
    case 1
    show ?thesis
      by (rule moves [OF read_blocks [OF RdHold 1, of sigs]]) (simp add: RdHold)
  next
    case 2
    show ?thesis
      by (rule moves [OF read_returns [OF RdHold 2 flat_uaccess_facts(1,2,4), of sigs]]) (simp add: RdHold)
  qed
next
  case (WrHold b c)
  note r = kpipe_locked_returns(2) [OF assms(1) flat_uaccess_facts(1), of "\<lambda>_. 0" b c 0]
  then consider "kpipe_write_locked flat_uaccess (\<lambda>_. 0) (kp s) b c 0 = Blocks" |
    ret p pp wk where
      "kpipe_write_locked flat_uaccess (\<lambda>_. 0) (kp s) b c 0 = Returns (Done (ret, p, pp, wk))"
    by (metis prod_cases4)
  then show ?thesis
  proof cases
    case 1
    show ?thesis
      by (rule moves [OF write_blocks [OF WrHold 1, of sigs]]) (simp add: WrHold)
  next
    case 2
    show ?thesis
      by (rule moves [OF write_returns [OF WrHold 2 flat_uaccess_facts(1,2,3), of sigs]]) (simp add: WrHold)
  qed
next
  case (RdCheck sig b c)
  show ?thesis
  proof (cases "kpipe_reader_should_i_wake_up (kp s)")
    case True
    show ?thesis by (rule moves [OF read_ready [OF RdCheck True, of sigs]]) (simp add: RdCheck)
  next
    case False
    show ?thesis by (rule moves [OF read_waits [OF RdCheck False, of sigs]]) (simp add: RdCheck)
  qed
next
  case (WrCheck sig b c)
  show ?thesis
  proof (cases "kpipe_writer_should_i_wake_up (kp s)")
    case True
    show ?thesis by (rule moves [OF write_ready [OF WrCheck True, of sigs]]) (simp add: WrCheck)
  next
    case False
    show ?thesis by (rule moves [OF write_waits [OF WrCheck False, of sigs]]) (simp add: WrCheck)
  qed
next
  case (OpHold m)
  show ?thesis by (rule moves [OF sys_open [OF OpHold, of sigs]]) (simp add: OpHold)
next
  case (RlHold m)
  obtain p wake where rel: "kpipe_release m (kp s) = (p, wake)"
    by (cases "kpipe_release m (kp s)")
  show ?thesis by (rule moves [OF sys_release [OF RlHold rel, of sigs]]) (simp add: RlHold)
qed (use assms(2) in simp_all)

lemma free_mutex_steps:
  assumes "mutex s = None" and "\<not> holds (pcs s t)" and "pcs s t \<noteq> Idle"
    and "\<And>b c. pcs s t \<noteq> RdSleep b c" and "\<And>b c. pcs s t \<noteq> WrSleep b c"
  shows "\<exists>e s'. pipe_sys_step sigs s e s' \<and> pcs s' t \<noteq> pcs s t"
proof (cases "pcs s t")
  case (RdLock b c)
  show ?thesis by (rule moves [OF lock_read [OF RdLock assms(1), of sigs]]) (simp add: RdLock)
next
  case (RdCond sig b c)
  show ?thesis by (rule moves [OF read_checks [OF RdCond assms(1), of sigs]]) (simp add: RdCond)
next
  case RdIntr
  show ?thesis by (rule moves [OF read_interrupted [OF RdIntr, of sigs]]) (simp add: RdIntr)
next
  case RdWake
  show ?thesis by (rule moves [OF read_wakes [OF RdWake, of sigs]]) (simp add: RdWake)
next
  case (WrLock b c)
  show ?thesis by (rule moves [OF lock_write [OF WrLock assms(1), of sigs]]) (simp add: WrLock)
next
  case (WrCond sig b c)
  show ?thesis by (rule moves [OF write_checks [OF WrCond assms(1), of sigs]]) (simp add: WrCond)
next
  case WrIntr
  show ?thesis by (rule moves [OF write_interrupted [OF WrIntr, of sigs]]) (simp add: WrIntr)
next
  case WrWake
  show ?thesis by (rule moves [OF write_wakes [OF WrWake, of sigs]]) (simp add: WrWake)
next
  case (OpLock m)
  show ?thesis by (rule moves [OF lock_open [OF OpLock assms(1), of sigs]]) (simp add: OpLock)
next
  case (RlLock m)
  show ?thesis by (rule moves [OF lock_release [OF RlLock assms(1), of sigs]]) (simp add: RlLock)
qed (use assms in simp_all)

lemma psteps_Cons:
  "pipe_sys_step sigs s e s' \<Longrightarrow> steps (pipe_sys_step sigs) s' es s'' \<Longrightarrow>
    steps (pipe_sys_step sigs) s (e # es) s''"
  by (rule steps_Cons)



text \<open>A signal breaks the locking. \<open>wait_event_interruptible\<close> returns \<open>-ERESTARTSYS\<close> after
  \<open>pipe_reader_should_i_wake_up\<close> has released the mutex, and \<open>pipe_read\<close> then releases it once
  more: there is a run in which the reader releases the mutex that another thread holds, so that
  the mutex is free while that thread is inside its critical section.\<close>

theorem pipe_signal_double_unlock:
  "\<exists>es s. steps (pipe_sys_step True) (psys_init pipe4) es s \<and> bad_unlock s \<and>
     holds (pcs s 1) \<and> mutex s = None"
proof -
  let ?o = pipe4_opened
  let ?s1 = "?o\<lparr>pcs := (pcs ?o)(0 := RdCond False 0 0)\<rparr>"
  let ?s2 = "?s1\<lparr>pcs := (pcs ?s1)(0 := RdCond True 0 0)\<rparr>"
  let ?s3 = "?s2\<lparr>pcs := (pcs ?s2)(0 := RdIntr)\<rparr>"
  let ?s4 = "?s3\<lparr>pcs := (pcs ?s3)(1 := OpLock mode_rw)\<rparr>"
  let ?s5 = "?s4\<lparr>pcs := (pcs ?s4)(1 := OpHold mode_rw), mutex := Some 1\<rparr>"
  let ?s6 = "?s5\<lparr>pcs := (pcs ?s5)(0 := Idle), mutex := None, bad_unlock := bad_unlock ?s5 \<or> mutex ?s5 \<noteq> Some 0\<rparr>"
  have 1: "steps (pipe_sys_step True) ?o [Quiet, Quiet, Quiet] ?s1"
    by (rule blocked_read_run [where m = mode_rw]) (simp_all add: pipe4_opened_facts mode_rw_def pipe4_facts)
  have 2: "pipe_sys_step True ?s1 Quiet ?s2"
    by (rule read_signal) simp_all
  have 3: "steps (pipe_sys_step True) ?s2 [Quiet, Quiet] ?s3"
    using check_read_run [of ?s2 0 True 0 0 True] by (simp add: pipe4_opened_facts)
  have 4: "pipe_sys_step True ?s3 Quiet ?s4"
    by (rule call_open) (simp_all add: pipe4_opened_facts max_files_def)
  have 5: "pipe_sys_step True ?s4 Quiet ?s5"
    by (rule lock_open) (simp_all add: pipe4_opened_facts)
  have 6: "pipe_sys_step True ?s5 Quiet ?s6"
    by (rule read_interrupted) simp
  have "steps (pipe_sys_step True) ?s3 [Quiet, Quiet, Quiet] ?s6"
    by (rule psteps_Cons [OF 4 psteps_Cons [OF 5 psteps_Cons [OF 6 steps_Nil]]])
  from steps_append [OF steps_append [OF pipe4_opened_run 1] psteps_Cons [OF 2 steps_append [OF 3 this]]]
  have "steps (pipe_sys_step True) (psys_init pipe4)
      (([Quiet, Quiet, Quiet] @ [Quiet, Quiet, Quiet]) @ Quiet # [Quiet, Quiet] @ [Quiet, Quiet, Quiet]) ?s6" .
  moreover have "bad_unlock ?s6 \<and> holds (pcs ?s6 1) \<and> mutex ?s6 = None"
    by simp
  ultimately show ?thesis
    by blast
qed

end
