(* ===== verification/ModuleLife.thy ===== *)
theory ModuleLife
  imports Prelude "HOL-Library.Multiset"
begin

text \<open>
  Loading and unloading kernel modules. The kernel functions that the modules call to register
  themselves are not part of this repository. A record \<open>kenv\<close> says what each of them returns during
  one load; \<open>kenv_ok\<close> states what the kernel documents about these results. A ledger records which
  kernel resources the module holds and whether it has released one that it does not hold, or one
  on which another held resource still depends. \<open>module_lifecycle\<close> is the contract of a module: a
  load that fails leaves nothing behind, and an unload after a successful load gives everything
  back.
\<close>

section \<open>Results of kernel calls\<close>

text \<open>A pointer result: a valid pointer, \<open>NULL\<close>, or \<open>ERR_PTR(e)\<close> with a negative \<open>e\<close>.\<close>

datatype kptr = PtrOk | PtrNull | PtrErr int

fun is_err :: "kptr \<Rightarrow> bool" where
  "is_err (PtrErr _) = True"
| "is_err _ = False"

fun ptr_err :: "kptr \<Rightarrow> int" where
  "ptr_err (PtrErr e) = e"
| "ptr_err _ = 0"

record kenv =
  alloc_chrdev_region_ret :: int
  register_chrdev_ret :: "int \<Rightarrow> int"
  cdev_alloc_ret :: kptr
  cdev_add_ret :: int
  class_create_ret :: kptr
  device_create_ret :: "nat \<Rightarrow> kptr"
  kmalloc_ret :: "nat \<Rightarrow> kptr"
  proc_create_ret :: kptr
  request_irq_ret :: int
  alloc_etherdev_ret :: kptr
  register_netdev_ret :: int
  vmalloc_ret :: kptr
  register_blkdev_ret :: "int \<Rightarrow> int"
  alloc_tag_set_ret :: int
  alloc_disk_ret :: kptr
  add_disk_ret :: int

text \<open>
  What the kernel documents. The calls that return an \<open>int\<close> return 0 on success and a negative
  error otherwise; in particular \<open>register_chrdev\<close> and \<open>register_blkdev\<close> return 0 on success when a
  specific (positive) major number is asked for. \<open>class_create\<close>, \<open>device_create\<close> and
  \<open>blk_mq_alloc_disk\<close> never return \<open>NULL\<close>; the allocators, \<open>cdev_alloc\<close>, \<open>alloc_etherdev\<close> and
  \<open>proc_create\<close> report failure with \<open>NULL\<close>.
\<close>

definition err_or_valid :: "kptr \<Rightarrow> bool" where
  "err_or_valid p \<longleftrightarrow> p = PtrOk \<or> (\<exists>e. p = PtrErr e \<and> e < 0)"

definition null_or_valid :: "kptr \<Rightarrow> bool" where
  "null_or_valid p \<longleftrightarrow> p = PtrOk \<or> p = PtrNull"

definition kenv_ok :: "kenv \<Rightarrow> bool" where
  "kenv_ok env \<longleftrightarrow>
     alloc_chrdev_region_ret env \<le> 0 \<and> cdev_add_ret env \<le> 0 \<and> request_irq_ret env \<le> 0 \<and>
     register_netdev_ret env \<le> 0 \<and> alloc_tag_set_ret env \<le> 0 \<and> add_disk_ret env \<le> 0 \<and>
     (\<forall>major>0. register_chrdev_ret env major \<le> 0 \<and> register_blkdev_ret env major \<le> 0) \<and>
     err_or_valid (class_create_ret env) \<and> (\<forall>i. err_or_valid (device_create_ret env i)) \<and>
     err_or_valid (alloc_disk_ret env) \<and>
     null_or_valid (cdev_alloc_ret env) \<and> (\<forall>i. null_or_valid (kmalloc_ret env i)) \<and>
     null_or_valid (proc_create_ret env) \<and> null_or_valid (alloc_etherdev_ret env) \<and>
     null_or_valid (vmalloc_ret env)"

lemma err_or_validE:
  assumes "err_or_valid p"
  obtains "p = PtrOk" | e where "p = PtrErr e" "e < 0"
  using assms by (auto simp: err_or_valid_def)

lemma null_or_validE:
  assumes "null_or_valid p"
  obtains "p = PtrOk" | "p = PtrNull"
  using assms by (auto simp: null_or_valid_def)

lemma kenv_okD:
  assumes "kenv_ok env"
  shows "err_or_valid (class_create_ret env)" "err_or_valid (device_create_ret env i)"
    "err_or_valid (alloc_disk_ret env)" "null_or_valid (cdev_alloc_ret env)"
    "null_or_valid (kmalloc_ret env i)" "null_or_valid (proc_create_ret env)"
    "null_or_valid (alloc_etherdev_ret env)" "null_or_valid (vmalloc_ret env)"
  using assms by (simp_all add: kenv_ok_def)

section \<open>The ledger\<close>

datatype resource =
    Region | Cdev | CdevMem | Class | Device nat | ChrMajor | Mem nat | ProcEntry | IrqLine
  | EtherMem | NetDev | VMem | BlkMajor | TagSet | Disk | DiskAdded | SlabCache | SlabObj

text \<open>A device node lives in its class, a registered character device in its number range, and so on.\<close>

fun needs :: "resource \<Rightarrow> resource \<Rightarrow> bool" where
  "needs q Class \<longleftrightarrow> (\<exists>i. q = Device i)"
| "needs q Region \<longleftrightarrow> q = Cdev"
| "needs q EtherMem \<longleftrightarrow> q = NetDev"
| "needs q TagSet \<longleftrightarrow> q = Disk"
| "needs q Disk \<longleftrightarrow> q = DiskAdded"
| "needs q SlabCache \<longleftrightarrow> q = SlabObj"
| "needs q _ \<longleftrightarrow> False"

record ledger =
  held :: "resource multiset"
  misuse :: bool

definition no_resources :: ledger where
  "no_resources = \<lparr>held = {#}, misuse = False\<rparr>"

definition acquire :: "resource \<Rightarrow> ledger \<Rightarrow> ledger" where
  "acquire r l = l\<lparr>held := add_mset r (held l)\<rparr>"

definition release :: "resource \<Rightarrow> ledger \<Rightarrow> ledger" where
  "release r l =
     (if r \<in># held l \<and> (\<forall>q \<in># held l - {#r#}. \<not> needs q r) then l\<lparr>held := held l - {#r#}\<rparr>
      else l\<lparr>misuse := True\<rparr>)"

text \<open>The kernel calls: the result, and the ledger with what a successful call hands out.\<close>

definition acquire_int :: "int \<Rightarrow> resource \<Rightarrow> ledger \<Rightarrow> int \<times> ledger" where
  "acquire_int ret r l = (ret, if ret = 0 then acquire r l else l)"

definition acquire_ptr :: "kptr \<Rightarrow> resource \<Rightarrow> ledger \<Rightarrow> kptr \<times> ledger" where
  "acquire_ptr p r l = (p, if p = PtrOk then acquire r l else l)"

definition alloc_chrdev_region :: "kenv \<Rightarrow> ledger \<Rightarrow> int \<times> ledger" where
  "alloc_chrdev_region env = acquire_int (alloc_chrdev_region_ret env) Region"

definition unregister_chrdev_region :: "ledger \<Rightarrow> ledger" where
  "unregister_chrdev_region = release Region"

definition register_chrdev :: "kenv \<Rightarrow> int \<Rightarrow> ledger \<Rightarrow> int \<times> ledger" where
  "register_chrdev env major = acquire_int (register_chrdev_ret env major) ChrMajor"

definition unregister_chrdev :: "ledger \<Rightarrow> ledger" where
  "unregister_chrdev = release ChrMajor"

definition cdev_add :: "kenv \<Rightarrow> ledger \<Rightarrow> int \<times> ledger" where
  "cdev_add env = acquire_int (cdev_add_ret env) Cdev"

definition cdev_del :: "ledger \<Rightarrow> ledger" where
  "cdev_del = release Cdev"

definition class_create :: "kenv \<Rightarrow> ledger \<Rightarrow> kptr \<times> ledger" where
  "class_create env = acquire_ptr (class_create_ret env) Class"

definition class_destroy :: "ledger \<Rightarrow> ledger" where
  "class_destroy = release Class"

definition device_create :: "kenv \<Rightarrow> nat \<Rightarrow> ledger \<Rightarrow> kptr \<times> ledger" where
  "device_create env i = acquire_ptr (device_create_ret env i) (Device i)"

definition device_destroy :: "nat \<Rightarrow> ledger \<Rightarrow> ledger" where
  "device_destroy i = release (Device i)"

definition kmalloc :: "kenv \<Rightarrow> nat \<Rightarrow> ledger \<Rightarrow> kptr \<times> ledger" where
  "kmalloc env i = acquire_ptr (kmalloc_ret env i) (Mem i)"

text \<open>\<open>kfree\<close> and \<open>proc_remove\<close> do nothing on a null pointer.\<close>

definition kfree :: "kptr \<Rightarrow> nat \<Rightarrow> ledger \<Rightarrow> ledger" where
  "kfree p i l = (if p = PtrNull then l else release (Mem i) l)"

definition proc_create :: "kenv \<Rightarrow> ledger \<Rightarrow> kptr \<times> ledger" where
  "proc_create env = acquire_ptr (proc_create_ret env) ProcEntry"

definition proc_remove :: "kptr \<Rightarrow> ledger \<Rightarrow> ledger" where
  "proc_remove p l = (if p = PtrNull then l else release ProcEntry l)"

definition request_irq :: "kenv \<Rightarrow> ledger \<Rightarrow> int \<times> ledger" where
  "request_irq env = acquire_int (request_irq_ret env) IrqLine"

definition free_irq :: "ledger \<Rightarrow> ledger" where
  "free_irq = release IrqLine"

text \<open>A character device from \<open>cdev_alloc\<close>: \<open>kfree\<close> frees one that was not added; after a
  successful \<open>cdev_add\<close>, \<open>cdev_del\<close> gives back both the registration and the memory.\<close>

definition cdev_alloc :: "kenv \<Rightarrow> ledger \<Rightarrow> kptr \<times> ledger" where
  "cdev_alloc env = acquire_ptr (cdev_alloc_ret env) CdevMem"

definition kfree_cdev :: "ledger \<Rightarrow> ledger" where
  "kfree_cdev = release CdevMem"

definition cdev_del_alloced :: "ledger \<Rightarrow> ledger" where
  "cdev_del_alloced l = release CdevMem (release Cdev l)"

named_theorems kernel_calls

lemmas kernel_call_defs [kernel_calls] =
  alloc_chrdev_region_def unregister_chrdev_region_def register_chrdev_def unregister_chrdev_def
  cdev_add_def cdev_del_def class_create_def class_destroy_def device_create_def device_destroy_def
  kmalloc_def kfree_def proc_create_def proc_remove_def request_irq_def free_irq_def
  cdev_alloc_def kfree_cdev_def cdev_del_alloced_def acquire_int_def acquire_ptr_def

lemma release_acquired [kernel_calls]:
  assumes "\<forall>q \<in># held l. \<not> needs q r"
  shows "release r (acquire r l) = l"
  using assms by (simp add: release_def acquire_def)

lemma held_simps [simp]:
  "held no_resources = {#}" "held (acquire r l) = add_mset r (held l)"
  "misuse (acquire r l) = misuse l"
  by (simp_all add: no_resources_def acquire_def)

section \<open>The contract of a module\<close>

definition clean_module :: "(kenv \<Rightarrow> ledger \<Rightarrow> int \<times> ledger) \<Rightarrow> (kenv \<Rightarrow> ledger \<Rightarrow> ledger) \<Rightarrow> bool" where
  "clean_module ini fin \<longleftrightarrow> (\<forall>env. kenv_ok env \<longrightarrow>
     (case ini env no_resources of (err, l) \<Rightarrow>
        if err = 0 then fin env l = no_resources else l = no_resources))"

definition module_cycle ::
  "(kenv \<Rightarrow> ledger \<Rightarrow> int \<times> ledger) \<Rightarrow> (kenv \<Rightarrow> ledger \<Rightarrow> ledger) \<Rightarrow> kenv \<Rightarrow> ledger \<Rightarrow> ledger" where
  "module_cycle ini fin env l = (case ini env l of (err, l) \<Rightarrow> if err = 0 then fin env l else l)"

locale module_lifecycle =
  fixes ini :: "kenv \<Rightarrow> ledger \<Rightarrow> int \<times> ledger"
    and fin :: "kenv \<Rightarrow> ledger \<Rightarrow> ledger"
  assumes load_fails: "kenv_ok env \<Longrightarrow> ini env no_resources = (err, l) \<Longrightarrow> err \<noteq> 0 \<Longrightarrow> l = no_resources"
    and unload: "kenv_ok env \<Longrightarrow> ini env no_resources = (0, l) \<Longrightarrow> fin env l = no_resources"
begin

lemma clean: "clean_module ini fin"
  using load_fails unload by (auto simp: clean_module_def split: prod.splits)

text \<open>Any number of load attempts, each followed by an unload if it succeeded.\<close>

lemma cycles:
  "(\<And>env. env \<in> set envs \<Longrightarrow> kenv_ok env) \<Longrightarrow>
    fold (module_cycle ini fin) envs no_resources = no_resources"
proof (induction envs)
  case Nil
  then show ?case by simp
next
  case (Cons env envs)
  have "kenv_ok env"
    using Cons.prems by simp
  then have "module_cycle ini fin env no_resources = no_resources"
    using load_fails [of env] unload [of env] by (auto simp: module_cycle_def split: prod.splits)
  with Cons show ?case by simp
qed

end

text \<open>An environment in which every call succeeds, and one in which every call fails.\<close>

definition good_env :: kenv where
  "good_env = \<lparr>alloc_chrdev_region_ret = 0, register_chrdev_ret = (\<lambda>_. 0), cdev_alloc_ret = PtrOk,
     cdev_add_ret = 0, class_create_ret = PtrOk, device_create_ret = (\<lambda>_. PtrOk),
     kmalloc_ret = (\<lambda>_. PtrOk), proc_create_ret = PtrOk, request_irq_ret = 0,
     alloc_etherdev_ret = PtrOk, register_netdev_ret = 0, vmalloc_ret = PtrOk,
     register_blkdev_ret = (\<lambda>_. 0), alloc_tag_set_ret = 0, alloc_disk_ret = PtrOk, add_disk_ret = 0\<rparr>"

lemma good_env_ok: "kenv_ok good_env"
  by (simp add: kenv_ok_def good_env_def err_or_valid_def null_or_valid_def)

end
