(* ===== verification/CharModules.thy ===== *)
theory CharModules
  imports ModuleLife
begin

text \<open>
  The \<open>module_init\<close> and \<open>module_exit\<close> functions of the character-device modules under
  \<open>src/src/kernel_standalone\<close>. A label of the clean-up code of an init function is a local function
  that does its work and falls through to the next label; a \<open>goto\<close> calls it. The names of the
  static variables are kept; calls that cannot fail and only fill in structures (\<open>cdev_init\<close>) and
  log messages are left out.
\<close>

section \<open>Modules that allocate a device number\<close>

text \<open>\<open>myzero\<close>, \<open>use_count\<close>, \<open>aaa\<close>, \<open>markveltzer\<close> and \<open>myempty\<close>.\<close>

definition myzero_init :: "kenv \<Rightarrow> ledger \<Rightarrow> int \<times> ledger" where
  "myzero_init env l =
     (let err_final = (\<lambda>err l. (err, l));
          err_dealloc = (\<lambda>err l. err_final err (unregister_chrdev_region l));
          err_cdev_del = (\<lambda>err l. err_dealloc err (cdev_del l));
          err_class = (\<lambda>err l. err_cdev_del err (class_destroy l));
          (err, l) = alloc_chrdev_region env l
      in if err \<noteq> 0 then err_final err l
      else let (err, l) = cdev_add env l
      in if err \<noteq> 0 then err_dealloc err l
      else let (my_class, l) = class_create env l
      in if is_err my_class then err_cdev_del (ptr_err my_class) l
      else let (my_device, l) = device_create env 0 l
      in if is_err my_device then err_class (ptr_err my_device) l
      else (0, l))"

definition myzero_exit :: "kenv \<Rightarrow> ledger \<Rightarrow> ledger" where
  "myzero_exit env l = unregister_chrdev_region (cdev_del (class_destroy (device_destroy 0 l)))"

definition use_count_init :: "kenv \<Rightarrow> ledger \<Rightarrow> int \<times> ledger" where
  "use_count_init env l =
     (let err_final = (\<lambda>err l. (err, l));
          err_dealloc = (\<lambda>err l. err_final err (unregister_chrdev_region l));
          err_cdev_del = (\<lambda>err l. err_dealloc err (cdev_del l));
          err_class = (\<lambda>err l. err_cdev_del err (class_destroy l));
          (err, l) = alloc_chrdev_region env l
      in if err \<noteq> 0 then err_final err l
      else let (err, l) = cdev_add env l
      in if err \<noteq> 0 then err_dealloc err l
      else let (my_class, l) = class_create env l
      in if is_err my_class then err_cdev_del (ptr_err my_class) l
      else let (my_device, l) = device_create env 0 l
      in if is_err my_device then err_class (ptr_err my_device) l
      else (0, l))"

definition use_count_exit :: "kenv \<Rightarrow> ledger \<Rightarrow> ledger" where
  "use_count_exit env l = unregister_chrdev_region (cdev_del (class_destroy (device_destroy 0 l)))"

definition aaa_init :: "kenv \<Rightarrow> ledger \<Rightarrow> int \<times> ledger" where
  "aaa_init env l =
     (let err_final = (\<lambda>err l. (err, l));
          err_dealloc = (\<lambda>err l. err_final err (unregister_chrdev_region l));
          err_cdev_del = (\<lambda>err l. err_dealloc err (cdev_del l));
          err_class = (\<lambda>err l. err_cdev_del err (class_destroy l));
          (err, l) = alloc_chrdev_region env l
      in if err \<noteq> 0 then err_final err l
      else let (err, l) = cdev_add env l
      in if err \<noteq> 0 then err_dealloc err l
      else let (my_class, l) = class_create env l
      in if is_err my_class then err_cdev_del (ptr_err my_class) l
      else let (my_device, l) = device_create env 0 l
      in if is_err my_device then err_class (ptr_err my_device) l
      else (0, l))"

definition aaa_exit :: "kenv \<Rightarrow> ledger \<Rightarrow> ledger" where
  "aaa_exit env l = unregister_chrdev_region (cdev_del (class_destroy (device_destroy 0 l)))"

definition markveltzer_init :: "kenv \<Rightarrow> ledger \<Rightarrow> int \<times> ledger" where
  "markveltzer_init env l =
     (let err_final = (\<lambda>err l. (err, l));
          err_dealloc = (\<lambda>err l. err_final err (unregister_chrdev_region l));
          err_cdev_del = (\<lambda>err l. err_dealloc err (cdev_del l));
          err_class = (\<lambda>err l. err_cdev_del err (class_destroy l));
          (err, l) = alloc_chrdev_region env l
      in if err \<noteq> 0 then err_final err l
      else let (err, l) = cdev_add env l
      in if err \<noteq> 0 then err_dealloc err l
      else let (my_class, l) = class_create env l
      in if is_err my_class then err_cdev_del (ptr_err my_class) l
      else let (my_device, l) = device_create env 0 l
      in if is_err my_device then err_class (ptr_err my_device) l
      else (0, l))"

definition markveltzer_exit :: "kenv \<Rightarrow> ledger \<Rightarrow> ledger" where
  "markveltzer_exit env l = unregister_chrdev_region (cdev_del (class_destroy (device_destroy 0 l)))"

definition myempty_init :: "kenv \<Rightarrow> ledger \<Rightarrow> int \<times> ledger" where
  "myempty_init env l =
     (let err_final = (\<lambda>err l. (err, l));
          err_dealloc = (\<lambda>err l. err_final err (unregister_chrdev_region l));
          err_cdev_del = (\<lambda>err l. err_dealloc err (cdev_del l));
          err_class = (\<lambda>err l. err_cdev_del err (class_destroy l));
          (err, l) = alloc_chrdev_region env l
      in if err \<noteq> 0 then err_final err l
      else let (err, l) = cdev_add env l
      in if err \<noteq> 0 then err_dealloc err l
      else let (my_class, l) = class_create env l
      in if is_err my_class then err_cdev_del (ptr_err my_class) l
      else let (my_device, l) = device_create env 0 l
      in if is_err my_device then err_class (ptr_err my_device) l
      else (0, l))"

definition myempty_exit :: "kenv \<Rightarrow> ledger \<Rightarrow> ledger" where
  "myempty_exit env l = unregister_chrdev_region (cdev_del (class_destroy (device_destroy 0 l)))"

text \<open>\<open>betternull\<close>: the failure of \<open>cdev_add\<close> jumps to \<open>err_cdev_del\<close>.\<close>

definition betternull_init :: "kenv \<Rightarrow> ledger \<Rightarrow> int \<times> ledger" where
  "betternull_init env l =
     (let err_nothing = (\<lambda>err l. (err, l));
          err_cdev_del = (\<lambda>err l. err_nothing err (unregister_chrdev_region (cdev_del l)));
          err_class = (\<lambda>err l. err_cdev_del err (class_destroy l));
          (err, l) = alloc_chrdev_region env l
      in if err \<noteq> 0 then err_nothing err l
      else let (err, l) = cdev_add env l
      in if err \<noteq> 0 then err_cdev_del err l
      else let (my_class, l) = class_create env l
      in if is_err my_class then err_cdev_del (ptr_err my_class) l
      else let (my_device, l) = device_create env 0 l
      in if is_err my_device then err_class (ptr_err my_device) l
      else (0, l))"

definition betternull_exit :: "kenv \<Rightarrow> ledger \<Rightarrow> ledger" where
  "betternull_exit env l = unregister_chrdev_region (cdev_del (class_destroy (device_destroy 0 l)))"

section \<open>Modules with a fixed major number\<close>

text \<open>\<open>mynull\<close>, \<open>sleep_wakeup\<close> and \<open>cant_kill\<close>.\<close>

definition mynull_init :: "kenv \<Rightarrow> ledger \<Rightarrow> int \<times> ledger" where
  "mynull_init env l =
     (let err_nothing = (\<lambda>err l. (err, l));
          err_register = (\<lambda>err l. err_nothing err (unregister_chrdev l));
          err_class = (\<lambda>err l. err_register err (class_destroy l));
          (err, l) = register_chrdev env 190 l
      in if err \<noteq> 0 then err_nothing err l
      else let (my_class, l) = class_create env l
      in if is_err my_class then err_register (ptr_err my_class) l
      else let (my_device, l) = device_create env 0 l
      in if is_err my_device then err_class (ptr_err my_device) l
      else (0, l))"

definition mynull_exit :: "kenv \<Rightarrow> ledger \<Rightarrow> ledger" where
  "mynull_exit env l = unregister_chrdev (class_destroy (device_destroy 0 l))"

definition sleep_wakeup_init :: "kenv \<Rightarrow> ledger \<Rightarrow> int \<times> ledger" where
  "sleep_wakeup_init env l =
     (let err_nothing = (\<lambda>err l. (err, l));
          err_register = (\<lambda>err l. err_nothing err (unregister_chrdev l));
          err_class = (\<lambda>err l. err_register err (class_destroy l));
          (err, l) = register_chrdev env 190 l
      in if err \<noteq> 0 then err_nothing err l
      else let (my_class, l) = class_create env l
      in if is_err my_class then err_register (ptr_err my_class) l
      else let (my_device, l) = device_create env 0 l
      in if is_err my_device then err_class (ptr_err my_device) l
      else (0, l))"

definition sleep_wakeup_exit :: "kenv \<Rightarrow> ledger \<Rightarrow> ledger" where
  "sleep_wakeup_exit env l = unregister_chrdev (class_destroy (device_destroy 0 l))"

definition cant_kill_init :: "kenv \<Rightarrow> ledger \<Rightarrow> int \<times> ledger" where
  "cant_kill_init env l =
     (let err_nothing = (\<lambda>err l. (err, l));
          err_register = (\<lambda>err l. err_nothing err (unregister_chrdev l));
          err_class = (\<lambda>err l. err_register err (class_destroy l));
          (err, l) = register_chrdev env 190 l
      in if err \<noteq> 0 then err_nothing err l
      else let (my_class, l) = class_create env l
      in if is_err my_class then err_register (ptr_err my_class) l
      else let (my_device, l) = device_create env 0 l
      in if is_err my_device then err_class (ptr_err my_device) l
      else (0, l))"

definition cant_kill_exit :: "kenv \<Rightarrow> ledger \<Rightarrow> ledger" where
  "cant_kill_exit env l = unregister_chrdev (class_destroy (device_destroy 0 l))"

text \<open>\<open>chrdev\<close>: the class and the node are created only with \<open>auto_register\<close>.\<close>

definition chrdev_init :: "bool \<Rightarrow> kenv \<Rightarrow> ledger \<Rightarrow> int \<times> ledger" where
  "chrdev_init auto_register env l =
     (let err_nothing = (\<lambda>err l. (err, l));
          err_register = (\<lambda>err l. err_nothing err (unregister_chrdev l));
          err_class = (\<lambda>err l. err_register err (class_destroy l));
          (err, l) = register_chrdev env 190 l
      in if err \<noteq> 0 then err_nothing err l
      else if auto_register
      then let (my_class, l) = class_create env l
        in if is_err my_class then err_register (ptr_err my_class) l
        else let (my_device, l) = device_create env 0 l
        in if is_err my_device then err_class (ptr_err my_device) l
        else (0, l)
      else (0, l))"

definition chrdev_exit :: "bool \<Rightarrow> kenv \<Rightarrow> ledger \<Rightarrow> ledger" where
  "chrdev_exit auto_register env l =
     unregister_chrdev (if auto_register then class_destroy (device_destroy 0 l) else l)"

section \<open>Modules with an interrupt line\<close>

definition irqcatch_init :: "kenv \<Rightarrow> ledger \<Rightarrow> int \<times> ledger" where
  "irqcatch_init env l =
     (let (my_entry, l) = proc_create env l;
          error_start = (\<lambda>ret l. (ret, l));
          error_after_proc = (\<lambda>ret l. error_start ret (proc_remove my_entry l))
      in if is_err my_entry then error_start (ptr_err my_entry) l
      else let (ret, l) = request_irq env l
      in if ret \<noteq> 0 then error_after_proc ret l
      else (0, l))"

definition irqcatch_cleanup :: "kenv \<Rightarrow> ledger \<Rightarrow> ledger" where
  "irqcatch_cleanup env l = proc_remove (proc_create_ret env) (free_irq l)"

text \<open>\<open>clipboard\<close>: the buffer, the proc entry, the device number, the character device, the
  interrupt. The static variables at unload are the results of the load.\<close>

definition clipboard_init :: "kenv \<Rightarrow> ledger \<Rightarrow> int \<times> ledger" where
  "clipboard_init env l =
     (let (clipboard, l) = kmalloc env 0 l;
          any_error = (\<lambda>ret l. (ret, l));
          error_after_alloc = (\<lambda>ret l. any_error ret (kfree clipboard 0 l))
      in if clipboard = PtrNull then any_error (- ENOMEM) l
      else let (clipboard_proc_entry, l) = proc_create env l;
               error_after_proc = (\<lambda>ret l. error_after_alloc ret (proc_remove clipboard_proc_entry l));
               error_after_region = (\<lambda>ret l. error_after_proc ret (unregister_chrdev_region l));
               error_after_register = (\<lambda>ret l. error_after_region ret (cdev_del_alloced l))
      in if is_err clipboard_proc_entry then error_after_alloc (ptr_err clipboard_proc_entry) l
      else let (err, l) = alloc_chrdev_region env l
      in if err \<noteq> 0 then error_after_proc (- ENODEV) l
      else let (clipboard_cdev, l) = cdev_alloc env l
      in if clipboard_cdev = PtrNull then error_after_region (- ENOMEM) l
      else let (err, l) = cdev_add env l
      in if err \<noteq> 0 then error_after_region (- ENODEV) (kfree_cdev l)
      else let (ret, l) = request_irq env l
      in if ret \<noteq> 0 then error_after_register ret l
      else (0, l))"

definition clipboard_cleanup :: "kenv \<Rightarrow> ledger \<Rightarrow> ledger" where
  "clipboard_cleanup env l =
     kfree (kmalloc_ret env 0) 0 (unregister_chrdev_region (cdev_del_alloced (free_irq
       (proc_remove (proc_create_ret env) l))))"

section \<open>The contracts\<close>

interpretation myzero: module_lifecycle myzero_init myzero_exit
proof
  fix env err l assume "kenv_ok env"
  note d = kenv_okD(1) [OF this] kenv_okD(2) [OF this, of 0]
  show "myzero_init env no_resources = (err, l) \<Longrightarrow> err \<noteq> 0 \<Longrightarrow> l = no_resources"
    "myzero_init env no_resources = (0, l) \<Longrightarrow> myzero_exit env l = no_resources"
    using d by (auto simp: myzero_init_def myzero_exit_def kernel_calls split: if_splits
        elim!: err_or_validE)
qed

text \<open>The other modules of the group have the same code.\<close>

lemma same_as_myzero:
  "use_count_init = myzero_init" "use_count_exit = myzero_exit"
  "aaa_init = myzero_init" "aaa_exit = myzero_exit"
  "markveltzer_init = myzero_init" "markveltzer_exit = myzero_exit"
  "myempty_init = myzero_init" "myempty_exit = myzero_exit" "betternull_exit = myzero_exit"
  unfolding fun_eq_iff use_count_init_def aaa_init_def markveltzer_init_def myempty_init_def
    use_count_exit_def aaa_exit_def markveltzer_exit_def myempty_exit_def betternull_exit_def
    myzero_init_def myzero_exit_def
  by (intro allI refl)+

interpretation use_count: module_lifecycle use_count_init use_count_exit
  unfolding same_as_myzero by (rule myzero.module_lifecycle_axioms)

interpretation aaa: module_lifecycle aaa_init aaa_exit
  unfolding same_as_myzero by (rule myzero.module_lifecycle_axioms)

interpretation markveltzer: module_lifecycle markveltzer_init markveltzer_exit
  unfolding same_as_myzero by (rule myzero.module_lifecycle_axioms)

interpretation myempty: module_lifecycle myempty_init myempty_exit
  unfolding same_as_myzero by (rule myzero.module_lifecycle_axioms)

interpretation mynull: module_lifecycle mynull_init mynull_exit
proof
  fix env err l assume "kenv_ok env"
  note d = kenv_okD(1) [OF this] kenv_okD(2) [OF this, of 0]
  show "mynull_init env no_resources = (err, l) \<Longrightarrow> err \<noteq> 0 \<Longrightarrow> l = no_resources"
    "mynull_init env no_resources = (0, l) \<Longrightarrow> mynull_exit env l = no_resources"
    using d by (auto simp: mynull_init_def mynull_exit_def kernel_calls split: if_splits
        elim!: err_or_validE)
qed

lemma same_as_mynull:
  "sleep_wakeup_init = mynull_init" "sleep_wakeup_exit = mynull_exit"
  "cant_kill_init = mynull_init" "cant_kill_exit = mynull_exit"
  unfolding fun_eq_iff sleep_wakeup_init_def sleep_wakeup_exit_def cant_kill_init_def
    cant_kill_exit_def mynull_init_def mynull_exit_def
  by (intro allI refl)+

interpretation sleep_wakeup: module_lifecycle sleep_wakeup_init sleep_wakeup_exit
  unfolding same_as_mynull by (rule mynull.module_lifecycle_axioms)

interpretation cant_kill: module_lifecycle cant_kill_init cant_kill_exit
  unfolding same_as_mynull by (rule mynull.module_lifecycle_axioms)

interpretation chrdev: module_lifecycle "chrdev_init auto_register" "chrdev_exit auto_register"
proof
  fix env err l assume "kenv_ok env"
  note d = kenv_okD(1) [OF this] kenv_okD(2) [OF this, of 0]
  show "chrdev_init auto_register env no_resources = (err, l) \<Longrightarrow> err \<noteq> 0 \<Longrightarrow> l = no_resources"
    "chrdev_init auto_register env no_resources = (0, l) \<Longrightarrow>
      chrdev_exit auto_register env l = no_resources"
    using d by (auto simp: chrdev_init_def chrdev_exit_def kernel_calls split: if_splits
        elim!: err_or_validE)
qed

interpretation irqcatch: module_lifecycle irqcatch_init irqcatch_cleanup
proof
  fix env err l assume "kenv_ok env"
  note d = kenv_okD(6) [OF this]
  show "irqcatch_init env no_resources = (err, l) \<Longrightarrow> err \<noteq> 0 \<Longrightarrow> l = no_resources"
    "irqcatch_init env no_resources = (0, l) \<Longrightarrow> irqcatch_cleanup env l = no_resources"
    using d by (auto simp: irqcatch_init_def irqcatch_cleanup_def kernel_calls split: if_splits
        elim!: null_or_validE)
qed

interpretation clipboard: module_lifecycle clipboard_init clipboard_cleanup
proof
  fix env err l assume "kenv_ok env"
  note d = kenv_okD(4) [OF this] kenv_okD(5) [OF this, of 0] kenv_okD(6) [OF this]
  show "clipboard_init env no_resources = (err, l) \<Longrightarrow> err \<noteq> 0 \<Longrightarrow> l = no_resources"
    using d by (auto simp: clipboard_init_def kernel_calls split: if_splits elim!: null_or_validE)
  show "clipboard_init env no_resources = (0, l) \<Longrightarrow> clipboard_cleanup env l = no_resources"
    using d by (auto simp: clipboard_init_def clipboard_cleanup_def kernel_calls errno_defs
        split: if_splits elim!: null_or_validE) (auto simp: release_def acquire_def no_resources_def)
qed

section \<open>Properties\<close>

text \<open>C26: The modules \<open>myzero\<close>, \<open>use_count\<close>, \<open>aaa\<close>, \<open>markveltzer\<close>, \<open>myempty\<close>, \<open>mynull\<close>,
  \<open>sleep_wakeup\<close>, \<open>cant_kill\<close>, \<open>chrdev\<close> (with and without \<open>auto_register\<close>), \<open>irqcatch\<close> and
  \<open>clipboard\<close> keep the contract of a module: whatever combination of kernel calls fails, a load
  that fails has given back exactly what it took, in a valid order, and an unload after a
  successful load does so too.\<close>

theorem char_modules_clean:
  "clean_module myzero_init myzero_exit \<and> clean_module use_count_init use_count_exit \<and>
   clean_module aaa_init aaa_exit \<and> clean_module markveltzer_init markveltzer_exit \<and>
   clean_module myempty_init myempty_exit \<and> clean_module mynull_init mynull_exit \<and>
   clean_module sleep_wakeup_init sleep_wakeup_exit \<and> clean_module cant_kill_init cant_kill_exit \<and>
   clean_module (chrdev_init auto_register) (chrdev_exit auto_register) \<and>
   clean_module irqcatch_init irqcatch_cleanup \<and> clean_module clipboard_init clipboard_cleanup"
  by (intro conjI myzero.clean use_count.clean aaa.clean markveltzer.clean myempty.clean mynull.clean
      sleep_wakeup.clean cant_kill.clean chrdev.clean irqcatch.clean clipboard.clean)

text \<open>The clipboard module can be loaded and unloaded any number of times, with any kernel calls
  failing in any of the attempts, and the kernel ends up holding none of its resources.\<close>

theorem clipboard_cycles:
  assumes "\<And>env. env \<in> set envs \<Longrightarrow> kenv_ok env"
  shows "fold (module_cycle clipboard_init clipboard_cleanup) envs no_resources = no_resources"
  by (rule clipboard.cycles [OF assms])

theorem clipboard_cycles_witness:
  "fold (module_cycle clipboard_init clipboard_cleanup)
     [good_env, good_env\<lparr>request_irq_ret := - EBUSY\<rparr>, good_env] no_resources = no_resources \<and>
   fst (clipboard_init good_env no_resources) = 0 \<and>
   fst (clipboard_init (good_env\<lparr>request_irq_ret := - EBUSY\<rparr>) no_resources) = - EBUSY"
proof -
  have "kenv_ok (good_env\<lparr>request_irq_ret := - EBUSY\<rparr>)"
    using good_env_ok by (simp add: kenv_ok_def errno_defs)
  with clipboard_cycles [of "[good_env, good_env\<lparr>request_irq_ret := - EBUSY\<rparr>, good_env]"] good_env_ok
  show ?thesis
    by (simp add: clipboard_init_def kernel_calls good_env_def errno_defs) blast
qed

text \<open>\<open>betternull\<close> gives everything back except on one path: when \<open>cdev_add\<close> fails, the clean-up
  code starts at \<open>err_cdev_del\<close> and deletes a character device that was never added.\<close>

theorem betternull_deletes_unadded_cdev:
  assumes "kenv_ok env"
  shows "(case betternull_init env no_resources of (err, l) \<Rightarrow>
      if err = 0 then betternull_exit env l = no_resources
      else held l = {#} \<and> (misuse l \<longleftrightarrow> alloc_chrdev_region_ret env = 0 \<and> cdev_add_ret env \<noteq> 0))"
  using kenv_okD(1) [OF assms] kenv_okD(2) [OF assms, of 0]
  by (auto simp: betternull_init_def betternull_exit_def kernel_calls split: if_splits
      elim!: err_or_validE) (auto simp: release_def acquire_def no_resources_def)

theorem betternull_deletes_unadded_cdev_witness:
  "misuse (snd (betternull_init (good_env\<lparr>cdev_add_ret := - ENOMEM\<rparr>) no_resources))"
proof -
  have "kenv_ok (good_env\<lparr>cdev_add_ret := - ENOMEM\<rparr>)"
    using good_env_ok by (simp add: kenv_ok_def errno_defs)
  from betternull_deletes_unadded_cdev [OF this] show ?thesis
    by (simp add: betternull_init_def kernel_calls good_env_def errno_defs)
qed

end
