(* ===== verification/OtherModules.thy ===== *)
theory OtherModules
  imports ModuleLife
begin

text \<open>
  The \<open>module_init\<close> and \<open>module_exit\<close> functions of the remaining modules under
  \<open>src/src/kernel_standalone\<close>: the two pipe modules, which create one buffer and one node per pipe,
  \<open>clipboard_basic\<close>, the network skeleton \<open>netdev\<close> and the block device \<open>blkdev\<close>. A load that
  writes through a null pointer is \<open>Crash NullDeref\<close>.
\<close>

section \<open>The pipe modules\<close>

text \<open>
  Memory block 0 is the array of pipes, block \<open>Suc i\<close> the buffer of pipe \<open>i\<close>. The constructor of
  \<open>pipe\<close> stores the result of \<open>kmalloc\<close> unchecked; the one of \<open>simple_pipe\<close> reports a null pointer.
\<close>

fun pipe_ctors :: "kenv \<Rightarrow> nat \<Rightarrow> ledger \<Rightarrow> ledger" where
  "pipe_ctors env 0 l = l"
| "pipe_ctors env (Suc n) l = snd (kmalloc env (Suc n) (pipe_ctors env n l))"

fun pipe_dtors :: "kenv \<Rightarrow> nat \<Rightarrow> ledger \<Rightarrow> ledger" where
  "pipe_dtors env 0 l = l"
| "pipe_dtors env (Suc n) l = kfree (kmalloc_ret env (Suc n)) (Suc n) (pipe_dtors env n l)"

text \<open>The loop over the nodes: \<open>None\<close> when all are created, else the error of the first failure.\<close>

fun pipe_devices :: "kenv \<Rightarrow> nat list \<Rightarrow> ledger \<Rightarrow> int option \<times> ledger" where
  "pipe_devices env [] l = (None, l)"
| "pipe_devices env (i # is) l =
     (let (pipe_device, l) = device_create env i l
      in if is_err pipe_device then (Some (ptr_err pipe_device), l) else pipe_devices env is l)"

fun pipe_devices_destroy :: "nat list \<Rightarrow> ledger \<Rightarrow> ledger" where
  "pipe_devices_destroy [] l = l"
| "pipe_devices_destroy (i # is) l = pipe_devices_destroy is (device_destroy i l)"

definition pipe_init :: "nat \<Rightarrow> kenv \<Rightarrow> ledger \<Rightarrow> (int \<times> ledger) outcome" where
  "pipe_init pipes_count env l =
     (let (pipes, l) = kmalloc env 0 l;
          err_return = (\<lambda>ret l. Done (ret, l));
          err_final = (\<lambda>ret l. err_return ret (kfree pipes 0 (pipe_dtors env pipes_count l)));
          err_dealloc = (\<lambda>ret l. err_final ret (unregister_chrdev_region l));
          err_cdev_del = (\<lambda>ret l. err_dealloc ret (cdev_del l));
          err_class = (\<lambda>ret l. err_cdev_del ret (class_destroy l))
      in if is_err pipes then err_return (ptr_err pipes) l
      else if pipes = PtrNull \<and> 0 < pipes_count then Crash NullDeref
      else let l = pipe_ctors env pipes_count l;
               (ret, l) = alloc_chrdev_region env l
      in if ret \<noteq> 0 then err_final ret l
      else let (ret, l) = cdev_add env l
      in if ret \<noteq> 0 then err_dealloc ret l
      else let (my_class, l) = class_create env l
      in if is_err my_class then err_cdev_del (ptr_err my_class) l
      else case pipe_devices env [0..<pipes_count] l of
             (Some ret, l) \<Rightarrow> err_class ret l
           | (None, l) \<Rightarrow> Done (0, l))"

definition pipe_exit :: "nat \<Rightarrow> kenv \<Rightarrow> ledger \<Rightarrow> ledger" where
  "pipe_exit pipes_count env l =
     kfree (kmalloc_ret env 0) 0 (pipe_dtors env pipes_count (unregister_chrdev_region (cdev_del
       (class_destroy (pipe_devices_destroy [0..<pipes_count] l)))))"

text \<open>In \<open>simple_pipe\<close> a constructor that fails at pipe \<open>i\<close> destroys the pipes before it.\<close>

fun simple_pipe_ctors :: "kenv \<Rightarrow> nat \<Rightarrow> nat \<Rightarrow> ledger \<Rightarrow> int \<times> ledger" where
  "simple_pipe_ctors env i 0 l = (0, l)"
| "simple_pipe_ctors env i (Suc k) l =
     (let (data, l) = kmalloc env (Suc i) l
      in if data = PtrNull then (- EFAULT, pipe_dtors env i l)
         else simple_pipe_ctors env (Suc i) k l)"

definition simple_pipe_init :: "nat \<Rightarrow> kenv \<Rightarrow> ledger \<Rightarrow> (int \<times> ledger) outcome" where
  "simple_pipe_init pipes_count env l =
     (let (pipes, l) = kmalloc env 0 l;
          err_return = (\<lambda>ret l. Done (ret, l));
          err_pipes = (\<lambda>ret l. err_return ret (kfree pipes 0 l));
          err_pipes_ctor = (\<lambda>ret l. err_pipes ret (pipe_dtors env pipes_count l));
          err_dealloc = (\<lambda>ret l. err_pipes_ctor ret (unregister_chrdev_region l));
          err_cdev_del = (\<lambda>ret l. err_dealloc ret (cdev_del l));
          err_class = (\<lambda>ret l. err_cdev_del ret (class_destroy l))
      in if is_err pipes then err_return (ptr_err pipes) l
      else if pipes = PtrNull \<and> 0 < pipes_count then Crash NullDeref
      else let (ret, l) = simple_pipe_ctors env 0 pipes_count l
      in if ret \<noteq> 0 then err_pipes ret l
      else let (ret, l) = alloc_chrdev_region env l
      in if ret \<noteq> 0 then err_pipes_ctor ret l
      else let (ret, l) = cdev_add env l
      in if ret \<noteq> 0 then err_dealloc ret l
      else let (my_class, l) = class_create env l
      in if is_err my_class then err_cdev_del (ptr_err my_class) l
      else case pipe_devices env [0..<pipes_count] l of
             (Some ret, l) \<Rightarrow> err_class ret l
           | (None, l) \<Rightarrow> Done (0, l))"

definition simple_pipe_exit :: "nat \<Rightarrow> kenv \<Rightarrow> ledger \<Rightarrow> ledger" where
  "simple_pipe_exit pipes_count env l =
     kfree (kmalloc_ret env 0) 0 (pipe_dtors env pipes_count (unregister_chrdev_region (cdev_del
       (class_destroy (pipe_devices_destroy [0..<pipes_count] l)))))"

section \<open>clipboard_basic\<close>

definition clipboard_basic_init :: "kenv \<Rightarrow> ledger \<Rightarrow> (int \<times> ledger) outcome" where
  "clipboard_basic_init env l =
     (let (buffer, l) = kmalloc env 0 l;
          error_after_alloc = (\<lambda>ret l. Done (ret, kfree buffer 0 l));
          error_after_region = (\<lambda>ret l. error_after_alloc ret (unregister_chrdev_region l));
          error_after_register = (\<lambda>ret l. error_after_region ret (cdev_del_alloced l));
          error_after_class_create = (\<lambda>ret l. error_after_register ret (class_destroy l))
      in if buffer = PtrNull then Crash NullDeref
      else let (ret, l) = alloc_chrdev_region env l
      in if ret \<noteq> 0 then error_after_alloc ret l
      else let (clipboard_cdev, l) = cdev_alloc env l
      in if is_err clipboard_cdev then error_after_region (ptr_err clipboard_cdev) l
      else if clipboard_cdev = PtrNull then Crash NullDeref
      else let (ret, l) = cdev_add env l
      in if ret \<noteq> 0 then error_after_region ret (kfree_cdev l)
      else let (my_class, l) = class_create env l
      in if is_err my_class then error_after_register (ptr_err my_class) l
      else let (clipboard_device, l) = device_create env 0 l
      in if is_err clipboard_device then error_after_class_create (ptr_err clipboard_device) l
      else Done (0, l))"

definition clipboard_basic_cleanup :: "kenv \<Rightarrow> ledger \<Rightarrow> ledger" where
  "clipboard_basic_cleanup env l =
     kfree (kmalloc_ret env 0) 0 (unregister_chrdev_region (cdev_del_alloced (class_destroy
       (device_destroy 0 l))))"

section \<open>netdev\<close>

definition my_netdev_init :: "kenv \<Rightarrow> ledger \<Rightarrow> int \<times> ledger" where
  "my_netdev_init env l =
     (let (my_netdev, l) = acquire_ptr (alloc_etherdev_ret env) EtherMem l
      in if my_netdev = PtrNull then (- ENOMEM, l)
      else let (err, l) = acquire_int (register_netdev_ret env) NetDev l
      in if err \<noteq> 0 then (- ENODEV, release EtherMem l)
      else (0, l))"

definition my_netdev_exit :: "kenv \<Rightarrow> ledger \<Rightarrow> ledger" where
  "my_netdev_exit env l =
     (if alloc_etherdev_ret env \<noteq> PtrNull then release EtherMem (release NetDev l) else l)"

section \<open>blkdev\<close>

text \<open>
  \<open>register_blkdev\<close> with a given major number. The static variable \<open>memblock_major\<close> is 240 at
  first and then holds the returned value. Reading a freed block is a misuse.
\<close>

definition deref :: "resource \<Rightarrow> ledger \<Rightarrow> ledger" where
  "deref r l = (if r \<in># held l then l else l\<lparr>misuse := True\<rparr>)"

definition memblock_init :: "kenv \<Rightarrow> ledger \<Rightarrow> int \<times> ledger" where
  "memblock_init env l =
     (let (memblock_device, l) = kmalloc env 0 l
      in if memblock_device = PtrNull then (- ENOMEM, l)
      else let (data, l) = acquire_ptr (vmalloc_ret env) VMem l
      in if data = PtrNull then (- ENOMEM, kfree memblock_device 0 l)
      else let (memblock_major, l) = acquire_int (register_blkdev_ret env 240) BlkMajor l
      in if memblock_major \<le> 0 then (- EBUSY, kfree memblock_device 0 (release VMem l))
      else let (err, l) = acquire_int (alloc_tag_set_ret env) TagSet l
      in if err \<noteq> 0
      then (err, kfree memblock_device 0 (release VMem (release BlkMajor l)))
      else let (gd, l) = acquire_ptr (alloc_disk_ret env) Disk l
      in if is_err gd
      then (ptr_err gd, deref (Mem 0) (kfree memblock_device 0 (release VMem (release BlkMajor
             (release TagSet l)))))
      else let (err, l) = acquire_int (add_disk_ret env) DiskAdded l
      in if err \<noteq> 0
      then (err, kfree memblock_device 0 (release VMem (release BlkMajor (release TagSet
             (release Disk l)))))
      else (0, l))"

definition memblock_exit :: "kenv \<Rightarrow> ledger \<Rightarrow> ledger" where
  "memblock_exit env l =
     (if kmalloc_ret env 0 \<noteq> PtrNull
      then kfree (kmalloc_ret env 0) 0 (release VMem (release BlkMajor (release TagSet
             (release Disk (release DiskAdded l)))))
      else l)"

section \<open>The loops over the pipes\<close>

definition pipe_blocks :: "kenv \<Rightarrow> nat \<Rightarrow> resource multiset" where
  "pipe_blocks env n = mset (map Mem (filter (\<lambda>i. kmalloc_ret env i = PtrOk) [Suc 0..<Suc n]))"

definition holding :: "bool \<Rightarrow> resource multiset \<Rightarrow> ledger" where
  "holding m h = \<lparr>held = h, misuse = m\<rparr>"

lemma holding_simps [simp]:
  "held (holding m h) = h" "misuse (holding m h) = m" "holding m h = holding m' h' \<longleftrightarrow> m = m' \<and> h = h'"
  "acquire r (holding m h) = holding m (add_mset r h)"
  by (auto simp: holding_def acquire_def)

lemma no_resources_holding: "no_resources = holding False {#}"
  by (simp add: holding_def no_resources_def)

lemma release_holding:
  "\<forall>q \<in># h. \<not> needs q r \<Longrightarrow> release r (holding m (add_mset r h)) = holding m h"
  by (simp add: release_def holding_def)

lemma release_Mem_holding: "release (Mem i) (holding m (add_mset (Mem i) h)) = holding m h"
  by (rule release_holding) simp

lemma pipe_blocks_Suc:
  "pipe_blocks env (Suc n) =
    (if kmalloc_ret env (Suc n) = PtrOk then {#Mem (Suc n)#} else {#}) + pipe_blocks env n"
  by (simp add: pipe_blocks_def)

lemma pipe_blocks_0 [simp]: "pipe_blocks env 0 = {#}"
  by (simp add: pipe_blocks_def)

lemma in_pipe_blocks: "q \<in># pipe_blocks env n \<Longrightarrow> \<exists>i. q = Mem i"
  by (auto simp: pipe_blocks_def)

lemma pipe_ctors_holding: "pipe_ctors env n (holding m h) = holding m (pipe_blocks env n + h)"
  by (induction n) (simp_all add: kmalloc_def acquire_ptr_def pipe_blocks_Suc)

lemma pipe_dtors_holding:
  assumes "\<And>i. null_or_valid (kmalloc_ret env i)"
  shows "pipe_dtors env n (holding m (pipe_blocks env n + h)) = holding m h"
proof (induction n arbitrary: h)
  case 0
  then show ?case by simp
next
  case (Suc n)
  show ?case
  proof (cases "kmalloc_ret env (Suc n) = PtrOk")
    case True
    then have "pipe_dtors env n (holding m (pipe_blocks env (Suc n) + h)) = holding m (add_mset (Mem (Suc n)) h)"
      using Suc.IH [of "add_mset (Mem (Suc n)) h"] by (simp add: pipe_blocks_Suc)
    with True show ?thesis
      by (simp add: kfree_def release_Mem_holding)
  next
    case False
    then have "kmalloc_ret env (Suc n) = PtrNull"
      using assms [of "Suc n"] by (simp add: null_or_valid_def)
    with False Suc.IH [of h] show ?thesis
      by (simp add: kfree_def pipe_blocks_Suc)
  qed
qed

lemma simple_pipe_ctors_ok:
  assumes "\<And>j. i \<le> j \<Longrightarrow> j < i + k \<Longrightarrow> kmalloc_ret env (Suc j) = PtrOk"
  shows "simple_pipe_ctors env i k (holding m (pipe_blocks env i + h)) =
    (0, holding m (pipe_blocks env (i + k) + h))"
  using assms
proof (induction k arbitrary: i)
  case 0
  then show ?case by simp
next
  case (Suc k)
  have "kmalloc_ret env (Suc i) = PtrOk"
    using Suc.prems by simp
  then show ?case
    using Suc.IH [of "Suc i"] Suc.prems by (simp add: kmalloc_def acquire_ptr_def pipe_blocks_Suc)
qed

lemma simple_pipe_ctors_fail:
  assumes "\<And>i. null_or_valid (kmalloc_ret env i)"
    and "\<exists>j. i \<le> j \<and> j < i + k \<and> kmalloc_ret env (Suc j) \<noteq> PtrOk"
  shows "simple_pipe_ctors env i k (holding m (pipe_blocks env i + h)) = (- EFAULT, holding m h)"
  using assms(2)
proof (induction k arbitrary: i)
  case 0
  then show ?case by auto
next
  case (Suc k)
  show ?case
  proof (cases "kmalloc_ret env (Suc i) = PtrOk")
    case True
    with Suc.prems have "\<exists>j. Suc i \<le> j \<and> j < Suc i + k \<and> kmalloc_ret env (Suc j) \<noteq> PtrOk"
      by (metis Suc_leI add_Suc_right add_Suc_shift le_neq_implies_less)
    from Suc.IH [OF this] True show ?thesis
      by (simp add: kmalloc_def acquire_ptr_def pipe_blocks_Suc)
  next
    case False
    then have "kmalloc_ret env (Suc i) = PtrNull"
      using assms(1) [of "Suc i"] by (simp add: null_or_valid_def)
    then show ?thesis
      by (simp add: kmalloc_def acquire_ptr_def pipe_dtors_holding [OF assms(1)])
  qed
qed

lemma pipe_devices_ok:
  "(\<And>i. i \<in> set is \<Longrightarrow> device_create_ret env i = PtrOk) \<Longrightarrow>
    pipe_devices env is (holding m h) = (None, holding m (mset (map Device is) + h))"
  by (induction "is" arbitrary: h) (simp_all add: device_create_def acquire_ptr_def)

lemma pipe_devices_fail:
  assumes "\<And>i. i \<in> set is \<Longrightarrow> device_create_ret env i = PtrOk" and "device_create_ret env j = PtrErr e"
  shows "pipe_devices env (is @ j # js) (holding m h) = (Some e, holding m (mset (map Device is) + h))"
  using assms(1)
  by (induction "is" arbitrary: h) (simp_all add: device_create_def acquire_ptr_def assms(2))

lemma pipe_devices_destroy_holding:
  "pipe_devices_destroy is (holding m (mset (map Device is) + h)) = holding m h"
  by (induction "is") (simp_all add: device_destroy_def release_holding)

lemma first_failure:
  assumes "\<And>i. err_or_valid (device_create_ret env i)"
  shows "(\<forall>i<n. device_create_ret env i = PtrOk) \<or>
    (\<exists>k<n. \<exists>e<0. device_create_ret env k = PtrErr e \<and> (\<forall>i<k. device_create_ret env i = PtrOk))"
proof (induction n)
  case 0
  then show ?case by simp
next
  case (Suc n)
  then show ?case
    using assms [of n] by (auto simp: err_or_valid_def less_Suc_eq)
qed
lemma pipe_block_needs_nothing [simp]: "q \<in># pipe_blocks env n \<Longrightarrow> \<not> needs q r"
  using in_pipe_blocks [of q env n] by (cases r) auto

definition device_nodes :: "nat \<Rightarrow> resource multiset" where
  "device_nodes n = mset (map Device [0..<n])"

lemma device_nodes_lemmas:
  "(\<And>i. i < n \<Longrightarrow> device_create_ret env i = PtrOk) \<Longrightarrow>
    pipe_devices env [0..<n] (holding m h) = (None, holding m (device_nodes n + h))"
  "pipe_devices_destroy [0..<n] (holding m (device_nodes n + h)) = holding m h"
  unfolding device_nodes_def
  by (rule pipe_devices_ok, simp) (rule pipe_devices_destroy_holding)

text \<open>What both modules do after the buffers have been allocated.\<close>

definition pipe_base :: "kenv \<Rightarrow> nat \<Rightarrow> resource multiset" where
  "pipe_base env n = pipe_blocks env n + {#Mem 0#}"

lemma in_pipe_base: "q \<in># pipe_base env n \<Longrightarrow> \<exists>i. q = Mem i"
  using in_pipe_blocks by (auto simp: pipe_base_def)

lemma free_pipes:
  assumes "\<And>i. null_or_valid (kmalloc_ret env i)" and "kmalloc_ret env 0 = PtrOk"
  shows "kfree PtrOk 0 (pipe_dtors env n (holding m (pipe_base env n))) = holding m {#}"
  using pipe_dtors_holding [OF assms(1), of n m "{#Mem 0#}"] assms(2)
  by (simp add: pipe_base_def kfree_def release_Mem_holding)

lemma undo_simps:
  "release Region (holding m (add_mset Region (pipe_base env n))) =
    holding m (pipe_base env n)"
  "release Cdev (holding m (add_mset Cdev (add_mset Region (pipe_base env n)))) =
    holding m (add_mset Region (pipe_base env n))"
  "release Class (holding m (add_mset Class (add_mset Cdev (add_mset Region (pipe_base env n))))) =
    holding m (add_mset Cdev (add_mset Region (pipe_base env n)))"
  by (rule release_holding; use in_pipe_base in fastforce)+

lemma no_device_fails:
  assumes "\<And>i. err_or_valid (device_create_ret env i)"
    and "\<And>i. 0 < i \<Longrightarrow> i < n \<Longrightarrow> device_create_ret env i = PtrOk"
  shows "(\<exists>e<0. pipe_devices env [0..<n] (holding m h) = (Some e, holding m h)) \<or>
    pipe_devices env [0..<n] (holding m h) = (None, holding m (device_nodes n + h))"
proof (cases "n = 0 \<or> device_create_ret env 0 = PtrOk")
  case True
  then have "device_create_ret env i = PtrOk" if "i \<in> set [0..<n]" for i
    using assms(2) [of i] that by (cases i) auto
  then show ?thesis
    using device_nodes_lemmas(1) [of n env m h] by simp
next
  case False
  then obtain e where "e < 0" "device_create_ret env 0 = PtrErr e"
    using assms(1) [of 0] by (auto simp: err_or_valid_def)
  moreover from False have "[0..<n] = 0 # [Suc 0..<n]"
    by (simp add: upt_conv_Cons)
  ultimately show ?thesis
    using pipe_devices_fail [of "[]" env 0 e "[Suc 0..<n]" m h] by auto
qed

lemma pipe_init_cases:
  assumes ok: "kenv_ok env" and mem: "kmalloc_ret env 0 = PtrOk"
    and dev: "\<And>i. 0 < i \<Longrightarrow> i < n \<Longrightarrow> device_create_ret env i = PtrOk"
  shows "(\<exists>err. err \<noteq> 0 \<and> pipe_init n env no_resources = Done (err, no_resources)) \<or>
    pipe_init n env no_resources = Done (0, holding False (device_nodes n +
      add_mset Class (add_mset Cdev (add_mset Region (pipe_base env n)))))"
proof -
  note d = kenv_okD(1) [OF ok]
  have nv: "\<And>i. null_or_valid (kmalloc_ret env i)" and ev: "\<And>i. err_or_valid (device_create_ret env i)"
    using kenv_okD [OF ok] by blast+
  note fp = free_pipes [OF nv mem]
  have ct: "pipe_ctors env n (holding False {#Mem 0#}) = holding False (pipe_base env n)"
    by (simp add: pipe_ctors_holding pipe_base_def)
  let ?h = "add_mset Class (add_mset Cdev (add_mset Region (pipe_base env n)))"
  note init = pipe_init_def kmalloc_def acquire_int_def acquire_ptr_def alloc_chrdev_region_def
    cdev_add_def class_create_def unregister_chrdev_region_def cdev_del_def class_destroy_def
    mem no_resources_holding ct undo_simps fp Let_def
  consider e where "e < 0" "pipe_devices env [0..<n] (holding False ?h) = (Some e, holding False ?h)"
    | "pipe_devices env [0..<n] (holding False ?h) = (None, holding False (device_nodes n + ?h))"
    using no_device_fails [OF ev dev, of n False ?h] by blast
  then show ?thesis
    using d by cases (elim err_or_validE; simp add: init)+
qed

lemma pipe_exit_holding:
  assumes ok: "kenv_ok env" and mem: "kmalloc_ret env 0 = PtrOk"
  shows "pipe_exit n env (holding m (device_nodes n +
      add_mset Class (add_mset Cdev (add_mset Region (pipe_base env n))))) = holding m {#}"
proof -
  have nv: "\<And>i. null_or_valid (kmalloc_ret env i)"
    using kenv_okD(5) [OF ok] by blast
  show ?thesis
    by (simp only: pipe_exit_def device_nodes_lemmas(2) class_destroy_def cdev_del_def
        unregister_chrdev_region_def undo_simps mem free_pipes [OF nv mem])
qed

lemma simple_pipe_init_cases:
  assumes ok: "kenv_ok env" and mem: "kmalloc_ret env 0 = PtrOk"
    and dev: "\<And>i. 0 < i \<Longrightarrow> i < n \<Longrightarrow> device_create_ret env i = PtrOk"
  shows "(\<exists>err. err \<noteq> 0 \<and> simple_pipe_init n env no_resources = Done (err, no_resources)) \<or>
    simple_pipe_init n env no_resources = Done (0, holding False (device_nodes n +
      add_mset Class (add_mset Cdev (add_mset Region (pipe_base env n)))))"
proof -
  note d = kenv_okD(1) [OF ok]
  have nv: "\<And>i. null_or_valid (kmalloc_ret env i)" and ev: "\<And>i. err_or_valid (device_create_ret env i)"
    using kenv_okD [OF ok] by blast+
  note fp = free_pipes [OF nv mem]
  let ?h = "add_mset Class (add_mset Cdev (add_mset Region (pipe_base env n)))"
  note init = simple_pipe_init_def kmalloc_def acquire_int_def acquire_ptr_def alloc_chrdev_region_def
    cdev_add_def class_create_def unregister_chrdev_region_def cdev_del_def class_destroy_def
    mem no_resources_holding undo_simps fp Let_def
  consider (bad) "\<exists>j<n. kmalloc_ret env (Suc j) \<noteq> PtrOk" | (good) "\<And>j. j < n \<Longrightarrow> kmalloc_ret env (Suc j) = PtrOk"
    by blast
  then show ?thesis
  proof cases
    case bad
    then have "simple_pipe_ctors env 0 n (holding False {#Mem 0#}) = (- EFAULT, holding False {#Mem 0#})"
      using simple_pipe_ctors_fail [OF nv, of 0 n False "{#Mem 0#}"] by auto
    then show ?thesis
      by (simp add: init errno_defs) (simp add: kfree_def release_Mem_holding)
  next
    case good
    then have ct: "simple_pipe_ctors env 0 n (holding False {#Mem 0#}) = (0, holding False (pipe_base env n))"
      using simple_pipe_ctors_ok [of 0 n env False "{#Mem 0#}"] by (simp add: pipe_base_def)
    consider e where "e < 0" "pipe_devices env [0..<n] (holding False ?h) = (Some e, holding False ?h)"
      | "pipe_devices env [0..<n] (holding False ?h) = (None, holding False (device_nodes n + ?h))"
      using no_device_fails [OF ev dev, of n False ?h] by blast
    then show ?thesis
      using d by cases (elim err_or_validE; simp add: init ct)+
  qed
qed

interpretation netdev: module_lifecycle my_netdev_init my_netdev_exit
proof
  fix env err l assume "kenv_ok env"
  note d = kenv_okD(7) [OF this]
  show "my_netdev_init env no_resources = (err, l) \<Longrightarrow> err \<noteq> 0 \<Longrightarrow> l = no_resources"
    "my_netdev_init env no_resources = (0, l) \<Longrightarrow> my_netdev_exit env l = no_resources"
    using d by (auto simp: my_netdev_init_def my_netdev_exit_def kernel_calls errno_defs split: if_splits
        elim!: null_or_validE)
qed

lemma simple_pipe_exit_eq: "simple_pipe_exit = pipe_exit"
  by (simp add: fun_eq_iff simple_pipe_exit_def pipe_exit_def)

section \<open>Properties\<close>

text \<open>Both pipe modules, for any number of pipes, give back what they took when the array of pipes
  can be allocated and no node after the first fails to be created: a failed load (a buffer that
  cannot be allocated included) leaves nothing behind, and an unload after a successful load
  releases the nodes, the class, the device, the numbers and every buffer. The network skeleton does
  so for every combination of failures.\<close>

theorem pipe_modules_clean:
  assumes "kenv_ok env" and "kmalloc_ret env 0 = PtrOk"
    and "\<And>i. 0 < i \<Longrightarrow> i < n \<Longrightarrow> device_create_ret env i = PtrOk"
  shows "(\<exists>err l. pipe_init n env no_resources = Done (err, l) \<and>
      (if err = 0 then pipe_exit n env l = no_resources else l = no_resources)) \<and>
    (\<exists>err l. simple_pipe_init n env no_resources = Done (err, l) \<and>
      (if err = 0 then simple_pipe_exit n env l = no_resources else l = no_resources)) \<and>
    clean_module my_netdev_init my_netdev_exit"
  using pipe_init_cases [OF assms, of n] simple_pipe_init_cases [OF assms, of n]
    pipe_exit_holding [OF assms(1,2), of n False] netdev.clean
  unfolding simple_pipe_exit_eq no_resources_holding by metis

theorem pipe_modules_clean_witness:
  "\<exists>l. pipe_init 8 good_env no_resources = Done (0, l) \<and> pipe_exit 8 good_env l = no_resources"
proof -
  have m: "kmalloc_ret good_env 0 = PtrOk" and d: "device_create_ret good_env i = PtrOk" for i
    by (simp_all add: good_env_def)
  have "\<exists>l. pipe_init 8 good_env no_resources = Done (0, l)"
    using device_nodes_lemmas(1) [of 8 good_env False] d
    by (simp add: pipe_init_def kernel_calls no_resources_holding pipe_ctors_holding good_env_def
        del: upt_rec_numeral)
  with pipe_modules_clean [OF good_env_ok m d, of 8] show ?thesis
    by auto
qed

text \<open>When the node of a later pipe cannot be created, both pipe modules destroy the class while the
  nodes of the earlier pipes still exist, and those nodes are never removed.\<close>

theorem pipe_modules_leak_nodes:
  assumes "kenv_ok env" and "\<And>i. kmalloc_ret env i = PtrOk" and "alloc_chrdev_region_ret env = 0"
    and "cdev_add_ret env = 0" and "class_create_ret env = PtrOk"
    and "0 < k" and "k < n" and "device_create_ret env k = PtrErr e"
    and "\<And>i. i < k \<Longrightarrow> device_create_ret env i = PtrOk"
  shows "\<exists>l. pipe_init n env no_resources = Done (e, l) \<and> simple_pipe_init n env no_resources = Done (e, l) \<and>
    misuse l \<and> (\<forall>i<k. Device i \<in># held l)"
proof -
  let ?b = "add_mset Class (add_mset Cdev (add_mset Region (pipe_base env n)))"
  have "[0..<n] = [0..<k] @ k # [Suc k..<n]"
    using assms(7) by (metis le0 less_imp_le_nat upt_add_eq_append upt_conv_Cons le_add_diff_inverse)
  then have dv: "pipe_devices env [0..<n] (holding False ?b) = (Some e, holding False (device_nodes k + ?b))"
    using pipe_devices_fail [of "[0..<k]" env k e "[Suc k..<n]" False ?b] assms(8,9)
    by (simp add: device_nodes_def)
  have "Device 0 \<in># device_nodes k"
    using assms(6) by (simp add: device_nodes_def)
  then have cl: "release Class (holding False (device_nodes k + ?b)) = holding True (device_nodes k + ?b)"
    by (force simp: release_def holding_def)
  have cd: "release Cdev (holding True (device_nodes k + ?b)) =
      holding True (device_nodes k + add_mset Class (add_mset Region (pipe_base env n)))"
    by (simp add: release_def holding_def)
  have "\<forall>q \<in># device_nodes k + add_mset Class (pipe_base env n). \<not> needs q Region"
    using in_pipe_base by (fastforce simp: device_nodes_def)
  then have rg: "release Region (holding True (device_nodes k + add_mset Class (add_mset Region (pipe_base env n)))) =
      holding True (pipe_blocks env n + (add_mset (Mem 0) (device_nodes k + {#Class#})))"
    using release_holding [of "device_nodes k + add_mset Class (pipe_base env n)" Region True]
    by (simp add: pipe_base_def ac_simps add_mset_commute)
  have nv: "null_or_valid (kmalloc_ret env i)" for i
    using assms(2) by (simp add: null_or_valid_def)
  note dt = pipe_dtors_holding [OF nv, of n True "add_mset (Mem 0) (device_nodes k + {#Class#})"]
  let ?l = "holding True (device_nodes k + {#Class#})"
  have ct: "pipe_ctors env n (holding False {#Mem 0#}) = holding False (pipe_base env n)"
    "simple_pipe_ctors env 0 n (holding False {#Mem 0#}) = (0, holding False (pipe_base env n))"
    using simple_pipe_ctors_ok [of 0 n env False "{#Mem 0#}"] assms(2)
    by (simp_all add: pipe_ctors_holding pipe_base_def)
  note init = kmalloc_def acquire_int_def acquire_ptr_def alloc_chrdev_region_def cdev_add_def
    class_create_def unregister_chrdev_region_def cdev_del_def class_destroy_def
    assms(2-5) no_resources_holding ct Let_def
  have "pipe_init n env no_resources = Done (e, ?l)" "simple_pipe_init n env no_resources = Done (e, ?l)"
    using dv cl cd rg dt
    by (simp_all add: pipe_init_def simple_pipe_init_def init kfree_def release_Mem_holding
        del: union_mset_add_mset_right union_mset_add_mset_left)
  moreover have "misuse ?l \<and> (\<forall>i<k. Device i \<in># held ?l)"
    by (simp add: device_nodes_def)
  ultimately show ?thesis by blast
qed

theorem pipe_modules_leak_nodes_witness:
  "\<exists>l. pipe_init 2 (good_env\<lparr>device_create_ret := \<lambda>i. if i = 0 then PtrOk else PtrErr (- ENOMEM)\<rparr>) no_resources =
     Done (- ENOMEM, l) \<and> misuse l \<and> Device 0 \<in># held l"
proof -
  let ?env = "good_env\<lparr>device_create_ret := \<lambda>i. if i = 0 then PtrOk else PtrErr (- ENOMEM)\<rparr>"
  have ok: "kenv_ok ?env"
    using good_env_ok by (simp add: kenv_ok_def err_or_valid_def errno_defs)
  have "\<exists>l. pipe_init 2 ?env no_resources = Done (- ENOMEM, l) \<and>
      simple_pipe_init 2 ?env no_resources = Done (- ENOMEM, l) \<and> misuse l \<and> (\<forall>i<1. Device i \<in># held l)"
    by (rule pipe_modules_leak_nodes [OF ok]) (simp_all add: good_env_def)
  then show ?thesis
    by auto
qed

text \<open>\<open>kmalloc\<close> and \<open>cdev_alloc\<close> report failure with a null pointer, but the pipe modules test the
  array of pipes, and \<open>clipboard_basic\<close> its character device, with \<open>IS_ERR\<close>, which is false for a
  null pointer; \<open>clipboard_basic\<close> does not test its buffer at all. Each of these loads then writes
  through the null pointer. When these allocations succeed, \<open>clipboard_basic\<close> keeps the contract of
  a module.\<close>

theorem unchecked_null_pointers:
  assumes "kenv_ok env" and "0 < n"
  shows "(kmalloc_ret env 0 = PtrNull \<longrightarrow> pipe_init n env no_resources = Crash NullDeref \<and>
      simple_pipe_init n env no_resources = Crash NullDeref \<and>
      clipboard_basic_init env no_resources = Crash NullDeref) \<and>
    (kmalloc_ret env 0 = PtrOk \<and> alloc_chrdev_region_ret env = 0 \<and> cdev_alloc_ret env = PtrNull \<longrightarrow>
      clipboard_basic_init env no_resources = Crash NullDeref) \<and>
    (kmalloc_ret env 0 = PtrOk \<and> cdev_alloc_ret env = PtrOk \<longrightarrow>
      (\<exists>err l. clipboard_basic_init env no_resources = Done (err, l) \<and>
        (if err = 0 then clipboard_basic_cleanup env l = no_resources else l = no_resources)))"
proof -
  note d = kenv_okD(1) [OF assms(1)] kenv_okD(2) [OF assms(1), of 0]
  have "kmalloc_ret env 0 = PtrNull \<Longrightarrow> pipe_init n env no_resources = Crash NullDeref \<and>
      simple_pipe_init n env no_resources = Crash NullDeref \<and>
      clipboard_basic_init env no_resources = Crash NullDeref"
    using assms(2) by (simp add: pipe_init_def simple_pipe_init_def clipboard_basic_init_def kernel_calls)
  moreover have "kmalloc_ret env 0 = PtrOk \<Longrightarrow> alloc_chrdev_region_ret env = 0 \<Longrightarrow>
      cdev_alloc_ret env = PtrNull \<Longrightarrow> clipboard_basic_init env no_resources = Crash NullDeref"
    by (simp add: clipboard_basic_init_def kernel_calls)
  moreover have "kmalloc_ret env 0 = PtrOk \<Longrightarrow> cdev_alloc_ret env = PtrOk \<Longrightarrow>
      \<exists>err l. clipboard_basic_init env no_resources = Done (err, l) \<and>
        (if err = 0 then clipboard_basic_cleanup env l = no_resources else l = no_resources)"
    using d by (auto simp: clipboard_basic_init_def clipboard_basic_cleanup_def kernel_calls
        elim!: err_or_validE)
  ultimately show ?thesis by blast
qed

theorem unchecked_null_pointers_witness:
  "pipe_init 8 (good_env\<lparr>kmalloc_ret := \<lambda>_. PtrNull\<rparr>) no_resources = Crash NullDeref \<and>
   clipboard_basic_init (good_env\<lparr>cdev_alloc_ret := PtrNull\<rparr>) no_resources = Crash NullDeref"
proof -
  have "kenv_ok (good_env\<lparr>kmalloc_ret := \<lambda>_. PtrNull\<rparr>)" "kenv_ok (good_env\<lparr>cdev_alloc_ret := PtrNull\<rparr>)"
    using good_env_ok by (simp_all add: kenv_ok_def null_or_valid_def)
  from this [THEN unchecked_null_pointers, of 8] show ?thesis
    by (simp add: good_env_def)
qed

text \<open>The block device never loads. \<open>register_blkdev\<close> returns 0 when it registers the major number
  that was asked for, and \<open>memblock_init\<close> takes 0 for a failure: it returns \<open>-EBUSY\<close> (or
  \<open>-ENOMEM\<close>) in every environment, and when the registration succeeded the major number stays
  registered.\<close>

theorem memblock_never_loads:
  assumes "kenv_ok env"
  shows "fst (memblock_init env no_resources) \<in> {- ENOMEM, - EBUSY} \<and>
    held (snd (memblock_init env no_resources)) =
      (if kmalloc_ret env 0 = PtrOk \<and> vmalloc_ret env = PtrOk \<and> register_blkdev_ret env 240 = 0
       then {#BlkMajor#} else {#})"
proof -
  have r: "register_blkdev_ret env 240 \<le> 0"
    using assms by (simp add: kenv_ok_def)
  note d = kenv_okD(5) [OF assms, of 0] kenv_okD(8) [OF assms]
  show ?thesis
    using d r by (elim null_or_validE)
      (simp_all add: memblock_init_def kernel_calls, simp add: release_def acquire_def no_resources_def)
qed

theorem memblock_never_loads_witness:
  "memblock_init good_env no_resources = (- EBUSY, \<lparr>held = {#BlkMajor#}, misuse = False\<rparr>)"
proof -
  have "held (snd (memblock_init good_env no_resources)) = {#BlkMajor#}"
    using memblock_never_loads [OF good_env_ok] by (simp add: good_env_def)
  then show ?thesis
    by (simp add: memblock_init_def kernel_calls good_env_def release_def acquire_def no_resources_def
        split: if_splits)
qed

end
