(* ===== verification/CharDev.thy ===== *)
theory CharDev
  imports KernelApi
begin

text \<open>
  The file operations of the simple character devices under \<open>src/src/kernel_standalone\<close>:
  \<open>mynull\<close>, \<open>betternull\<close>, \<open>myzero\<close> (as configured, with \<open>DO_CLEAR\<close>), \<open>use_count\<close>, \<open>aaa\<close>,
  \<open>markveltzer\<close>, \<open>myempty\<close>, \<open>clipboard_basic\<close> and \<open>clipboard\<close>, and the interrupt handlers. An
  operation takes user memory and the file position and returns the value of the system call with
  both updated.
\<close>

section \<open>Null, zero and constant devices\<close>

definition mynull_write_null :: "u64 \<Rightarrow> u64 \<Rightarrow> u64 \<times> u64" where
  "mynull_write_null count ppos = (count, ppos + count)"

definition betternull_write_null :: "u64 \<Rightarrow> u64 \<Rightarrow> u64 \<times> u64" where
  "betternull_write_null count ppos = (count, ppos + count)"

text \<open>\<open>myzero\<close> keeps the result of \<open>clear_user\<close>, an \<open>unsigned long\<close>, in an \<open>int\<close>.\<close>

definition myzero_read_zero :: "uaccess \<Rightarrow> umem \<Rightarrow> u64 \<Rightarrow> u64 \<Rightarrow> u64 \<Rightarrow> u64 \<times> u64 \<times> umem" where
  "myzero_read_zero ua um buf count ppos =
     (let (um, left) = clear_user ua um buf (unat count);
          ret = (of_nat left :: u32)
      in if ret \<noteq> 0 then (ssize_err EFAULT, ppos, um) else (count, ppos + count, um))"

definition use_count_read_zero :: "uaccess \<Rightarrow> umem \<Rightarrow> u64 \<Rightarrow> u64 \<Rightarrow> u64 \<Rightarrow> u64 \<times> u64 \<times> umem" where
  "use_count_read_zero ua um buf count ppos =
     (let (um, left) = clear_user ua um buf (unat count)
      in if left \<noteq> 0 then (ssize_err EFAULT, ppos, um) else (count, ppos, um))"

definition myempty_read_empty :: "umem \<Rightarrow> u64 \<Rightarrow> u64 \<Rightarrow> u64 \<Rightarrow> u64 \<times> u64 \<times> umem" where
  "myempty_read_empty um buf count ppos = (count, ppos, um)"

text \<open>The loop of \<open>read_aaa\<close>: \<open>None\<close> when all bytes are stored, else the error of \<open>__put_user\<close>.\<close>

fun aaa_loop :: "uaccess \<Rightarrow> umem \<Rightarrow> u64 \<Rightarrow> nat \<Rightarrow> int option \<times> umem" where
  "aaa_loop ua um buf 0 = (None, um)"
| "aaa_loop ua um buf (Suc remaining) =
     (let (um, ret) = put_user ua um buf 97
      in if ret < 0 then (Some ret, um) else aaa_loop ua um (buf + 1) remaining)"

definition aaa_read_aaa :: "uaccess \<Rightarrow> umem \<Rightarrow> u64 \<Rightarrow> u64 \<Rightarrow> u64 \<Rightarrow> u64 \<times> u64 \<times> umem" where
  "aaa_read_aaa ua um buf count ppos =
     (if \<not> access_ok ua buf (unat count) then (0, ppos, um)
      else case aaa_loop ua um buf (unat count) of
             (Some ret, um) \<Rightarrow> (word_of_int ret, ppos, um)
           | (None, um) \<Rightarrow> (count, ppos, um))"

text \<open>The characters of \<open>my_buf\<close> in \<open>markveltzer\<close>.\<close>

definition markveltzer_buf :: "byte list" where
  "markveltzer_buf = [109, 97, 114, 107, 118, 101, 108, 116, 122, 101, 114]"

definition markveltzer_read :: "uaccess \<Rightarrow> umem \<Rightarrow> u64 \<Rightarrow> u64 \<Rightarrow> u64 \<Rightarrow> u64 \<times> u64 \<times> umem" where
  "markveltzer_read ua um buf count ppos =
     (if count < 11 then (ssize_err EFAULT, ppos, um)
      else let (um, left) = copy_to_user ua um buf markveltzer_buf
      in if left \<noteq> 0 then (ssize_err EFAULT, ppos, um) else (11, ppos + 11, um))"

section \<open>The clipboards\<close>

text \<open>\<open>min\<close> on \<open>loff_t\<close>, a signed 64-bit type.\<close>

definition smin :: "u64 \<Rightarrow> u64 \<Rightarrow> u64" where
  "smin a b = (if sint a < sint b then a else b)"

text \<open>
  The number of bytes is computed in \<open>loff_t\<close> and kept in an \<open>int\<close>. A copy from or to a range that
  is not inside the buffer is \<open>Crash OutOfBounds\<close>.
\<close>

definition clipboard_basic_read ::
  "uaccess \<Rightarrow> umem \<Rightarrow> byte list \<Rightarrow> u64 \<Rightarrow> u64 \<Rightarrow> u64 \<Rightarrow> (u64 \<times> u64 \<times> umem) outcome" where
  "clipboard_basic_read ua um buffer user_buf count offset =
     (let bytes_to_read = (ucast (smin (4096 - offset) count) :: u32)
      in if bytes_to_read = 0 then Done (0, offset, um)
      else let n = unat (scast bytes_to_read :: u64)
      in if length buffer < unat offset + n then Crash OutOfBounds
      else let (um, left) = copy_to_user ua um user_buf (chunk buffer (unat offset) n);
               ret = (of_nat left :: u32)
      in if ret \<noteq> 0 then Done (scast ret, offset, um)
         else Done (scast bytes_to_read, offset + scast bytes_to_read, um))"

definition clipboard_basic_write ::
  "uaccess \<Rightarrow> umem \<Rightarrow> byte list \<Rightarrow> u64 \<Rightarrow> u64 \<Rightarrow> u64 \<Rightarrow> (u64 \<times> u64 \<times> byte list) outcome" where
  "clipboard_basic_write ua um buffer user_buf count offset =
     (let bytes_to_write = (ucast (smin (4096 - offset) count) :: u32)
      in if bytes_to_write = 0 then Done (ssize_err EIO, offset, buffer)
      else let n = unat (scast bytes_to_write :: u64)
      in if length buffer < unat offset + n then Crash OutOfBounds
      else let (bs, left) = copy_from_user ua um user_buf n;
               ret = (of_nat left :: u32);
               buffer = blit buffer (unat offset) bs
      in if ret \<noteq> 0 then Done (scast ret, offset, buffer)
         else Done (scast bytes_to_write, offset + scast bytes_to_write, buffer))"

text \<open>
  \<open>clipboard\<close>: a reader clears \<open>flag\<close> and waits for the interrupt handler to set it; the copy is the
  second part of the operation. The result of the first part is the number of bytes to copy, or
  \<open>None\<close> when the call returns 0 at once.
\<close>

record clipboard_state =
  clipboard_data :: "byte list"
  clipboard_flag :: u32

definition clipboard_read_begin :: "clipboard_state \<Rightarrow> u64 \<Rightarrow> u64 \<Rightarrow> u32 option \<times> clipboard_state" where
  "clipboard_read_begin s count offset =
     (let remaining_bytes = (ucast (smin (4096 - offset) count) :: u32)
      in if remaining_bytes = 0 then (None, s)
         else (Some remaining_bytes, s\<lparr>clipboard_flag := 0\<rparr>))"

definition clipboard_read_end ::
  "uaccess \<Rightarrow> umem \<Rightarrow> clipboard_state \<Rightarrow> u32 \<Rightarrow> u64 \<Rightarrow> u64 \<Rightarrow> (u64 \<times> u64 \<times> umem) outcome" where
  "clipboard_read_end ua um s remaining_bytes user_buf offset =
     (let n = unat (scast remaining_bytes :: u64)
      in if length (clipboard_data s) < unat offset + n then Crash OutOfBounds
      else let (um, left) = copy_to_user ua um user_buf (chunk (clipboard_data s) (unat offset) n);
               ret = (of_nat left :: u32)
      in if ret \<noteq> 0 then Done (scast ret, offset, um)
         else Done (scast remaining_bytes, offset + scast remaining_bytes, um))"

definition clipboard_int_handler :: "clipboard_state \<Rightarrow> clipboard_state" where
  "clipboard_int_handler s = s\<lparr>clipboard_flag := 1\<rparr>"

text \<open>The waiting loop of \<open>clipboard_write\<close>; every round is one return of
  \<open>wait_event_interruptible\<close>. The rounds are bounded by fuel, \<open>None\<close> means the loop is still
  running.\<close>

fun clipboard_write_wait :: "nat \<Rightarrow> u64 \<Rightarrow> u64 \<Rightarrow> u32 option" where
  "clipboard_write_wait 0 count offset = None"
| "clipboard_write_wait (Suc rounds) count offset =
     (let remaining_bytes = (ucast (smin (4096 - offset) count) :: u32)
      in if remaining_bytes = 0 then clipboard_write_wait rounds count offset
         else Some remaining_bytes)"

definition clipboard_write ::
  "nat \<Rightarrow> uaccess \<Rightarrow> umem \<Rightarrow> clipboard_state \<Rightarrow> u64 \<Rightarrow> u64 \<Rightarrow> u64 \<Rightarrow>
    (u64 \<times> u64 \<times> clipboard_state) outcome option" where
  "clipboard_write rounds ua um s user_buf count offset =
     (case clipboard_write_wait rounds count offset of
        None \<Rightarrow> None
      | Some remaining_bytes \<Rightarrow> Some (
          let n = unat (scast remaining_bytes :: u64)
          in if length (clipboard_data s) < unat offset + n then Crash OutOfBounds
          else let (bs, left) = copy_from_user ua um user_buf n;
                   ret = (of_nat left :: u32);
                   s = s\<lparr>clipboard_data := blit (clipboard_data s) (unat offset) bs\<rparr>
          in if ret \<noteq> 0 then Done (scast ret, offset, s)
             else Done (scast remaining_bytes, offset + scast remaining_bytes, s)))"

text \<open>\<open>irqcatch\<close> counts interrupts in an \<open>unsigned int\<close>.\<close>

definition irqcatch_int_handler :: "u32 \<Rightarrow> u32" where
  "irqcatch_int_handler counter = counter + 1"

section \<open>How many bytes a clipboard call transfers\<close>

lemma transfer_size:
  assumes "unat offset \<le> 4096" and "unat count < 2 ^ 63"
  shows "unat (smin (4096 - offset) count) = min (4096 - unat offset) (unat count)"
proof -
  have "offset \<le> 4096"
    using assms(1) by (simp add: word_le_nat_alt)
  then have d: "unat (4096 - offset) = 4096 - unat offset"
    by (simp add: unat_diff_u64)
  have "sint (4096 - offset) = int (4096 - unat offset)"
    using d by (subst sint_small_u64) simp_all
  moreover have "sint count = int (unat count)"
    by (rule sint_small_u64 [OF assms(2)])
  ultimately have "sint (4096 - offset) < sint count \<longleftrightarrow> 4096 - unat offset < unat count"
    by (simp only: of_nat_less_iff)
  then show ?thesis
    using d by (simp add: smin_def)
qed

lemma transfer_size_int:
  assumes "unat offset \<le> 4096" and "unat count < 2 ^ 63"
    and n: "n = min (4096 - unat offset) (unat count)"
  shows "(ucast (smin (4096 - offset) count) :: u32) = 0 \<longleftrightarrow> n = 0"
    "(scast (ucast (smin (4096 - offset) count) :: u32) :: u64) = of_nat n"
proof -
  have u: "unat (smin (4096 - offset) count) = n"
    using transfer_size [OF assms(1,2)] n by simp
  then have w: "smin (4096 - offset) count = of_nat n"
    by (simp flip: u)
  have small: "n < 2 ^ 31"
    using n by simp
  show "(scast (ucast (smin (4096 - offset) count) :: u32) :: u64) = of_nat n"
    using scast_ucast_small [of "smin (4096 - offset) count"] u small w by simp
  have "(ucast (smin (4096 - offset) count) :: u32) = of_nat n"
    unfolding w using small by (simp add: unsigned_of_nat take_bit_nat_eq_self)
  then show "(ucast (smin (4096 - offset) count) :: u32) = 0 \<longleftrightarrow> n = 0"
    using small of_nat_u32_eq_0 [of n] by simp
qed

lemma clipboard_basic_write_ok:
  assumes "length buffer = 4096" and "unat offset \<le> 4096" and "unat count < 2 ^ 63"
    and "copy_from_user_law ua" and "user_readable ua user_buf (unat count)"
    and n: "n = min (4096 - unat offset) (unat count)" and "0 < n"
  shows "clipboard_basic_write ua um buffer user_buf count offset =
    Done (of_nat n, offset + of_nat n, blit buffer (unat offset) (user_bytes um user_buf n))"
proof -
  note t = transfer_size_int [OF assms(2,3) n]
  have u: "unat (of_nat n :: u64) = n"
    using n by (intro unat_of_nat_u64) simp
  have "snd (copy_from_user ua um (user_buf + of_nat 0) n) = 0"
    using assms(5) n unfolding user_readable_def by (metis add_0 min.cobounded2)
  then have "copy_from_user ua um user_buf n = (user_bytes um user_buf n, 0)"
    using copy_from_user_ok [OF assms(4)] by simp
  moreover have "unat offset + n \<le> 4096"
    using assms(2) n by auto
  ultimately show ?thesis
    using t u assms(1,7)
    by (simp add: clipboard_basic_write_def Let_def)
qed

lemma clipboard_basic_read_ok:
  assumes "length buffer = 4096" and "unat offset \<le> 4096" and "unat count < 2 ^ 63"
    and "copy_to_user_law ua" and "user_writable ua user_buf (unat count)"
    and n: "n = min (4096 - unat offset) (unat count)" and "0 < n"
  shows "clipboard_basic_read ua um buffer user_buf count offset =
    Done (of_nat n, offset + of_nat n, user_store um user_buf (chunk buffer (unat offset) n))"
proof -
  note t = transfer_size_int [OF assms(2,3) n]
  have u: "unat (of_nat n :: u64) = n"
    using n by (intro unat_of_nat_u64) simp
  have len: "length (chunk buffer (unat offset) n) \<le> unat count"
    using n by (simp add: chunk_def)
  have "snd (copy_to_user ua um (user_buf + of_nat 0) (chunk buffer (unat offset) n)) = 0"
    using assms(5) len unfolding user_writable_def by (metis add_0)
  then have "copy_to_user ua um user_buf (chunk buffer (unat offset) n) =
      (user_store um user_buf (chunk buffer (unat offset) n), 0)"
    using copy_to_user_ok [OF assms(4)] by simp
  moreover have "unat offset + n \<le> 4096"
    using assms(2) n by auto
  ultimately show ?thesis
    using t u assms(1,7)
    by (simp add: clipboard_basic_read_def Let_def)
qed

section \<open>Properties\<close>

text \<open>C34: What is written to \<open>clipboard_basic\<close> can be read back: a write of \<open>count\<close> bytes at a position
  inside the buffer stores as many bytes as fit, and a read of the same size at the same position,
  into any buffer, returns the same number and exactly the bytes that were written; the rest of the
  clipboard is unchanged.\<close>

theorem clipboard_basic_roundtrip:
  assumes "length buffer = 4096" and "unat offset < 4096" and "0 < unat count" and "unat count < 2 ^ 63"
    and "uaccess_laws ua" and "user_readable ua src (unat count)" and "user_writable ua dst (unat count)"
  shows "\<exists>n buffer' um'. n = min (4096 - unat offset) (unat count) \<and>
    clipboard_basic_write ua um buffer src count offset = Done (of_nat n, offset + of_nat n, buffer') \<and>
    clipboard_basic_read ua um buffer' dst count offset = Done (of_nat n, offset + of_nat n, um') \<and>
    user_bytes um' dst n = user_bytes um src n \<and> length buffer' = 4096 \<and>
    (\<forall>i<4096. i < unat offset \<or> unat offset + n \<le> i \<longrightarrow> buffer' ! i = buffer ! i)"
proof -
  define n where "n = min (4096 - unat offset) (unat count)"
  have n: "0 < n" "unat offset + n \<le> 4096"
    using assms(2,3) by (auto simp: n_def)
  have law: "copy_from_user_law ua" "copy_to_user_law ua"
    using assms(5) by (simp_all add: uaccess_laws_def)
  have off: "unat offset \<le> 4096"
    using assms(2) by simp
  let ?b = "blit buffer (unat offset) (user_bytes um src n)"
  have len: "length ?b = 4096"
    using assms(1) n by simp
  have "chunk ?b (unat offset) n = user_bytes um src n"
    using chunk_blit [of "unat offset" "user_bytes um src n" buffer] assms(1) n by simp
  moreover have "user_bytes (user_store um dst (user_bytes um src n)) dst n = user_bytes um src n"
    using user_bytes_user_store [of "user_bytes um src n" um dst] n by simp
  moreover have "?b ! i = buffer ! i" if "i < 4096" "i < unat offset \<or> unat offset + n \<le> i" for i
    using nth_blit [of "unat offset" "user_bytes um src n" buffer i] assms(1) n that by auto
  ultimately show ?thesis
    using clipboard_basic_write_ok [OF assms(1) off assms(4) law(1) assms(6) n_def n(1), of um]
      clipboard_basic_read_ok [OF len off assms(4) law(2) assms(7) n_def n(1), of um] len n_def
    by auto
qed

theorem clipboard_basic_roundtrip_witness:
  "\<exists>buffer' um'. clipboard_basic_write flat_uaccess (\<lambda>a. ucast a) (replicate 4096 0) 5 10 4090 =
     Done (6, 4096, buffer') \<and>
   clipboard_basic_read flat_uaccess (\<lambda>a. ucast a) buffer' 50 10 4090 = Done (6, 4096, um')"
  using clipboard_basic_roundtrip [of "replicate 4096 0" 4090 10 flat_uaccess 5 50 "\<lambda>a. ucast a"]
  by (simp add: flat_uaccess_facts) blast

text \<open>A call on \<open>clipboard_basic\<close> at a position past the end of the buffer (which \<open>pread\<close> and
  \<open>pwrite\<close> can give) makes the number of bytes negative; as the size of the copy it becomes a number
  close to \<open>2 ^ 64\<close>, and the code asks for a copy far outside the buffer.\<close>

theorem clipboard_basic_past_end:
  assumes "length buffer = 4096" and "4096 < unat offset" and "unat offset \<le> 4096 + 2 ^ 31"
    and "unat count < 2 ^ 63"
  shows "clipboard_basic_read ua um buffer user_buf count offset = Crash OutOfBounds \<and>
    clipboard_basic_write ua um buffer user_buf count offset = Crash OutOfBounds"
proof -
  define k where "k = unat offset"
  define x where "x = 4096 - int k"
  have x: "- (2 ^ 31) \<le> x" "x < 0"
    using assms(2,3) by (simp_all add: x_def k_def [symmetric])
  have w: "4096 - offset = word_of_int x"
    by (simp add: x_def k_def)
  have "sint (4096 - offset) = x"
    unfolding w using x by (intro sint_word_of_int_u64) simp_all
  moreover have "0 \<le> sint count"
    using sint_small_u64 [OF assms(4)] by simp
  ultimately have m: "smin (4096 - offset) count = word_of_int x"
    using w x(2) by (simp add: smin_def)
  have sx: "(scast (ucast (smin (4096 - offset) count) :: u32) :: u64) = word_of_int x"
    unfolding m using x by (intro scast_ucast_int) simp_all
  have "sint (ucast (word_of_int x :: u64) :: u32) = x"
    unfolding ucast_word_of_int using x by (intro sint_word_of_int_u32) simp_all
  then have nz: "(ucast (smin (4096 - offset) count) :: u32) \<noteq> 0"
    using x(2) m by auto
  have "uint (word_of_int x :: u64) = x mod 2 ^ 64"
    by (simp add: uint_word_of_int)
  also have "\<dots> = x + 2 ^ 64"
    using x by (subst mod_add_self2 [symmetric], subst mod_pos_pos_trivial) auto
  finally have "unat (word_of_int x :: u64) = nat (x + 2 ^ 64)"
    by (simp only: nat_uint_eq [symmetric])
  then have "length buffer < unat offset + unat (word_of_int x :: u64)"
    using x assms(1,2) by simp
  then show ?thesis
    using nz sx by (simp add: clipboard_basic_read_def clipboard_basic_write_def Let_def)
qed

theorem clipboard_basic_past_end_witness:
  "clipboard_basic_read flat_uaccess (\<lambda>_. 0) (replicate 4096 0) 0 1 5000 = Crash OutOfBounds"
  using clipboard_basic_past_end [of "replicate 4096 0" 5000 1 flat_uaccess "\<lambda>_. 0" 0] by simp

text \<open>The two zero devices fill the caller's buffer with zeroes: if no byte faults, the whole range
  is zero afterwards and \<open>count\<close> is returned (\<open>myzero\<close> also moves the position); if some byte
  faults, both return \<open>-EFAULT\<close>, for every size below \<open>2 ^ 32\<close>.\<close>

theorem zero_devices:
  assumes "clear_user_law ua" and "unat count < 2 ^ 32"
  shows "\<exists>um' left. clear_user ua um buf (unat count) = (um', left) \<and>
    (left = 0 \<longrightarrow> user_bytes um' buf (unat count) = replicate (unat count) 0) \<and>
    myzero_read_zero ua um buf count ppos =
      (if left = 0 then (count, ppos + count, um') else (ssize_err EFAULT, ppos, um')) \<and>
    use_count_read_zero ua um buf count ppos =
      (if left = 0 then (count, ppos, um') else (ssize_err EFAULT, ppos, um'))"
proof -
  obtain um' left where c: "clear_user ua um buf (unat count) = (um', left)"
    by (cases "clear_user ua um buf (unat count)")
  have law: "left \<le> unat count" "um' = user_store um buf (replicate (unat count - left) 0)"
    using assms(1) [unfolded clear_user_law_def, rule_format, of um buf "unat count"] c by simp_all
  have "user_bytes um' buf (unat count) = replicate (unat count) 0" if "left = 0"
    using user_bytes_user_store [of "replicate (unat count) 0" um buf] law that assms(2) by simp
  moreover have "(of_nat left :: u32) = 0 \<longleftrightarrow> left = 0"
    using law(1) assms(2) by (intro of_nat_u32_eq_0) simp
  ultimately show ?thesis
    using c by (simp add: myzero_read_zero_def use_count_read_zero_def)
qed

theorem zero_devices_witness:
  "\<exists>um'. myzero_read_zero flat_uaccess (\<lambda>_. 7) 100 5 3 = (5, 8, um') \<and>
     user_bytes um' 100 5 = replicate 5 0"
proof -
  have "clear_user_law flat_uaccess"
    using flat_uaccess_facts(1) by (simp add: uaccess_laws_def)
  from zero_devices [OF this, of 5 "\<lambda>_. 7" 100 3] show ?thesis
    by (auto simp: flat_uaccess_def)
qed

lemma aaa_loop_stores:
  assumes "put_user_law ua" and "n \<le> 2 ^ 64"
  shows "\<exists>k\<le>n. snd (aaa_loop ua um buf n) = user_store um buf (replicate k 97) \<and>
    (fst (aaa_loop ua um buf n) = (if k = n then None else Some (- EFAULT)))"
  using assms(2)
proof (induction n arbitrary: um buf)
  case 0
  then show ?case by simp
next
  case (Suc n)
  consider "put_user ua um buf 97 = (user_store um buf [97], 0)" | "put_user ua um buf 97 = (um, - EFAULT)"
    using assms(1) unfolding put_user_law_def by blast
  then show ?case
  proof cases
    case 1
    obtain k where k: "k \<le> n"
      "snd (aaa_loop ua (user_store um buf [97]) (buf + 1) n) =
        user_store (user_store um buf [97]) (buf + 1) (replicate k 97)"
      "fst (aaa_loop ua (user_store um buf [97]) (buf + 1) n) = (if k = n then None else Some (- EFAULT))"
      using Suc.IH [of "user_store um buf [97]" "buf + 1"] Suc.prems by auto
    have "user_store (user_store um buf [97]) (buf + 1) (replicate k 97) =
        user_store um buf (replicate (Suc k) 97)"
      using user_store_append [of "[97]" "replicate k 97" um buf] k(1) Suc.prems by simp
    with 1 k show ?thesis
      by (intro exI [of _ "Suc k"]) (simp split: if_splits)
  next
    case 2
    then show ?thesis
      by (intro exI [of _ 0]) (simp add: errno_defs)
  qed
qed

text \<open>\<open>read_aaa\<close> stores the letter a in a prefix of the caller's range and nothing else. It returns
  \<open>count\<close> exactly when the prefix is the whole range and \<open>-EFAULT\<close> when a byte in between faults;
  but for a range that \<open>access_ok\<close> refuses it returns 0, end of file, and not \<open>-EFAULT\<close>.\<close>

theorem aaa_read_fills:
  assumes "put_user_law ua" and "0 < unat count"
  shows "\<exists>ret um' k. aaa_read_aaa ua um buf count ppos = (ret, ppos, um') \<and>
    um' = user_store um buf (replicate k 97) \<and>
    (if access_ok ua buf (unat count)
     then k \<le> unat count \<and> ret = (if k = unat count then count else ssize_err EFAULT)
     else k = 0 \<and> ret = 0)"
proof (cases "access_ok ua buf (unat count)")
  case False
  then show ?thesis
    by (intro exI [of _ 0] exI [of _ um]) (simp add: aaa_read_aaa_def)
next
  case True
  obtain k where "k \<le> unat count"
    "snd (aaa_loop ua um buf (unat count)) = user_store um buf (replicate k 97)"
    "fst (aaa_loop ua um buf (unat count)) = (if k = unat count then None else Some (- EFAULT))"
    using aaa_loop_stores [OF assms(1), of "unat count" um buf] unat_less_u64 [of count] by auto
  then show ?thesis
    using True by (cases "aaa_loop ua um buf (unat count)")
      (auto simp: aaa_read_aaa_def ssize_err_def split: if_splits)
qed

theorem aaa_read_fills_witness:
  "\<exists>um' k. aaa_read_aaa flat_uaccess (\<lambda>_. 0) 50 3 0 = (if k = 3 then 3 else ssize_err EFAULT, 0, um') \<and>
     um' = user_store (\<lambda>_. 0) 50 (replicate k 97)"
proof -
  have "put_user_law flat_uaccess"
    using flat_uaccess_facts(1) by (simp add: uaccess_laws_def)
  from aaa_read_fills [OF this, of 3 "\<lambda>_. 0" 50 0] show ?thesis
    by (auto simp: flat_uaccess_facts)
qed

text \<open>A write to \<open>clipboard\<close> that finds no room (or asks for no bytes) never returns: the loop
  recomputes the room from the caller's own position, which nothing changes, so that no number of
  wake-ups, interrupts or signals ends it. Every other write computes its size in the first round.\<close>

theorem clipboard_write_loops:
  assumes "unat offset \<le> 4096" and "unat count < 2 ^ 63"
  shows "(unat offset = 4096 \<or> count = 0 \<longrightarrow> clipboard_write rounds ua um s user_buf count offset = None) \<and>
    (unat offset < 4096 \<and> count \<noteq> 0 \<longrightarrow>
      clipboard_write_wait (Suc rounds) count offset = Some (ucast (smin (4096 - offset) count)))"
proof -
  have z: "(ucast (smin (4096 - offset) count) :: u32) = 0 \<longleftrightarrow> min (4096 - unat offset) (unat count) = 0"
    by (rule transfer_size_int(1) [OF assms refl])
  have "clipboard_write_wait rounds count offset = None" if "unat offset = 4096 \<or> count = 0"
    using z that by (induction rounds) auto
  moreover have "unat offset < 4096 \<and> count \<noteq> 0 \<Longrightarrow> (ucast (smin (4096 - offset) count) :: u32) \<noteq> 0"
    using z unat_eq_0 [of count] by simp
  ultimately show ?thesis
    by (auto simp: clipboard_write_def)
qed

theorem clipboard_write_loops_witness:
  "clipboard_write 1000000 flat_uaccess (\<lambda>_. 0) \<lparr>clipboard_data = replicate 4096 0, clipboard_flag = 1\<rparr>
     0 5 4096 = None"
  using clipboard_write_loops [of 4096 5 1000000] by simp

end
