(* ===== verification/BlkDev.thy ===== *)
theory BlkDev
  imports Prelude
begin

text \<open>
  The request path of the RAM disk in \<open>src/src/kernel_standalone/blkdev/main.c\<close>: a request is a list
  of memory segments that are transferred one after the other, starting at a sector. The arithmetic
  on sectors is that of \<open>unsigned long\<close>. Copying outside the disk's memory or outside the segment is
  \<open>Crash OutOfBounds\<close>.
\<close>

section \<open>Geometry and requests\<close>

record hd_geometry =
  heads :: nat
  sectors :: nat
  cylinders :: nat
  start :: nat

definition memblock_getgeo :: "hd_geometry \<Rightarrow> int \<times> hd_geometry" where
  "memblock_getgeo geo = (0, geo\<lparr>heads := 1, cylinders := 32, sectors := 32, start := 0\<rparr>)"

record memblock_dev =
  dev_size :: u32
  dev_data :: "byte list"

definition memblock_transfer ::
  "memblock_dev \<Rightarrow> u64 \<Rightarrow> u32 \<Rightarrow> byte list \<Rightarrow> bool \<Rightarrow> (memblock_dev \<times> byte list) outcome" where
  "memblock_transfer dev sector nsect buffer write =
     (let offset = sector * 512;
          nbytes = (ucast nsect :: u64) * 512
      in if offset + nbytes > scast (dev_size dev) then Done (dev, buffer)
      else if length (dev_data dev) < unat offset + unat nbytes \<or> length buffer < unat nbytes
      then Crash OutOfBounds
      else if write
      then Done (dev\<lparr>dev_data := blit (dev_data dev) (unat offset) (take (unat nbytes) buffer)\<rparr>, buffer)
      else Done (dev, blit buffer 0 (chunk (dev_data dev) (unat offset) (unat nbytes))))"

text \<open>The loop over the segments; the second component is the segments after the request. The status is
  \<open>BLK_STS_OK\<close> in every case and is left out.\<close>

fun memblock_request ::
  "memblock_dev \<Rightarrow> u64 \<Rightarrow> bool \<Rightarrow> byte list list \<Rightarrow> (memblock_dev \<times> byte list list) outcome" where
  "memblock_request dev sector write [] = Done (dev, [])"
| "memblock_request dev sector write (buffer # segments) =
     (let nsect = (of_nat (length buffer) :: u32) div 512
      in outcome_bind (memblock_transfer dev sector nsect buffer write)
        (\<lambda>(dev, buffer). outcome_bind (memblock_request dev (sector + ucast nsect) write segments)
          (\<lambda>(dev, segments). Done (dev, buffer # segments))))"

section \<open>Transfers inside the disk\<close>

definition disk_ok :: "memblock_dev \<Rightarrow> bool" where
  "disk_ok dev \<longleftrightarrow> dev_size dev = 1048576 \<and> length (dev_data dev) = 1048576"

text \<open>A segment of whole sectors at a sector inside the disk: the arithmetic is exact.\<close>

lemma sector_arith:
  assumes "length buffer = 512 * k" and "512 * s + 512 * k \<le> 1048576" and "sector = of_nat s"
  shows "unat (sector * 512) = 512 * s"
    "unat ((ucast ((of_nat (length buffer) :: u32) div 512) :: u64) * 512) = 512 * k"
    "sector * 512 + (ucast ((of_nat (length buffer) :: u32) div 512) :: u64) * 512 \<le> 1048576"
    "(ucast ((of_nat (length buffer) :: u32) div 512) :: u64) = of_nat k"
proof -
  have s: "sector * 512 = of_nat (512 * s)"
    using assms(3) by (simp add: mult.commute)
  show us: "unat (sector * 512) = 512 * s"
    unfolding s using assms(2) by (intro unat_of_nat_u64) simp
  have "unat (of_nat (512 * k) :: u32) = 512 * k"
    using assms(2) by (intro unat_of_nat_u32) simp
  then have "(of_nat (512 * k) :: u32) div 512 = of_nat k"
    by (subst word_arith_nat_div) simp
  then have "(ucast ((of_nat (length buffer) :: u32) div 512) :: u64) = ucast (of_nat k :: u32)"
    using assms(1) by simp
  also have "\<dots> = of_nat k"
    using assms(2) by (simp add: unsigned_of_nat take_bit_nat_eq_self)
  finally show k: "(ucast ((of_nat (length buffer) :: u32) div 512) :: u64) = of_nat k" .
  have n: "of_nat k * 512 = (of_nat (512 * k) :: u64)"
    by (simp add: mult.commute)
  show un: "unat ((ucast ((of_nat (length buffer) :: u32) div 512) :: u64) * 512) = 512 * k"
    unfolding k n using assms(2) by (intro unat_of_nat_u64) simp
  have "sector * 512 + of_nat k * 512 = of_nat (512 * s + 512 * k)"
    unfolding s n by simp
  moreover have "unat (of_nat (512 * s + 512 * k) :: u64) = 512 * s + 512 * k"
    using assms(2) by (intro unat_of_nat_u64) simp
  ultimately have "unat (sector * 512 + of_nat k * 512) \<le> unat (1048576 :: u64)"
    using assms(2) by (simp only:) simp
  then show "sector * 512 + (ucast ((of_nat (length buffer) :: u32) div 512) :: u64) * 512 \<le> 1048576"
    unfolding k by (simp only: word_le_nat_alt)
qed

lemma memblock_transfer_inside:
  assumes "disk_ok dev" and "length buffer = 512 * k" and "512 * s + 512 * k \<le> 1048576"
  shows "memblock_transfer dev (of_nat s) ((of_nat (length buffer) :: u32) div 512) buffer write =
    Done (if write then (dev\<lparr>dev_data := blit (dev_data dev) (512 * s) buffer\<rparr>, buffer)
          else (dev, chunk (dev_data dev) (512 * s) (512 * k)))"
proof -
  note a = sector_arith [OF assms(2,3) refl]
  have "(scast (dev_size dev) :: u64) = 1048576"
    using assms(1) by (simp add: disk_ok_def)
  with a assms show ?thesis
    by (simp add: memblock_transfer_def Let_def disk_ok_def not_less [symmetric] blit_def chunk_def)
qed

definition whole_sectors :: "byte list list \<Rightarrow> bool" where
  "whole_sectors segments \<longleftrightarrow> (\<forall>b \<in> set segments. 512 dvd length b)"

text \<open>A request of whole sectors inside the disk is one copy of the concatenated segments.\<close>

fun split_like :: "byte list list \<Rightarrow> byte list \<Rightarrow> byte list list" where
  "split_like [] bs = []"
| "split_like (b # segments) bs = take (length b) bs # split_like segments (drop (length b) bs)"

lemma disk_ok_write:
  "disk_ok dev \<Longrightarrow> i + length bs \<le> 1048576 \<Longrightarrow> disk_ok (dev\<lparr>dev_data := blit (dev_data dev) i bs\<rparr>)"
  by (simp add: disk_ok_def)

lemma memblock_request_write:
  assumes "disk_ok dev" and "whole_sectors segments" and "512 * s + length (concat segments) \<le> 1048576"
  shows "memblock_request dev (of_nat s) True segments =
    Done (dev\<lparr>dev_data := blit (dev_data dev) (512 * s) (concat segments)\<rparr>, segments)"
  using assms
proof (induction segments arbitrary: dev s)
  case Nil
  then show ?case by simp
next
  case (Cons b segments)
  then obtain k where k: "length b = 512 * k"
    by (auto simp: whole_sectors_def dvd_def)
  have room: "512 * s + 512 * k \<le> 1048576"
    using Cons.prems k by simp
  note t = memblock_transfer_inside [OF Cons.prems(1) k room, of True]
  let ?d = "dev\<lparr>dev_data := blit (dev_data dev) (512 * s) b\<rparr>"
  have sec: "of_nat s + (ucast ((of_nat (length b) :: u32) div 512) :: u64) = of_nat (s + k)"
    using sector_arith(4) [OF k room refl] by simp
  have ok: "disk_ok ?d"
    using disk_ok_write [OF Cons.prems(1), of "512 * s" b] k room by simp
  have rest: "512 * (s + k) + length (concat segments) \<le> 1048576" "whole_sectors segments"
    using Cons.prems k by (simp_all add: whole_sectors_def)
  have "blit (blit (dev_data dev) (512 * s) b) (512 * (s + k)) (concat segments) =
      blit (dev_data dev) (512 * s) (b @ concat segments)"
    using blit_blit_adjacent [of "512 * s" b "concat segments" "dev_data dev"] Cons.prems k
    by (simp add: disk_ok_def algebra_simps)
  with t sec Cons.IH [OF ok rest(2,1)] show ?case
    by (simp add: Let_def del: of_nat_add outcome_bind_eq_Done)
qed

lemma memblock_request_read:
  assumes "disk_ok dev" and "whole_sectors segments" and "512 * s + length (concat segments) \<le> 1048576"
  shows "memblock_request dev (of_nat s) False segments =
    Done (dev, split_like segments (chunk (dev_data dev) (512 * s) (length (concat segments))))"
  using assms
proof (induction segments arbitrary: s)
  case Nil
  then show ?case by simp
next
  case (Cons b segments)
  then obtain k where k: "length b = 512 * k"
    by (auto simp: whole_sectors_def dvd_def)
  have room: "512 * s + 512 * k \<le> 1048576"
    using Cons.prems k by simp
  note t = memblock_transfer_inside [OF Cons.prems(1) k room, of False]
  have sec: "of_nat s + (ucast ((of_nat (length b) :: u32) div 512) :: u64) = of_nat (s + k)"
    using sector_arith(4) [OF k room refl] by simp
  have rest: "512 * (s + k) + length (concat segments) \<le> 1048576" "whole_sectors segments"
    using Cons.prems k by (simp_all add: whole_sectors_def)
  have "take (512 * k) (chunk (dev_data dev) (512 * s) (512 * k + length (concat segments))) =
      chunk (dev_data dev) (512 * s) (512 * k)"
    "drop (512 * k) (chunk (dev_data dev) (512 * s) (512 * k + length (concat segments))) =
      chunk (dev_data dev) (512 * (s + k)) (length (concat segments))"
    by (simp_all add: chunk_def drop_take algebra_simps)
  with t sec k Cons.IH [OF Cons.prems(1) rest(2,1)] show ?case
    by (simp add: Let_def del: of_nat_add outcome_bind_eq_Done)
qed

lemma concat_split_like:
  "length bs = length (concat segments) \<Longrightarrow> concat (split_like segments bs) = bs"
  by (induction segments arbitrary: bs) simp_all

section \<open>Properties\<close>

text \<open>C29: What is written to the RAM disk is read back. A write request of whole sectors inside the disk
  followed by a read request of the same total size at the same sector, however either is cut into
  segments, delivers the written bytes in order; every byte of the disk outside the written range
  keeps its value, and no copy leaves the disk.\<close>

theorem memblock_roundtrip:
  assumes "disk_ok dev" and "whole_sectors segments" and "whole_sectors segments'"
    and "length (concat segments') = length (concat segments)"
    and "512 * s + length (concat segments) \<le> 1048576"
  shows "\<exists>dev' out. memblock_request dev (of_nat s) True segments = Done (dev', segments) \<and>
    memblock_request dev' (of_nat s) False segments' = Done (dev', out) \<and>
    concat out = concat segments \<and> disk_ok dev' \<and>
    (\<forall>i<1048576. i < 512 * s \<or> 512 * s + length (concat segments) \<le> i \<longrightarrow>
      dev_data dev' ! i = dev_data dev ! i)"
proof -
  let ?d = "dev\<lparr>dev_data := blit (dev_data dev) (512 * s) (concat segments)\<rparr>"
  have len: "length (dev_data dev) = 1048576"
    using assms(1) by (simp add: disk_ok_def)
  have ok: "disk_ok ?d"
    by (rule disk_ok_write [OF assms(1,5)])
  have c: "chunk (dev_data ?d) (512 * s) (length (concat segments)) = concat segments"
    using chunk_blit [of "512 * s" "concat segments" "dev_data dev"] assms(5) len by simp
  have "concat (split_like segments' (concat segments)) = concat segments"
    by (rule concat_split_like) (simp add: assms(4))
  moreover have "dev_data ?d ! i = dev_data dev ! i"
    if "i < 1048576" "i < 512 * s \<or> 512 * s + length (concat segments) \<le> i" for i
    using nth_blit [of "512 * s" "concat segments" "dev_data dev" i] assms(5) len that by auto
  ultimately show ?thesis
    using memblock_request_write [OF assms(1,2,5)] ok c assms(4,5)
      memblock_request_read [OF ok assms(3), of s] by auto
qed

theorem memblock_roundtrip_witness:
  "\<exists>dev' out. memblock_request \<lparr>dev_size = 1048576, dev_data = replicate 1048576 0\<rparr> 3 True
       [replicate 512 7, replicate 1024 8] = Done (dev', [replicate 512 7, replicate 1024 8]) \<and>
     memblock_request dev' 3 False [replicate 1536 0] = Done (dev', out) \<and>
     concat out = replicate 512 7 @ replicate 1024 8"
  using memblock_roundtrip [of "\<lparr>dev_size = 1048576, dev_data = replicate 1048576 0\<rparr>"
      "[replicate 512 7, replicate 1024 8]" "[replicate 1536 0]" 3]
  by (simp add: disk_ok_def whole_sectors_def) blast

text \<open>A transfer past the end of the disk is dropped without an error: the disk and the buffer keep
  their contents, and the request still completes with \<open>BLK_STS_OK\<close>. But the test that detects it
  adds in 64 bits: for the sector whose byte offset is the last one below \<open>2 ^ 64\<close>, the sum wraps to
  0, the test passes, and the copy starts far outside the disk.\<close>

theorem memblock_past_end:
  assumes "disk_ok dev" and "1048576 < unat (sector * 512 + (ucast nsect :: u64) * 512)"
    and "512 \<le> length buffer"
  shows "memblock_transfer dev sector nsect buffer write = Done (dev, buffer) \<and>
    memblock_transfer dev (2 ^ 55 - 1) 1 buffer write = Crash OutOfBounds"
proof -
  have sz: "(scast (dev_size dev) :: u64) = 1048576"
    using assms(1) by (simp add: disk_ok_def)
  have "memblock_transfer dev sector nsect buffer write = Done (dev, buffer)"
    using assms(2) sz by (simp add: memblock_transfer_def word_less_nat_alt)
  moreover have "memblock_transfer dev (2 ^ 55 - 1) 1 buffer write = Crash OutOfBounds"
    using assms(1,3) sz by (simp add: memblock_transfer_def disk_ok_def)
  ultimately show ?thesis ..
qed

theorem memblock_past_end_witness:
  "memblock_transfer \<lparr>dev_size = 1048576, dev_data = replicate 1048576 0\<rparr> 2048 1 (replicate 512 9) True =
     Done (\<lparr>dev_size = 1048576, dev_data = replicate 1048576 0\<rparr>, replicate 512 9)"
  using memblock_past_end [of "\<lparr>dev_size = 1048576, dev_data = replicate 1048576 0\<rparr>" 2048 1 "replicate 512 9" True]
  by (simp add: disk_ok_def)

end
