(* ===== verification/SleepWake.thy ===== *)
theory SleepWake
  imports RingFifo KernelApi
begin

text \<open>
  The \<open>ioctl\<close> of \<open>src/src/kernel_standalone/sleep_wakeup/main.c\<close> and of \<open>cant_kill/main.c\<close>, which
  differ only in whether a signal ends the sleep: \<open>IOCTL_SLEEP\<close> clears \<open>state\<close> and waits for it to be
  1, \<open>IOCTL_WAKEUP\<close> sets it and wakes the queue, every other command fails with \<open>-EFAULT\<close>. Threads
  are interleaved between these accesses to \<open>state\<close>; a sleeping thread evaluates its condition again
  after every wake-up.
\<close>

section \<open>The ioctl\<close>

text \<open>
  \<open>SwTest\<close> is about to evaluate \<open>state == 1\<close>, \<open>SwAsleep\<close> sleeps on the queue, \<open>SwWaking\<close> has set
  \<open>state\<close> and is about to call \<open>wake_up\<close>.
\<close>

datatype swpc = SwIdle | SwTest | SwAsleep | SwWaking

datatype sw_event = IoctlCall nat u32 | IoctlReturn nat int | SwInternal

record swsys =
  sw_state :: int
  sw_pc :: "nat \<Rightarrow> swpc"

definition IOCTL_SLEEP :: u32 where
  "IOCTL_SLEEP = 100"

definition IOCTL_WAKEUP :: u32 where
  "IOCTL_WAKEUP = 101"

definition sw_wake_up :: "(nat \<Rightarrow> swpc) \<Rightarrow> nat \<Rightarrow> swpc" where
  "sw_wake_up p = (\<lambda>t. if p t = SwAsleep then SwTest else p t)"

inductive sw_ioctl :: "bool \<Rightarrow> swsys \<Rightarrow> sw_event \<Rightarrow> swsys \<Rightarrow> bool" for interruptible where
  sw_sleep: "sw_pc s t = SwIdle \<Longrightarrow>
    sw_ioctl interruptible s (IoctlCall t IOCTL_SLEEP)
      (s\<lparr>sw_state := 0, sw_pc := (sw_pc s)(t := SwTest)\<rparr>)"
| sw_test_true: "sw_pc s t = SwTest \<Longrightarrow> sw_state s = 1 \<Longrightarrow>
    sw_ioctl interruptible s (IoctlReturn t 0) (s\<lparr>sw_pc := (sw_pc s)(t := SwIdle)\<rparr>)"
| sw_test_false: "sw_pc s t = SwTest \<Longrightarrow> sw_state s \<noteq> 1 \<Longrightarrow>
    sw_ioctl interruptible s SwInternal (s\<lparr>sw_pc := (sw_pc s)(t := SwAsleep)\<rparr>)"
| sw_wakeup: "sw_pc s t = SwIdle \<Longrightarrow>
    sw_ioctl interruptible s (IoctlCall t IOCTL_WAKEUP)
      (s\<lparr>sw_state := 1, sw_pc := (sw_pc s)(t := SwWaking)\<rparr>)"
| sw_wake: "sw_pc s t = SwWaking \<Longrightarrow>
    sw_ioctl interruptible s (IoctlReturn t 0) (s\<lparr>sw_pc := (sw_wake_up (sw_pc s))(t := SwIdle)\<rparr>)"
| sw_signal: "interruptible \<Longrightarrow> sw_pc s t = SwAsleep \<Longrightarrow>
    sw_ioctl interruptible s (IoctlReturn t 0) (s\<lparr>sw_pc := (sw_pc s)(t := SwIdle)\<rparr>)"
| sw_default: "sw_pc s t = SwIdle \<Longrightarrow> cmd \<noteq> IOCTL_SLEEP \<Longrightarrow> cmd \<noteq> IOCTL_WAKEUP \<Longrightarrow>
    sw_ioctl interruptible s (IoctlReturn t (- EFAULT)) s"

definition sw_init :: swsys where
  "sw_init = \<lparr>sw_state = 0, sw_pc = (\<lambda>_. SwIdle)\<rparr>"

section \<open>Invariant\<close>

text \<open>No thread sleeps while \<open>state\<close> is 1, unless a \<open>wake_up\<close> is about to happen.\<close>

definition sw_inv :: "swsys \<Rightarrow> bool" where
  "sw_inv s \<longleftrightarrow> (\<forall>t. sw_pc s t = SwAsleep \<longrightarrow> sw_state s \<noteq> 1 \<or> (\<exists>u. sw_pc s u = SwWaking))"

lemma sw_inv_upd:
  assumes "sw_inv s" and "sw_pc s t \<noteq> SwWaking" and "v = SwAsleep \<longrightarrow> sw_state s \<noteq> 1"
  shows "sw_inv (s\<lparr>sw_pc := (sw_pc s)(t := v)\<rparr>)"
proof -
  have "\<exists>u. sw_pc s u = SwWaking \<Longrightarrow> \<exists>u. ((sw_pc s)(t := v)) u = SwWaking"
    using assms(2) by (metis fun_upd_other)
  with assms(1,3) show ?thesis
    unfolding sw_inv_def by (simp del: fun_upd_apply) (metis fun_upd_other fun_upd_same)
qed

lemma sw_ioctl_inv:
  assumes "sw_ioctl interruptible s e s'" and "sw_inv s"
  shows "sw_inv s'"
  using assms(1)
proof cases
  case (sw_wakeup t)
  then have "sw_pc s' t = SwWaking"
    by simp
  then show ?thesis
    by (auto simp: sw_inv_def)
next
  case (sw_sleep t)
  then show ?thesis
    by (simp add: sw_inv_def)
next
  case (sw_wake t)
  then show ?thesis
    by (simp add: sw_inv_def sw_wake_up_def)
qed (use assms(2) in \<open>simp_all add: sw_inv_upd\<close>)

lemma sw_steps_inv: "steps (sw_ioctl interruptible) s es s' \<Longrightarrow> sw_inv s \<Longrightarrow> sw_inv s'"
  by (induction rule: steps.induct) (auto dest: sw_ioctl_inv)

section \<open>Properties\<close>

text \<open>In every state that a run of the two drivers reaches, a thread that is asleep when no
  \<open>wake_up\<close> is under way sleeps with \<open>state\<close> different from 1: no thread sleeps through a wake-up
  that is still in force.\<close>

theorem sleep_wakeup_no_stale_sleep:
  assumes "steps (sw_ioctl interruptible) sw_init es s" and "sw_pc s t = SwAsleep"
    and "\<And>u. sw_pc s u \<noteq> SwWaking"
  shows "sw_state s \<noteq> 1"
proof -
  have "sw_inv s"
    by (rule sw_steps_inv [OF assms(1)]) (simp add: sw_inv_def sw_init_def)
  with assms(2,3) show ?thesis
    by (auto simp: sw_inv_def)
qed

lemma sw_steps_Cons:
  "sw_ioctl interruptible s e s' \<Longrightarrow> steps (sw_ioctl interruptible) s' es s'' \<Longrightarrow>
    steps (sw_ioctl interruptible) s (e # es) s''"
  by (rule steps_Cons)

theorem sleep_wakeup_no_stale_sleep_witness:
  "\<exists>es s. steps (sw_ioctl False) sw_init es s \<and> sw_pc s 0 = SwAsleep \<and> sw_state s \<noteq> 1"
proof -
  define s1 where "s1 = sw_init\<lparr>sw_state := 0, sw_pc := (sw_pc sw_init)(0 := SwTest)\<rparr>"
  define s2 where "s2 = s1\<lparr>sw_pc := (sw_pc s1)(0 := SwAsleep)\<rparr>"
  have 1: "sw_ioctl False sw_init (IoctlCall 0 IOCTL_SLEEP) s1"
    unfolding s1_def by (rule sw_sleep) (simp add: sw_init_def)
  have 2: "sw_ioctl False s1 SwInternal s2"
    unfolding s2_def by (rule sw_test_false) (simp_all add: s1_def)
  have r: "steps (sw_ioctl False) sw_init [IoctlCall 0 IOCTL_SLEEP, SwInternal] s2"
    by (rule sw_steps_Cons [OF 1 sw_steps_Cons [OF 2 steps_Nil]])
  have p: "sw_pc s2 0 = SwAsleep" "sw_pc s2 u \<noteq> SwWaking" for u
    by (simp_all add: s2_def s1_def sw_init_def)
  from sleep_wakeup_no_stale_sleep [OF r p] r p show ?thesis
    by blast
qed

text \<open>A wake-up can be lost. \<open>IOCTL_SLEEP\<close> clears the shared \<open>state\<close> without a lock: when a second
  thread calls it after the wake-up of the first but before the first has looked at \<open>state\<close> again,
  the first goes back to sleep although a complete \<open>IOCTL_WAKEUP\<close> was issued after it had fallen
  asleep, and nothing is under way that would wake it.\<close>

theorem sleep_wakeup_lost:
  "\<exists>s. steps (sw_ioctl False) sw_init
      [IoctlCall 0 IOCTL_SLEEP, SwInternal, IoctlCall 1 IOCTL_WAKEUP, IoctlReturn 1 0, IoctlCall 2 IOCTL_SLEEP, SwInternal] s \<and>
    sw_pc s 0 = SwAsleep \<and> (\<forall>u. sw_pc s u \<noteq> SwWaking)"
proof -
  define s1 where "s1 = sw_init\<lparr>sw_state := 0, sw_pc := (sw_pc sw_init)(0 := SwTest)\<rparr>"
  define s2 where "s2 = s1\<lparr>sw_pc := (sw_pc s1)(0 := SwAsleep)\<rparr>"
  define s3 where "s3 = s2\<lparr>sw_state := 1, sw_pc := (sw_pc s2)(1 := SwWaking)\<rparr>"
  define s4 where "s4 = s3\<lparr>sw_pc := (sw_wake_up (sw_pc s3))(1 := SwIdle)\<rparr>"
  define s5 where "s5 = s4\<lparr>sw_state := 0, sw_pc := (sw_pc s4)(2 := SwTest)\<rparr>"
  define s6 where "s6 = s5\<lparr>sw_pc := (sw_pc s5)(0 := SwAsleep)\<rparr>"
  note defs = s6_def s5_def s4_def s3_def s2_def s1_def sw_init_def sw_wake_up_def
  have 1: "sw_ioctl False sw_init (IoctlCall 0 IOCTL_SLEEP) s1"
    unfolding s1_def by (rule sw_sleep) (simp add: defs)
  have 2: "sw_ioctl False s1 SwInternal s2"
    unfolding s2_def by (rule sw_test_false) (simp_all add: defs)
  have 3: "sw_ioctl False s2 (IoctlCall 1 IOCTL_WAKEUP) s3"
    unfolding s3_def by (rule sw_wakeup) (simp add: defs)
  have 4: "sw_ioctl False s3 (IoctlReturn 1 0) s4"
    unfolding s4_def by (rule sw_wake) (simp add: defs)
  have 5: "sw_ioctl False s4 (IoctlCall 2 IOCTL_SLEEP) s5"
    unfolding s5_def by (rule sw_sleep) (simp add: defs)
  have 6: "sw_ioctl False s5 SwInternal s6"
    unfolding s6_def by (rule sw_test_false) (simp_all add: defs)
  have "steps (sw_ioctl False) sw_init
      [IoctlCall 0 IOCTL_SLEEP, SwInternal, IoctlCall 1 IOCTL_WAKEUP, IoctlReturn 1 0, IoctlCall 2 IOCTL_SLEEP, SwInternal] s6"
    by (intro sw_steps_Cons [OF 1] sw_steps_Cons [OF 2] sw_steps_Cons [OF 3] sw_steps_Cons [OF 4]
        sw_steps_Cons [OF 5] sw_steps_Cons [OF 6] steps_Nil)
  moreover have "sw_pc s6 0 = SwAsleep \<and> (\<forall>u. sw_pc s6 u \<noteq> SwWaking)"
    by (simp add: defs)
  ultimately show ?thesis by blast
qed

end
