(* ===== verification/ErrUtils.thy ===== *)
theory ErrUtils
  imports Prelude
begin

text \<open>
  \<open>src/src/include/err_utils.h\<close>, the error checking layer that all the user space programs of the
  repository are written with: the table of error names, the two searches in it, \<open>handle_error\<close>, which
  reports to \<open>stderr\<close> and ends the process, and the \<open>check_*\<close> functions behind the \<open>CHECK_*\<close> macros. A
  check either returns its argument or ends the process; \<open>stderr\<close> is a list of structured lines, one per
  \<open>fprintf\<close>. The values of the error macros are those of Linux on x86-64.
\<close>

section \<open>The table\<close>

definition err_tbl :: "(int \<times> string) list" where
  "err_tbl =
     [(7, ''E2BIG''), (13, ''EACCES''), (98, ''EADDRINUSE''), (99, ''EADDRNOTAVAIL''),
      (97, ''EAFNOSUPPORT''), (11, ''EAGAIN''), (114, ''EALREADY''), (52, ''EBADE''),
      (9, ''EBADF''), (77, ''EBADFD''), (74, ''EBADMSG''), (53, ''EBADR''), (56, ''EBADRQC''),
      (57, ''EBADSLT''), (16, ''EBUSY''), (125, ''ECANCELED''), (10, ''ECHILD''),
      (44, ''ECHRNG''), (70, ''ECOMM''), (103, ''ECONNABORTED''), (111, ''ECONNREFUSED''),
      (104, ''ECONNRESET''), (35, ''EDEADLK''), (35, ''EDEADLOCK''), (89, ''EDESTADDRREQ''),
      (33, ''EDOM''), (122, ''EDQUOT''), (17, ''EEXIST''), (14, ''EFAULT''), (27, ''EFBIG''),
      (112, ''EHOSTDOWN''), (113, ''EHOSTUNREACH''), (43, ''EIDRM''), (84, ''EILSEQ''),
      (115, ''EINPROGRESS''), (4, ''EINTR''), (22, ''EINVAL''), (5, ''EIO''), (106, ''EISCONN''),
      (21, ''EISDIR''), (120, ''EISNAM''), (127, ''EKEYEXPIRED''), (129, ''EKEYREJECTED''),
      (128, ''EKEYREVOKED''), (51, ''EL2HLT''), (45, ''EL2NSYNC''), (46, ''EL3HLT''),
      (47, ''EL3RST''), (79, ''ELIBACC''), (80, ''ELIBBAD''), (82, ''ELIBMAX''),
      (81, ''ELIBSCN''), (83, ''ELIBEXEC''), (40, ''ELOOP''), (124, ''EMEDIUMTYPE''),
      (24, ''EMFILE''), (31, ''EMLINK''), (90, ''EMSGSIZE''), (72, ''EMULTIHOP''),
      (36, ''ENAMETOOLONG''), (100, ''ENETDOWN''), (102, ''ENETRESET''), (101, ''ENETUNREACH''),
      (23, ''ENFILE''), (105, ''ENOBUFS''), (61, ''ENODATA''), (19, ''ENODEV''), (2, ''ENOENT''),
      (8, ''ENOEXEC''), (126, ''ENOKEY''), (37, ''ENOLCK''), (67, ''ENOLINK''),
      (123, ''ENOMEDIUM''), (12, ''ENOMEM''), (42, ''ENOMSG''), (64, ''ENONET''),
      (65, ''ENOPKG''), (92, ''ENOPROTOOPT''), (28, ''ENOSPC''), (63, ''ENOSR''),
      (60, ''ENOSTR''), (38, ''ENOSYS''), (15, ''ENOTBLK''), (107, ''ENOTCONN''),
      (20, ''ENOTDIR''), (39, ''ENOTEMPTY''), (88, ''ENOTSOCK''), (95, ''ENOTSUP''),
      (25, ''ENOTTY''), (76, ''ENOTUNIQ''), (6, ''ENXIO''), (95, ''EOPNOTSUPP''),
      (75, ''EOVERFLOW''), (1, ''EPERM''), (96, ''EPFNOSUPPORT''), (32, ''EPIPE''),
      (71, ''EPROTO''), (93, ''EPROTONOSUPPORT''), (91, ''EPROTOTYPE''), (34, ''ERANGE''),
      (78, ''EREMCHG''), (66, ''EREMOTE''), (121, ''EREMOTEIO''), (85, ''ERESTART''),
      (30, ''EROFS''), (108, ''ESHUTDOWN''), (29, ''ESPIPE''), (94, ''ESOCKTNOSUPPORT''),
      (3, ''ESRCH''), (116, ''ESTALE''), (86, ''ESTRPIPE''), (62, ''ETIME''),
      (110, ''ETIMEDOUT''), (26, ''ETXTBSY''), (117, ''EUCLEAN''), (49, ''EUNATCH''),
      (87, ''EUSERS''), (11, ''EWOULDBLOCK''), (18, ''EXDEV''), (54, ''EXFULL'')]"

definition NULL :: u64 where
  "NULL = 0"

definition EOF :: int where
  "EOF = - 1"

definition EXIT_FAILURE :: int where
  "EXIT_FAILURE = 1"

section \<open>Outcomes\<close>

datatype err_line =
  Banner
| FileIs string int
| FunctionIs string
| TextWas string
| MessageIs string
| BadValueIs int
| ErrnoNumeric int
| ErrnoSymbolic string
| ErrnoString int
| BadErrorName string
| BadErrorValue int

text \<open>
  \<open>Exits st e ls\<close>: the process has called \<open>exit(st)\<close> with \<open>errno\<close> equal to \<open>e\<close>, after writing \<open>ls\<close> to
  \<open>stderr\<close>. The parent sees the low eight bits of \<open>st\<close>.
\<close>

datatype 'a checked = Returned 'a | Exits int int "err_line list"

record site =
  site_msg :: string
  site_file :: string
  site_function :: string
  site_line :: int

section \<open>Operations\<close>

definition error_get_by_name :: "int \<Rightarrow> string \<Rightarrow> int checked" where
  "error_get_by_name errno name =
     (case find (\<lambda>e. snd e = name) err_tbl of
        Some e \<Rightarrow> Returned (fst e)
      | None \<Rightarrow> Exits (- 1) errno [BadErrorName name])"

definition error_get_by_val :: "int \<Rightarrow> int \<Rightarrow> string checked" where
  "error_get_by_val errno val =
     (case find (\<lambda>e. fst e = val) err_tbl of
        Some e \<Rightarrow> Returned (snd e)
      | None \<Rightarrow> Exits (- 1) errno [BadErrorValue val])"

definition handle_error ::
  "int \<Rightarrow> int \<Rightarrow> int \<Rightarrow> int \<Rightarrow> int \<Rightarrow> int \<Rightarrow> int \<Rightarrow> site \<Rightarrow> string option \<Rightarrow> 'a checked" where
  "handle_error errno printBadVal badVal replace_errno new_errno useerrno errnotouse loc m =
    (let errno = (if replace_errno \<noteq> 0 then new_errno else errno);
         out = [Banner, FileIs (site_file loc) (site_line loc), FunctionIs (site_function loc),
                TextWas (site_msg loc)] @
           (case m of Some msg \<Rightarrow> [MessageIs msg] | None \<Rightarrow> []) @
           (if printBadVal \<noteq> 0 then [BadValueIs badVal] else [])
     in if useerrno \<noteq> 0
        then let out = out @ [ErrnoNumeric errnotouse]
             in (case error_get_by_val errno errnotouse of
                   Exits st e ls \<Rightarrow> Exits st e (out @ ls)
                 | Returned name \<Rightarrow>
                     Exits errnotouse errno (out @ [ErrnoSymbolic name, ErrnoString errnotouse]))
        else Exits EXIT_FAILURE errno out)"

definition check_error :: "int \<Rightarrow> int \<Rightarrow> site \<Rightarrow> int checked" where
  "check_error errno val loc = handle_error errno 0 0 0 0 1 errno loc None"

definition check_zero :: "int \<Rightarrow> int \<Rightarrow> site \<Rightarrow> string option \<Rightarrow> int checked" where
  "check_zero errno val loc m =
     (if val \<noteq> 0 then handle_error errno 0 0 0 0 1 errno loc m else Returned val)"

definition check_zero_errno :: "int \<Rightarrow> int \<Rightarrow> site \<Rightarrow> int checked" where
  "check_zero_errno errno val loc =
     (if val \<noteq> 0 then handle_error errno 0 0 1 val 0 val loc None else Returned val)"

definition check_not_zero :: "int \<Rightarrow> int \<Rightarrow> site \<Rightarrow> int checked" where
  "check_not_zero errno val loc =
     (if val = 0 then handle_error errno 0 0 0 0 1 errno loc None else Returned val)"

definition check_not_m1 :: "int \<Rightarrow> int \<Rightarrow> site \<Rightarrow> int checked" where
  "check_not_m1 errno val loc =
     (if val = - 1 then handle_error errno 0 0 0 0 1 errno loc None else Returned val)"

definition check_not_eof :: "int \<Rightarrow> int \<Rightarrow> site \<Rightarrow> int checked" where
  "check_not_eof errno val loc =
     (if val = EOF then handle_error errno 0 0 0 0 1 errno loc None else Returned val)"

definition check_1 :: "int \<Rightarrow> int \<Rightarrow> site \<Rightarrow> int checked" where
  "check_1 errno val loc =
     (if val \<noteq> 1 then handle_error errno 0 0 0 0 1 errno loc None else Returned val)"

definition check_not_negative :: "int \<Rightarrow> int \<Rightarrow> site \<Rightarrow> int checked" where
  "check_not_negative errno val loc =
     (if val < 0 then handle_error errno 0 0 0 0 1 errno loc None else Returned val)"

definition check_not_null :: "int \<Rightarrow> u64 \<Rightarrow> site \<Rightarrow> u64 checked" where
  "check_not_null errno val loc =
     (if val = NULL then handle_error errno 0 0 0 0 0 0 loc None else Returned val)"

definition check_not_null_const :: "int \<Rightarrow> u64 \<Rightarrow> site \<Rightarrow> u64 checked" where
  "check_not_null_const errno val loc =
     (if val = NULL then handle_error errno 0 0 0 0 0 0 loc None else Returned val)"

definition check_not_null_filep :: "int \<Rightarrow> u64 \<Rightarrow> site \<Rightarrow> u64 checked" where
  "check_not_null_filep errno val loc =
     (if val = NULL then handle_error errno 0 0 0 0 0 0 loc None else Returned val)"

definition check_not_null_charp :: "int \<Rightarrow> u64 \<Rightarrow> site \<Rightarrow> u64 checked" where
  "check_not_null_charp errno val loc =
     (if val = NULL then handle_error errno 0 0 0 0 0 0 loc None else Returned val)"

definition check_oneoftwo :: "int \<Rightarrow> int \<Rightarrow> int \<Rightarrow> int \<Rightarrow> site \<Rightarrow> int checked" where
  "check_oneoftwo errno val e1 e2 loc =
     (if val \<noteq> e1 \<and> val \<noteq> e2 then handle_error errno 0 0 0 0 1 errno loc None else Returned val)"

definition check_assert :: "int \<Rightarrow> int \<Rightarrow> site \<Rightarrow> int checked" where
  "check_assert errno val loc =
     (if val = 0 then handle_error errno 0 0 0 0 0 0 loc None else Returned val)"

definition check_not_voidp :: "int \<Rightarrow> u64 \<Rightarrow> u64 \<Rightarrow> site \<Rightarrow> u64 checked" where
  "check_not_voidp errno val errval loc =
     (if val = errval then handle_error errno 0 0 0 0 0 0 loc None else Returned val)"

definition check_voidp :: "int \<Rightarrow> u64 \<Rightarrow> u64 \<Rightarrow> site \<Rightarrow> u64 checked" where
  "check_voidp errno val errval loc =
     (if val \<noteq> errval then handle_error errno 0 0 0 0 0 0 loc None else Returned val)"

definition check_not_sigt :: "int \<Rightarrow> u64 \<Rightarrow> u64 \<Rightarrow> site \<Rightarrow> u64 checked" where
  "check_not_sigt errno val errval loc =
     (if val = errval then handle_error errno 0 0 0 0 0 0 loc None else Returned val)"

definition check_int :: "int \<Rightarrow> int \<Rightarrow> int \<Rightarrow> site \<Rightarrow> int checked" where
  "check_int errno val expected loc =
     (if val \<noteq> expected then handle_error errno 0 0 0 0 1 errno loc None else Returned val)"

definition check_int_noerrno :: "int \<Rightarrow> int \<Rightarrow> int \<Rightarrow> site \<Rightarrow> int checked" where
  "check_int_noerrno errno val expected loc =
     (if val \<noteq> expected then handle_error errno 1 val 0 0 0 0 loc None else Returned val)"

definition check_not_int :: "int \<Rightarrow> int \<Rightarrow> int \<Rightarrow> site \<Rightarrow> int checked" where
  "check_not_int errno val expected loc =
     (if val = expected then handle_error errno 0 0 0 0 1 errno loc None else Returned val)"

definition check_charp :: "int \<Rightarrow> u64 \<Rightarrow> u64 \<Rightarrow> site \<Rightarrow> u64 checked" where
  "check_charp errno val expected loc =
     (if val \<noteq> expected then handle_error errno 0 0 0 0 0 0 loc None else Returned val)"

definition check_in_range :: "int \<Rightarrow> int \<Rightarrow> int \<Rightarrow> int \<Rightarrow> site \<Rightarrow> int checked" where
  "check_in_range errno val min_val max_val loc =
     (if val < min_val \<or> val \<ge> max_val then handle_error errno 0 0 0 0 1 errno loc None else Returned val)"

definition check_positive :: "int \<Rightarrow> int \<Rightarrow> site \<Rightarrow> int checked" where
  "check_positive errno val loc =
     (if val \<le> 0 then handle_error errno 0 0 0 0 1 errno loc None else Returned val)"

definition check_gezero :: "int \<Rightarrow> int \<Rightarrow> site \<Rightarrow> int checked" where
  "check_gezero errno val loc =
     (if val < 0 then handle_error errno 0 0 0 0 1 errno loc None else Returned val)"

text \<open>The macro \<open>CHECK_VOIDP\<close> is defined with the function of \<open>CHECK_NOT_VOIDP\<close>.\<close>

definition CHECK_NOT_VOIDP :: "int \<Rightarrow> u64 \<Rightarrow> u64 \<Rightarrow> site \<Rightarrow> u64 checked" where
  "CHECK_NOT_VOIDP errno v e loc = check_not_voidp errno v e loc"

definition CHECK_VOIDP :: "int \<Rightarrow> u64 \<Rightarrow> u64 \<Rightarrow> site \<Rightarrow> u64 checked" where
  "CHECK_VOIDP errno v e loc = check_not_voidp errno v e loc"

lemmas check_defs =
  check_zero_def check_zero_errno_def check_not_zero_def check_not_m1_def check_not_eof_def
  check_1_def check_not_negative_def check_not_null_def check_not_null_const_def
  check_not_null_filep_def check_not_null_charp_def check_oneoftwo_def check_assert_def
  check_not_voidp_def check_voidp_def check_not_sigt_def check_int_def check_int_noerrno_def
  check_not_int_def check_charp_def check_in_range_def check_positive_def check_gezero_def

section \<open>The searches\<close>

definition known_errnos :: "int set" where
  "known_errnos = fst ` set err_tbl"

lemma err_tbl_range: "list_all (\<lambda>e. 0 < fst e \<and> fst e < 130) err_tbl"
  by (simp add: err_tbl_def)

lemma known_errnos_range: "v \<in> known_errnos \<Longrightarrow> 0 < v \<and> v < 130"
  using err_tbl_range by (auto simp: known_errnos_def list_all_iff)

lemma error_get_by_val_known:
  "error_get_by_val errno v =
     (if v \<in> known_errnos then Returned (the (map_of err_tbl v)) else Exits (- 1) errno [BadErrorValue v])"
proof -
  have *: "find (\<lambda>e. fst e = v) t = (case map_of t v of Some n \<Rightarrow> Some (v, n) | None \<Rightarrow> None)"
    for t :: "(int \<times> string) list"
    by (induction t) auto
  show ?thesis
    by (auto simp: error_get_by_val_def * known_errnos_def map_of_eq_None_iff
        split: option.split dest!: map_of_SomeD intro: rev_image_eqI)
qed

text \<open>How a failed check ends, for every value of \<open>errno\<close>.\<close>

lemma handle_error_status:
  "\<exists>ls. handle_error errno pb bv r n u e loc m =
     Exits (if u = 0 then 1 else if e \<in> known_errnos then e else - 1) (if r \<noteq> 0 then n else errno)
       (Banner # ls)"
  by (simp add: handle_error_def error_get_by_val_known EXIT_FAILURE_def Let_def)

definition checks :: "bool \<Rightarrow> 'a \<Rightarrow> 'a checked \<Rightarrow> bool" where
  "checks ok val r \<longleftrightarrow>
     (if ok then r = Returned val else \<exists>st e ls. r = Exits st e (Banner # ls) \<and> st mod 256 \<noteq> 0)"

lemma checks_if:
  assumes "ok \<longleftrightarrow> \<not> bad"
  shows "checks ok val (if bad then handle_error errno pb bv r n u e loc m else Returned val)"
proof (cases ok)
  case False
  have "(if u = 0 then 1 else if e \<in> known_errnos then e else - 1) mod 256 \<noteq> (0 :: int)"
    using known_errnos_range [of e] by auto
  with handle_error_status [of errno pb bv r n u e loc m] False assms show ?thesis
    unfolding checks_def by simp blast
qed (simp add: checks_def assms)

section \<open>Properties\<close>

text \<open>C33: Every check of \<open>err_utils.h\<close> returns its argument unchanged exactly when the condition it is named
  after holds, and otherwise ends the process after reporting the failure, with an exit status that
  the parent never sees as success, whatever \<open>errno\<close> is.\<close>

theorem checks_return_or_fail:
  "checks (val = 0) val (check_zero errno val loc m) \<and>
   checks (val = 0) val (check_zero_errno errno val loc) \<and>
   checks (val \<noteq> 0) val (check_not_zero errno val loc) \<and>
   checks (val \<noteq> - 1) val (check_not_m1 errno val loc) \<and>
   checks (val \<noteq> EOF) val (check_not_eof errno val loc) \<and>
   checks (val = 1) val (check_1 errno val loc) \<and>
   checks (0 \<le> val) val (check_not_negative errno val loc) \<and>
   checks (p \<noteq> NULL) p (check_not_null errno p loc) \<and>
   checks (p \<noteq> NULL) p (check_not_null_const errno p loc) \<and>
   checks (p \<noteq> NULL) p (check_not_null_filep errno p loc) \<and>
   checks (p \<noteq> NULL) p (check_not_null_charp errno p loc) \<and>
   checks (val \<in> {a, b}) val (check_oneoftwo errno val a b loc) \<and>
   checks (val \<noteq> 0) val (check_assert errno val loc) \<and>
   checks (p \<noteq> q) p (check_not_voidp errno p q loc) \<and>
   checks (p = q) p (check_voidp errno p q loc) \<and>
   checks (p \<noteq> q) p (check_not_sigt errno p q loc) \<and>
   checks (val = a) val (check_int errno val a loc) \<and>
   checks (val = a) val (check_int_noerrno errno val a loc) \<and>
   checks (val \<noteq> a) val (check_not_int errno val a loc) \<and>
   checks (p = q) p (check_charp errno p q loc) \<and>
   checks (val \<in> {a..<b}) val (check_in_range errno val a b loc) \<and>
   checks (0 < val) val (check_positive errno val loc) \<and>
   checks (0 \<le> val) val (check_gezero errno val loc)"
  unfolding check_defs by (intro conjI checks_if) auto

text \<open>\<open>CHECK_VOIDP\<close> does the opposite of the \<open>check_voidp\<close> it is named after: it returns exactly when
  the pointer differs from the expected one, and then the function would have ended the process.\<close>

theorem check_voidp_macro_inverted:
  "((\<exists>r. CHECK_VOIDP errno v e loc = Returned r) \<longleftrightarrow> v \<noteq> e) \<and>
   ((\<exists>r. check_voidp errno v e loc = Returned r) \<longleftrightarrow> v = e)"
proof -
  have "handle_error errno pb bv r n u e' loc m \<noteq> Returned x" for pb bv r n u e' m and x :: u64
    using handle_error_status [of errno pb bv r n u e' loc m] by (metis checked.distinct(1))
  then show ?thesis
    by (simp add: CHECK_VOIDP_def check_voidp_def check_not_voidp_def)
qed

end
