(* ===== verification/ErrTable.thy ===== *)
theory ErrTable
  imports ErrUtils
begin

text \<open>
  The searches of the error table of \<open>src/src/include/err_utils.h\<close> are inverse to each other, up to the
  names that Linux defines twice. The facts about the 120 entries are evaluated once, here.
\<close>

section \<open>The entries\<close>

definition alias_names :: "string list" where
  "alias_names = [''EDEADLOCK'', ''EOPNOTSUPP'', ''EWOULDBLOCK'']"

lemma distinct_err_names: "distinct (map snd err_tbl)"
  by code_simp

lemma err_tbl_first:
  "list_all (\<lambda>e. map_of err_tbl (fst e) = Some (snd e) \<longleftrightarrow> snd e \<notin> set alias_names) err_tbl"
  by code_simp

lemma error_get_by_name_listed:
  "(v, n) \<in> set err_tbl \<Longrightarrow> error_get_by_name errno n = Returned v"
proof -
  have "(v, n) \<in> set t \<Longrightarrow> distinct (map snd t) \<Longrightarrow> find (\<lambda>e. snd e = n) t = Some (v, n)"
    for t :: "(int \<times> string) list"
    by (induction t) (auto intro: rev_image_eqI)
  then show "(v, n) \<in> set err_tbl \<Longrightarrow> ?thesis"
    by (simp add: error_get_by_name_def distinct_err_names)
qed

lemma error_get_by_name_unlisted:
  "n \<notin> snd ` set err_tbl \<Longrightarrow> error_get_by_name errno n = Exits (- 1) errno [BadErrorName n]"
proof -
  assume "n \<notin> snd ` set err_tbl"
  then have "find (\<lambda>e. snd e = n) err_tbl = None"
    by (force simp: find_None_iff)
  then show ?thesis
    by (simp add: error_get_by_name_def)
qed

section \<open>Properties\<close>

text \<open>C32: The two searches of the error table are inverse to each other: the name that is found for a
  listed value has that value, and the value that is found for a listed name has that name, except for
  the three names that Linux defines as aliases of an error listed earlier. The names that are not in
  the table, and the values that are not, end the process.\<close>

theorem err_tbl_roundtrip:
  "(case error_get_by_val errno v of
      Returned n' \<Rightarrow> v \<in> known_errnos \<and> error_get_by_name errno n' = Returned v
    | Exits st e ls \<Rightarrow> v \<notin> known_errnos \<and> st = - 1) \<and>
   (case error_get_by_name errno n of
      Returned v' \<Rightarrow> n \<in> snd ` set err_tbl \<and>
        (error_get_by_val errno v' = Returned n \<longleftrightarrow> n \<notin> set alias_names)
    | Exits st e ls \<Rightarrow> n \<notin> snd ` set err_tbl \<and> st = - 1)"
proof
  show "case error_get_by_val errno v of
      Returned n' \<Rightarrow> v \<in> known_errnos \<and> error_get_by_name errno n' = Returned v
    | Exits st e ls \<Rightarrow> v \<notin> known_errnos \<and> st = - 1"
  proof (cases "v \<in> known_errnos")
    case True
    then obtain n' where "map_of err_tbl v = Some n'"
      by (metis known_errnos_def map_of_eq_None_iff option.exhaust)
    with True show ?thesis
      by (simp add: error_get_by_val_known error_get_by_name_listed map_of_SomeD)
  qed (simp add: error_get_by_val_known)
next
  show "case error_get_by_name errno n of
      Returned v' \<Rightarrow> n \<in> snd ` set err_tbl \<and>
        (error_get_by_val errno v' = Returned n \<longleftrightarrow> n \<notin> set alias_names)
    | Exits st e ls \<Rightarrow> n \<notin> snd ` set err_tbl \<and> st = - 1"
  proof (cases "n \<in> snd ` set err_tbl")
    case True
    then obtain v' where e: "(v', n) \<in> set err_tbl"
      by force
    then have k: "v' \<in> known_errnos"
      by (force simp: known_errnos_def)
    then obtain n' where "map_of err_tbl v' = Some n'"
      by (metis known_errnos_def map_of_eq_None_iff option.exhaust)
    with e k err_tbl_first show ?thesis
      by (force simp: error_get_by_val_known error_get_by_name_listed list_all_iff)
  qed (simp add: error_get_by_name_unlisted)
qed

end
