(* ===== verification/CircPipe.thy ===== *)
theory CircPipe
  imports RingFifo ErrUtils
begin

text \<open>
  \<open>src/src/include/CircularPipe.hh\<close>: a ring of bytes that is filled by \<open>read(2)\<close> and emptied by
  \<open>write(2)\<close>. The two system calls are arguments of \<open>push\<close> and \<open>pull\<close>: \<open>read\<close> maps the count it is asked
  for to the bytes it delivers, \<open>write\<close> the bytes it is given to the number it takes, and \<open>None\<close> is a
  call that fails with -1. The object interprets the contract of a pipe.
\<close>

section \<open>The object and its operations\<close>

record circ =
  csize :: u64
  cbuf :: "byte list"
  pos_read :: u64
  pos_write :: u64

text \<open>\<open>block\<close> is the memory \<open>malloc\<close> returns, with whatever it contains.\<close>

definition circ_ctor :: "int \<Rightarrow> site \<Rightarrow> u64 \<Rightarrow> (u64 \<times> byte list) \<Rightarrow> circ checked" where
  "circ_ctor errno loc isize block =
     (case check_not_null errno (fst block) loc of
        Returned _ \<Rightarrow> Returned \<lparr>csize = isize, cbuf = snd block, pos_read = 0, pos_write = 0\<rparr>
      | Exits st e ls \<Rightarrow> Exits st e ls)"

definition circ_data :: "circ \<Rightarrow> u64" where
  "circ_data p =
     (if pos_read p \<le> pos_write p then pos_write p - pos_read p
      else csize p - pos_read p + pos_write p)"

definition circ_room :: "circ \<Rightarrow> u64" where
  "circ_room p =
     (if pos_read p \<le> pos_write p then csize p - pos_write p + pos_read p - 1
      else pos_read p - pos_write p - 1)"

definition haveData :: "circ \<Rightarrow> bool" where
  "haveData p \<longleftrightarrow> circ_data p > 0"

definition haveRoom :: "circ \<Rightarrow> bool" where
  "haveRoom p \<longleftrightarrow> circ_room p > 0"

definition canPush :: "circ \<Rightarrow> bool" where
  "canPush p = haveRoom p"

definition canPull :: "circ \<Rightarrow> bool" where
  "canPull p = haveData p"

text \<open>What an \<open>int\<close> parameter receives of a system call that returns a \<open>ssize_t\<close>.\<close>

definition int_of_ssize :: "nat option \<Rightarrow> int" where
  "int_of_ssize r = sint (word_of_int (case r of None \<Rightarrow> - 1 | Some n \<Rightarrow> int n) :: u32)"

definition push_count :: "circ \<Rightarrow> u64" where
  "push_count p =
     (if pos_read p \<le> pos_write p
      then (let count = csize p - pos_write p in if pos_read p = 0 then count - 1 else count)
      else pos_read p - pos_write p - 1)"

definition pull_count :: "circ \<Rightarrow> u64" where
  "pull_count p =
     (if pos_read p \<le> pos_write p then pos_write p - pos_read p else csize p - pos_read p)"

definition circ_push ::
  "int \<Rightarrow> site \<Rightarrow> (u64 \<Rightarrow> byte list option) \<Rightarrow> circ \<Rightarrow> (bool \<times> circ) checked outcome" where
  "circ_push errno loc rd p =
    (let r = rd (push_count p)
     in if (case r of None \<Rightarrow> False | Some bs \<Rightarrow> length (cbuf p) < unat (pos_write p) + length bs)
        then Crash OutOfBounds
        else let p = p\<lparr>cbuf := (case r of None \<Rightarrow> cbuf p
                                | Some bs \<Rightarrow> blit (cbuf p) (unat (pos_write p)) bs)\<rparr>
             in (case check_not_m1 errno (int_of_ssize (map_option length r)) loc of
                   Exits st e ls \<Rightarrow> Done (Exits st e ls)
                 | Returned len \<Rightarrow>
                     if csize p = 0 then Crash DivideByZero
                     else Done (Returned (len = 0,
                       p\<lparr>pos_write := (pos_write p + word_of_int len) mod csize p\<rparr>))))"

definition circ_pull ::
  "int \<Rightarrow> site \<Rightarrow> (byte list \<Rightarrow> nat option) \<Rightarrow> circ \<Rightarrow> circ checked outcome" where
  "circ_pull errno loc wr p =
    (let count = pull_count p
     in if length (cbuf p) < unat (pos_read p) + unat count then Crash OutOfBounds
        else (case check_not_m1 errno
                (int_of_ssize (wr (chunk (cbuf p) (unat (pos_read p)) (unat count)))) loc of
                Exits st e ls \<Rightarrow> Done (Exits st e ls)
              | Returned len \<Rightarrow>
                  if csize p = 0 then Crash DivideByZero
                  else Done (Returned (p\<lparr>pos_read := (pos_read p + word_of_int len) mod csize p\<rparr>))))"

section \<open>Invariant and abstraction\<close>

definition circ_inv :: "circ \<Rightarrow> bool" where
  "circ_inv p \<longleftrightarrow> unat (csize p) = length (cbuf p) \<and> length (cbuf p) < 2 ^ 63 \<and>
     pos_read p < csize p \<and> pos_write p < csize p"

definition circ_contents :: "circ \<Rightarrow> byte list" where
  "circ_contents p = ring_contents (cbuf p) (unat (pos_read p)) (unat (pos_write p))"

definition circ_capacity :: "circ \<Rightarrow> nat" where
  "circ_capacity p = length (cbuf p) - 1"

text \<open>The arithmetic of the object, in the terms of rings.\<close>

lemma circ_inv_nat:
  assumes "circ_inv p"
  shows "unat (pos_read p) < length (cbuf p)" and "unat (pos_write p) < length (cbuf p)"
    and "csize p \<noteq> 0" and "length (cbuf p) < 2 ^ 63"
  using assms by (auto simp: circ_inv_def word_less_nat_alt)

lemma unat_pred_u64: "0 < unat (w :: u64) \<Longrightarrow> unat (w - 1) = unat w - 1"
  by (metis One_nat_def unat_1 unat_diff_u64 unat_gt_0 word_less_1 not_le)

lemma unat_diff_add_u64:
  "b \<le> a \<Longrightarrow> unat a - unat b + unat c < 2 ^ 64 \<Longrightarrow> unat (a - b + c :: u64) = unat a - unat b + unat c"
  by (simp add: unat_add_u64 unat_diff_u64)

lemma unat_circ_data:
  assumes "circ_inv p"
  shows "unat (circ_data p) = ring_used (length (cbuf p)) (unat (pos_read p)) (unat (pos_write p))"
proof (cases "pos_read p \<le> pos_write p")
  case True
  then show ?thesis
    by (simp add: circ_data_def ring_used_def unat_diff_u64 word_le_nat_alt)
next
  case False
  note i = circ_inv_nat [OF assms]
  have "unat (csize p - pos_read p + pos_write p) = unat (csize p) - unat (pos_read p) + unat (pos_write p)"
    by (rule unat_diff_add_u64) (use i assms in \<open>simp_all add: circ_inv_def order_less_imp_le\<close>)
  with False assms show ?thesis
    by (simp add: circ_data_def ring_used_def circ_inv_def word_le_nat_alt)
qed

lemma unat_circ_room:
  assumes "circ_inv p"
  shows "unat (circ_room p) = ring_room (length (cbuf p)) (unat (pos_read p)) (unat (pos_write p))"
proof (cases "pos_read p \<le> pos_write p")
  case True
  note i = circ_inv_nat [OF assms]
  have "unat (csize p - pos_write p + pos_read p) = unat (csize p) - unat (pos_write p) + unat (pos_read p)"
    by (rule unat_diff_add_u64) (use i assms in \<open>simp_all add: circ_inv_def order_less_imp_le\<close>)
  with True assms i show ?thesis
    by (simp add: circ_room_def ring_room_def circ_inv_def word_le_nat_alt unat_pred_u64)
next
  case False
  then show ?thesis
    by (simp add: circ_room_def ring_room_def word_le_nat_alt unat_pred_u64 unat_diff_u64)
qed

lemma unat_pull_count:
  assumes "circ_inv p"
  shows "unat (pull_count p) =
    min (ring_used (length (cbuf p)) (unat (pos_read p)) (unat (pos_write p)))
      (length (cbuf p) - unat (pos_read p))"
  using assms
  by (auto simp: pull_count_def ring_used_def circ_inv_def unat_diff_u64 word_le_nat_alt word_less_nat_alt)

lemma unat_push_count:
  assumes "circ_inv p"
  shows "unat (push_count p) =
    min (ring_room (length (cbuf p)) (unat (pos_read p)) (unat (pos_write p)))
      (length (cbuf p) - unat (pos_write p))"
proof -
  have r: "pos_read p = 0 \<longleftrightarrow> unat (pos_read p) = 0"
    by (simp add: unat_eq_0)
  show ?thesis
    unfolding push_count_def Let_def ring_room_def r
    using assms
    by (auto simp: circ_inv_def unat_diff_u64 unat_pred_u64 word_le_nat_alt word_less_nat_alt)
qed

lemma circ_mod_next:
  assumes "unat w < unat sz" and "n \<le> unat sz - unat w" and "unat sz < 2 ^ 63"
  shows "unat ((w + of_nat n) mod sz :: u64) = ring_next (unat sz) (unat w) n"
proof -
  have "unat (w + of_nat n) = unat w + n"
    using assms unat_add_u64 [of w "of_nat n"] by simp
  with assms show ?thesis
    by (auto simp: ring_next_def unat_mod)
qed

section \<open>What the two operations do\<close>

lemma check_not_m1_len:
  "n < 2 ^ 31 \<Longrightarrow> check_not_m1 errno (int_of_ssize (Some n)) loc = Returned (int n)"
proof -
  assume "n < 2 ^ 31"
  then have "int_of_ssize (Some n) = int n"
    unfolding int_of_ssize_def option.case by (subst sint_word_of_int_u32) simp_all
  then show ?thesis
    by (simp add: check_not_m1_def)
qed

lemma circ_push_ok:
  assumes inv: "circ_inv p" and rd: "rd (push_count p) = Some bs"
    and len: "length bs \<le> unat (push_count p)" "length bs < 2 ^ 31"
  obtains p' where "circ_push errno loc rd p = Done (Returned (bs = [], p'))"
    and "circ_inv p'" and "circ_contents p' = circ_contents p @ bs" and "circ_capacity p' = circ_capacity p"
proof -
  let ?n = "length (cbuf p)" and ?w = "unat (pos_write p)"
  note i = circ_inv_nat [OF inv] and c = unat_push_count [OF inv]
  from c len have fits: "?w + length bs \<le> ?n"
    and room: "length bs \<le> ring_room ?n (unat (pos_read p)) ?w"
    using i by auto
  let ?p' = "p\<lparr>cbuf := blit (cbuf p) ?w bs, pos_write := (pos_write p + of_nat (length bs)) mod csize p\<rparr>"
  have nxt: "unat (pos_write ?p') = ring_next ?n ?w (length bs)"
    using circ_mod_next [of "pos_write p" "csize p" "length bs"] inv i fits by (simp add: circ_inv_def)
  have "circ_inv ?p'"
    using inv fits nxt ring_next_less [OF i(2) fits]
    by (simp add: circ_inv_def word_less_nat_alt)
  moreover have "circ_contents ?p' = circ_contents p @ bs"
    using ring_put_chunk [OF i(1,2) fits room] nxt by (simp add: circ_contents_def)
  moreover have "circ_push errno loc rd p = Done (Returned (bs = [], ?p'))"
    using fits i(3) by (simp add: circ_push_def rd check_not_m1_len [OF len(2)] Let_def)
  ultimately show thesis
    using that [of ?p'] fits by (simp add: circ_capacity_def)
qed

lemma circ_pull_ok:
  assumes inv: "circ_inv p"
    and wr: "wr (chunk (cbuf p) (unat (pos_read p)) (unat (pull_count p))) = Some n"
    and len: "n \<le> unat (pull_count p)" "n < 2 ^ 31"
  obtains p' where "circ_pull errno loc wr p = Done (Returned p')" and "circ_inv p'"
    and "circ_contents p = take n (circ_contents p) @ circ_contents p'"
    and "circ_capacity p' = circ_capacity p"
proof -
  let ?n = "length (cbuf p)" and ?r = "unat (pos_read p)"
  note i = circ_inv_nat [OF inv] and c = unat_pull_count [OF inv]
  from c len have fits: "?r + n \<le> ?n"
    and used: "n \<le> ring_used ?n ?r (unat (pos_write p))"
    using i by auto
  let ?p' = "p\<lparr>pos_read := (pos_read p + of_nat n) mod csize p\<rparr>"
  have nxt: "unat (pos_read ?p') = ring_next ?n ?r n"
    using circ_mod_next [of "pos_read p" "csize p" n] inv i fits by (simp add: circ_inv_def)
  have "circ_inv ?p'"
    using inv fits nxt ring_next_less [OF i(1) fits]
    by (simp add: circ_inv_def word_less_nat_alt)
  moreover have "circ_contents p = take n (circ_contents p) @ circ_contents ?p'"
  proof -
    have "circ_contents p = chunk (cbuf p) ?r n @ circ_contents ?p'"
      using ring_get_chunk [OF i(1,2) fits used] nxt by (simp add: circ_contents_def)
    moreover have "length (chunk (cbuf p) ?r n) = n"
      using fits by simp
    ultimately show ?thesis
      by (metis append_eq_conv_conj)
  qed
  moreover have "circ_pull errno loc wr p = Done (Returned ?p')"
  proof -
    have "\<not> ?n < ?r + unat (pull_count p)"
      using i c by linarith
    with i(3) show ?thesis
      by (simp add: circ_pull_def wr check_not_m1_len [OF len(2)])
  qed
  ultimately show thesis
    using that [of ?p'] by (simp add: circ_capacity_def)
qed

section \<open>The contract of a pipe\<close>

text \<open>
  Any call of \<open>push\<close> whose \<open>read(2)\<close> delivers at most what was asked for (and, as Linux does, less
  than \<open>2 ^ 31\<close> bytes), and any call of \<open>pull\<close> whose \<open>write(2)\<close> takes at most what it is given.
\<close>

definition read_law :: "(u64 \<Rightarrow> byte list option) \<Rightarrow> bool" where
  "read_law rd \<longleftrightarrow> (\<forall>c bs. rd c = Some bs \<longrightarrow> length bs \<le> unat c \<and> length bs < 2 ^ 31)"

definition write_law :: "(byte list \<Rightarrow> nat option) \<Rightarrow> bool" where
  "write_law wr \<longleftrightarrow> (\<forall>bs n. wr bs = Some n \<longrightarrow> n \<le> length bs \<and> n < 2 ^ 31)"

inductive circ_step :: "circ \<Rightarrow> byte fifo_event \<Rightarrow> circ \<Rightarrow> bool" where
  step_push: "read_law rd \<Longrightarrow> rd (push_count p) = Some bs \<Longrightarrow>
    circ_push errno loc rd p = Done (Returned (eof, p')) \<Longrightarrow> circ_step p (Wrote bs) p'"
| step_pull: "write_law wr \<Longrightarrow>
    wr (chunk (cbuf p) (unat (pos_read p)) (unat (pull_count p))) = Some n \<Longrightarrow>
    circ_pull errno loc wr p = Done (Returned p') \<Longrightarrow>
    circ_step p (ReadOut (chunk (cbuf p) (unat (pos_read p)) n)) p'"

inductive_cases circ_step_WroteE: "circ_step p (Wrote bs) p'"
inductive_cases circ_step_ReadOutE: "circ_step p (ReadOut bs) p'"
inductive_cases circ_step_QuietE: "circ_step p Quiet p'"

text \<open>What \<open>pull\<close> offers to \<open>write(2)\<close> is the beginning of the contents.\<close>

lemma pull_chunk:
  assumes "circ_inv p" and "n \<le> unat (pull_count p)"
  shows "chunk (cbuf p) (unat (pos_read p)) n = take n (circ_contents p)"
    and "unat (pull_count p) \<le> length (circ_contents p)"
proof -
  note i = circ_inv_nat [OF assms(1)] and c = unat_pull_count [OF assms(1)]
  have "circ_contents p = chunk (cbuf p) (unat (pos_read p)) n @
      ring_contents (cbuf p) (ring_next (length (cbuf p)) (unat (pos_read p)) n) (unat (pos_write p))"
    unfolding circ_contents_def by (rule ring_get_chunk) (use i c assms(2) in linarith)+
  moreover have "length (chunk (cbuf p) (unat (pos_read p)) n) = n"
    by (rule length_chunk) (use i c assms(2) in linarith)
  ultimately show "chunk (cbuf p) (unat (pos_read p)) n = take n (circ_contents p)"
    by (metis append_eq_conv_conj)
  show "unat (pull_count p) \<le> length (circ_contents p)"
    using c by (simp add: circ_contents_def length_ring_contents [OF i(1,2)])
qed

lemma circ_step_push:
  assumes "circ_inv p" and "circ_step p (Wrote bs) p'"
  shows "circ_inv p' \<and> circ_contents p' = circ_contents p @ bs \<and> circ_capacity p' = circ_capacity p"
  using assms(2)
proof (rule circ_step_WroteE)
  fix rd errno loc eof
  assume "read_law rd" and r: "rd (push_count p) = Some bs"
    and d: "circ_push errno loc rd p = Done (Returned (eof, p'))"
  then have l: "length bs \<le> unat (push_count p)" "length bs < 2 ^ 31"
    by (auto simp: read_law_def)
  show ?thesis
    using circ_push_ok [of p rd bs errno loc] assms(1) r l d by auto
qed

lemma circ_step_pull:
  assumes "circ_inv p" and "circ_step p (ReadOut bs) p'"
  shows "circ_inv p' \<and> circ_contents p = bs @ circ_contents p' \<and> circ_capacity p' = circ_capacity p"
  using assms(2)
proof (rule circ_step_ReadOutE)
  fix wr n errno loc
  assume bs: "bs = chunk (cbuf p) (unat (pos_read p)) n" and "write_law wr"
    and w: "wr (chunk (cbuf p) (unat (pos_read p)) (unat (pull_count p))) = Some n"
    and d: "circ_pull errno loc wr p = Done (Returned p')"
  then have l: "n < 2 ^ 31" "n \<le> length (chunk (cbuf p) (unat (pos_read p)) (unat (pull_count p)))"
    by (auto simp: write_law_def)
  then have l': "n \<le> unat (pull_count p)"
    by (simp add: chunk_def)
  show ?thesis
    using circ_pull_ok [of p wr n errno loc] assms(1) w l' l(1) d pull_chunk [OF assms(1) l'] bs by auto
qed

interpretation circ: fifo_channel circ_step circ_inv circ_contents circ_capacity
proof
  fix s s' :: circ and e
  assume i: "circ_inv s" and "circ_step s e s'"
  then show "circ_inv s'" "circ_capacity s' = circ_capacity s"
    by (cases e; use circ_step_push circ_step_pull circ_step_QuietE in blast)+
next
  fix s :: circ
  assume "circ_inv s"
  then show "length (circ_contents s) \<le> circ_capacity s"
    using circ_inv_nat [of s] ring_room_used [of "unat (pos_read s)" "length (cbuf s)" "unat (pos_write s)"]
    by (simp add: circ_contents_def circ_capacity_def length_ring_contents)
qed (use circ_step_push circ_step_pull circ_step_QuietE in blast)+

lemma canPull_iff: "circ_inv p \<Longrightarrow> canPull p \<longleftrightarrow> circ_contents p \<noteq> []"
  using unat_circ_data [of p] circ_inv_nat [of p]
  by (simp add: canPull_def haveData_def word_greater_zero_iff flip: unat_gt_0)
    (simp add: circ_contents_def flip: length_greater_0_conv length_ring_contents)

lemma canPush_iff: "circ_inv p \<Longrightarrow> canPush p \<longleftrightarrow> length (circ_contents p) < circ_capacity p"
  using unat_circ_room [of p] circ_inv_nat [of p]
    ring_room_used [of "unat (pos_read p)" "length (cbuf p)" "unat (pos_write p)"]
  by (simp add: canPush_def haveRoom_def word_greater_zero_iff circ_contents_def circ_capacity_def
      length_ring_contents flip: unat_gt_0) linarith

lemma push_count_pos: "circ_inv p \<Longrightarrow> canPush p \<Longrightarrow> 0 < unat (push_count p)"
  using unat_circ_room [of p] circ_inv_nat [of p] unat_push_count [of p]
  by (simp add: canPush_def haveRoom_def word_greater_zero_iff flip: unat_gt_0)

lemma pull_count_pos: "circ_inv p \<Longrightarrow> canPull p \<Longrightarrow> 0 < unat (pull_count p)"
  using unat_circ_data [of p] circ_inv_nat [of p] unat_pull_count [of p]
  by (simp add: canPull_def haveData_def word_greater_zero_iff flip: unat_gt_0)

text \<open>A pipe of size 0 claims room for \<open>2 ^ 64 - 1\<close> bytes: the first \<open>push\<close> lets \<open>read(2)\<close> write past the
  buffer, or, when nothing is read, divides by zero.\<close>

lemma circ_size_0:
  assumes "circ_ctor errno loc 0 (ptr, []) = Returned p"
  shows "canPush p" and "push_count p = - 1"
    and "rd (- 1) = Some bs \<Longrightarrow> length bs < 2 ^ 31 \<Longrightarrow>
      circ_push errno loc rd p = Crash (if bs = [] then DivideByZero else OutOfBounds)"
proof -
  have p: "p = \<lparr>csize = 0, cbuf = [], pos_read = 0, pos_write = 0\<rparr>"
    using assms by (simp add: circ_ctor_def split: checked.splits)
  show "canPush p" and c: "push_count p = - 1"
    by (simp_all add: p canPush_def haveRoom_def circ_room_def push_count_def word_greater_zero_iff)
  assume "rd (- 1) = Some bs" and "length bs < 2 ^ 31"
  then show "circ_push errno loc rd p = Crash (if bs = [] then DivideByZero else OutOfBounds)"
    by (simp add: circ_push_def c check_not_m1_len Let_def) (simp add: p check_not_m1_def int_of_ssize_def)
qed

section \<open>Properties\<close>

text \<open>C13: A \<open>CircularPipe\<close> is a bounded FIFO: over every sequence of \<open>push\<close> and \<open>pull\<close>, with short reads and
  writes of any length, the bytes that \<open>pull\<close> has handed to \<open>write(2)\<close> are the first bytes that \<open>push\<close>
  received from \<open>read(2)\<close>, in order, at most the size less one is under way, and \<open>canPush\<close> and
  \<open>canPull\<close> say whether the pipe is not full and not empty.\<close>

theorem circular_pipe_fifo:
  assumes "steps circ_step p es p'" and "circ_inv p" and "circ_contents p = []"
  shows "bytes_written es = bytes_read es @ circ_contents p' \<and>
    length (circ_contents p') \<le> circ_capacity p \<and>
    (canPush p' \<longleftrightarrow> length (circ_contents p') < circ_capacity p) \<and>
    (canPull p' \<longleftrightarrow> circ_contents p' \<noteq> [])"
  using circ.conservation [OF assms(1,2)] circ.steps_inv [OF assms(1,2)] circ.bounded [of p'] assms(3)
    canPush_iff [of p'] canPull_iff [of p'] by auto

definition circ4 :: circ where
  "circ4 = \<lparr>csize = 4, cbuf = [0, 0, 0, 0], pos_read = 3, pos_write = 3\<rparr>"

theorem circular_pipe_fifo_witness:
  "\<exists>p'. steps circ_step circ4 [Wrote [65], Wrote [66, 67]] p' \<and> circ_contents p' = [65, 66, 67] \<and>
     \<not> canPush p' \<and> canPull p'"
proof -
  let ?site = "\<lparr>site_msg = [], site_file = [], site_function = [], site_line = 0\<rparr>"
  let ?rd1 = "\<lambda>c. Some (take (min (unat c) 1) [65])" and ?rd2 = "\<lambda>c. Some (take (min (unat c) 2) [66, 67])"
  let ?p1 = "circ4\<lparr>cbuf := [0, 0, 0, 65], pos_write := 0\<rparr>"
  let ?p2 = "circ4\<lparr>cbuf := [66, 67, 0, 65], pos_write := 2\<rparr>"
  have l: "read_law ?rd1" "read_law ?rd2"
    by (auto simp: read_law_def min_def split: if_splits)
  have c: "push_count circ4 = 1" "push_count ?p1 = 2"
    by (simp_all add: push_count_def circ4_def)
  have n: "check_not_m1 0 (int_of_ssize (Some 1)) ?site = Returned 1"
    "check_not_m1 0 (int_of_ssize (Some (Suc (Suc 0)))) ?site = Returned 2"
    using check_not_m1_len [of 1 0 ?site] check_not_m1_len [of "Suc (Suc 0)" 0 ?site] by simp_all
  have "circ_push 0 ?site ?rd1 circ4 = Done (Returned (False, ?p1))"
    using n by (simp add: circ_push_def c Let_def) (simp add: circ4_def blit_def)
  then have s1: "circ_step circ4 (Wrote [65]) ?p1"
    by (rule step_push [OF l(1), rotated]) (simp add: c)
  have "circ_push 0 ?site ?rd2 ?p1 = Done (Returned (False, ?p2))"
    using n by (simp add: circ_push_def c Let_def) (simp add: circ4_def blit_def)
  then have s2: "circ_step ?p1 (Wrote [66, 67]) ?p2"
    by (rule step_push [OF l(2), rotated]) (simp add: c)
  have s: "steps circ_step circ4 [Wrote [65], Wrote [66, 67]] ?p2"
    using s1 s2 by (auto simp: steps_Cons_iff)
  have i: "circ_inv circ4" "circ_contents circ4 = []" "circ_capacity circ4 = 3"
    by (simp_all add: circ_inv_def circ4_def circ_contents_def circ_capacity_def)
  note f = circular_pipe_fifo [OF s i(1,2)]
  then have "circ_contents ?p2 = [65, 66, 67]"
    by simp
  with f s i(3) show ?thesis
    by (intro exI [of _ ?p2]) simp
qed

end
