(* ===== verification/FileCopy.thy ===== *)
theory FileCopy
  imports CircPipe
begin

text \<open>
  Two of the file copy programs of \<open>src/src/examples/io/zero_copy\<close>: \<open>copy_file_select.cc\<close>, which drives a
  \<open>CircularPipe\<close> from a \<open>select(2)\<close> loop (\<open>src/src/include/Selector.hh\<close>), and
  \<open>copy_file_read_write.cc\<close>. A round of a loop takes what the kernel answers in that round from an
  environment: which descriptors are ready, how many bytes \<open>read(2)\<close> delivers and \<open>write(2)\<close> takes. The
  list of environments bounds the number of rounds, and \<open>None\<close> is a loop that has not ended yet.
\<close>

section \<open>Selector\<close>

record selector =
  rfds :: "int set"
  wfds :: "int set"
  fd_max :: int

definition selector_null :: "selector \<Rightarrow> selector" where
  "selector_null s = s\<lparr>rfds := {}, wfds := {}, fd_max := 0\<rparr>"

definition addReadFd :: "int \<Rightarrow> selector \<Rightarrow> selector" where
  "addReadFd fd s = s\<lparr>rfds := insert fd (rfds s), fd_max := max (fd_max s) fd\<rparr>"

definition addWriteFd :: "int \<Rightarrow> selector \<Rightarrow> selector" where
  "addWriteFd fd s = s\<lparr>wfds := insert fd (wfds s), fd_max := max (fd_max s) fd\<rparr>"

definition isReadActive :: "int \<Rightarrow> selector \<Rightarrow> bool" where
  "isReadActive fd s \<longleftrightarrow> fd \<in> rfds s"

definition isWriteActive :: "int \<Rightarrow> selector \<Rightarrow> bool" where
  "isWriteActive fd s \<longleftrightarrow> fd \<in> wfds s"

type_synonym select_fun = "int \<Rightarrow> int set \<Rightarrow> int set \<Rightarrow> (int set \<times> int set) option"

definition doSelect :: "int \<Rightarrow> site \<Rightarrow> select_fun \<Rightarrow> selector \<Rightarrow> selector checked" where
  "doSelect errno loc sel s =
     (case sel (fd_max s + 1) (rfds s) (wfds s) of
        None \<Rightarrow> (case check_not_m1 errno (- 1) loc of Exits st e ls \<Rightarrow> Exits st e ls | Returned _ \<Rightarrow> Returned s)
      | Some (r, w) \<Rightarrow> Returned (s\<lparr>rfds := r, wfds := w\<rparr>))"

section \<open>copy\_file\_select.cc\<close>

record copy_env =
  env_select :: select_fun
  env_read :: "u64 \<Rightarrow> nat option"
  env_write :: "nat \<Rightarrow> nat option"

record copy_state =
  cp_pipe :: circ
  cp_eof :: bool
  cp_rest :: "byte list"
  cp_out :: "byte list"

definition checked_then :: "'a checked \<Rightarrow> ('a \<Rightarrow> 'b checked outcome) \<Rightarrow> 'b checked outcome" where
  "checked_then c f = (case c of Exits st e ls \<Rightarrow> Done (Exits st e ls) | Returned x \<Rightarrow> f x)"

text \<open>\<open>read(2)\<close> on the input moves its position over the bytes it delivers, \<open>write(2)\<close> appends.\<close>

definition copy_push :: "int \<Rightarrow> site \<Rightarrow> copy_env \<Rightarrow> copy_state \<Rightarrow> copy_state checked outcome" where
  "copy_push errno loc env st =
    (let n = env_read env (push_count (cp_pipe st))
     in outcome_bind (circ_push errno loc (\<lambda>c. map_option (\<lambda>n. take n (cp_rest st)) (env_read env c)) (cp_pipe st))
       (\<lambda>r. checked_then r (\<lambda>(eof, p).
          Done (Returned (st\<lparr>cp_pipe := p, cp_eof := (if eof then True else cp_eof st),
            cp_rest := (case n of None \<Rightarrow> cp_rest st | Some n \<Rightarrow> drop n (cp_rest st))\<rparr>)))))"

definition copy_pull :: "int \<Rightarrow> site \<Rightarrow> copy_env \<Rightarrow> copy_state \<Rightarrow> copy_state checked outcome" where
  "copy_pull errno loc env st =
    (let p = cp_pipe st;
         bs = chunk (cbuf p) (unat (pos_read p)) (unat (pull_count p))
     in outcome_bind (circ_pull errno loc (\<lambda>bs. env_write env (length bs)) p)
       (\<lambda>r. checked_then r (\<lambda>p.
          Done (Returned (st\<lparr>cp_pipe := p,
            cp_out := cp_out st @ (case env_write env (length bs) of None \<Rightarrow> [] | Some n \<Rightarrow> take n bs)\<rparr>)))))"

definition copy_round ::
  "int \<Rightarrow> site \<Rightarrow> int \<Rightarrow> int \<Rightarrow> copy_env \<Rightarrow> copy_state \<Rightarrow> copy_state checked outcome" where
  "copy_round errno loc fdin fdout env st =
    (let s = \<lparr>rfds = {}, wfds = {}, fd_max = 0\<rparr>;
         s = selector_null s;
         s = (if canPush (cp_pipe st) \<and> \<not> cp_eof st then addReadFd fdin s else s);
         s = (if canPull (cp_pipe st) then addWriteFd fdout s else s)
     in checked_then (doSelect errno loc (env_select env) s)
       (\<lambda>s. outcome_bind
          (if isReadActive fdin s then copy_push errno loc env st else Done (Returned st))
          (\<lambda>r. checked_then r (\<lambda>st.
             if isWriteActive fdout s then copy_pull errno loc env st else Done (Returned st)))))"

fun copy_loop ::
  "int \<Rightarrow> site \<Rightarrow> int \<Rightarrow> int \<Rightarrow> copy_env list \<Rightarrow> copy_state \<Rightarrow> copy_state checked outcome option" where
  "copy_loop errno loc fdin fdout [] st = None"
| "copy_loop errno loc fdin fdout (env # envs) st =
    (case copy_round errno loc fdin fdout env st of
       Done (Returned st) \<Rightarrow>
         if \<not> cp_eof st \<or> canPull (cp_pipe st) then copy_loop errno loc fdin fdout envs st
         else Some (Done (Returned st))
     | r \<Rightarrow> Some r)"

text \<open>
  The whole of \<open>copy_file\<close>: what the constructor's \<open>malloc\<close>, the two calls of \<open>open(2)\<close> and the two of
  \<open>close(2)\<close> return are arguments. The result is the contents of the output file.
\<close>

record copy_calls =
  malloc_ret :: "u64 \<times> byte list"
  open_in :: int
  open_out :: int
  close_in :: int
  close_out :: int

definition copy_file_select ::
  "int \<Rightarrow> site \<Rightarrow> copy_calls \<Rightarrow> copy_env list \<Rightarrow> u32 \<Rightarrow> byte list \<Rightarrow>
    byte list checked outcome option" where
  "copy_file_select errno loc k envs bufsize file =
    (case circ_ctor errno loc (ucast bufsize) (malloc_ret k) of
       Exits st e ls \<Rightarrow> Some (Done (Exits st e ls))
     | Returned p \<Rightarrow>
         (case check_not_m1 errno (open_in k) loc of
            Exits st e ls \<Rightarrow> Some (Done (Exits st e ls))
          | Returned fdin \<Rightarrow>
              (case check_not_m1 errno (open_out k) loc of
                 Exits st e ls \<Rightarrow> Some (Done (Exits st e ls))
               | Returned fdout \<Rightarrow>
                   (case copy_loop errno loc fdin fdout envs
                      \<lparr>cp_pipe = p, cp_eof = False, cp_rest = file, cp_out = []\<rparr> of
                      None \<Rightarrow> None
                    | Some r \<Rightarrow> Some (outcome_bind r (\<lambda>r. checked_then r (\<lambda>st.
                        checked_then (check_not_m1 errno (close_in k) loc) (\<lambda>_.
                        checked_then (check_not_m1 errno (close_out k) loc) (\<lambda>_.
                          Done (Returned (cp_out st)))))))))))"

section \<open>copy\_file\_read\_write.cc\<close>

text \<open>The inner loop: \<open>ws\<close> holds one answer of \<open>write(2)\<close> per round.\<close>

fun write_all ::
  "int \<Rightarrow> site \<Rightarrow> (nat \<Rightarrow> nat option) list \<Rightarrow> byte list \<Rightarrow> byte list \<Rightarrow> byte list checked option" where
  "write_all errno loc ws bs out =
    (if length bs > 0
     then (case ws of
             [] \<Rightarrow> None
           | w # ws \<Rightarrow>
               (case check_not_m1 errno (int_of_ssize (w (length bs))) loc of
                  Exits st e ls \<Rightarrow> Some (Exits st e ls)
                | Returned n \<Rightarrow> write_all errno loc ws (drop (nat n) bs) (out @ take (nat n) bs)))
     else Some (Returned out))"

fun read_write_loop ::
  "int \<Rightarrow> site \<Rightarrow> u32 \<Rightarrow> ((u64 \<Rightarrow> nat option) \<times> (nat \<Rightarrow> nat option) list) list \<Rightarrow>
    byte list \<Rightarrow> byte list \<Rightarrow> byte list checked option" where
  "read_write_loop errno loc bufsize [] rest out = None"
| "read_write_loop errno loc bufsize ((rd, ws) # envs) rest out =
    (let r = rd (ucast bufsize);
         bs = (case r of None \<Rightarrow> [] | Some n \<Rightarrow> take n rest);
         rest = (case r of None \<Rightarrow> rest | Some n \<Rightarrow> drop n rest)
     in (case check_not_m1 errno (int_of_ssize (map_option (\<lambda>_. length bs) r)) loc of
           Exits st e ls \<Rightarrow> Some (Exits st e ls)
         | Returned read_bytes \<Rightarrow>
             (case write_all errno loc ws bs out of
                Some (Returned out) \<Rightarrow>
                  if read_bytes > 0 then read_write_loop errno loc bufsize envs rest out
                  else Some (Returned out)
              | r \<Rightarrow> r)))"

definition copy_file_read_write ::
  "int \<Rightarrow> site \<Rightarrow> copy_calls \<Rightarrow> ((u64 \<Rightarrow> nat option) \<times> (nat \<Rightarrow> nat option) list) list \<Rightarrow>
    u32 \<Rightarrow> byte list \<Rightarrow> byte list checked option" where
  "copy_file_read_write errno loc k envs bufsize file =
    (case check_not_m1 errno (open_in k) loc of
       Exits st e ls \<Rightarrow> Some (Exits st e ls)
     | Returned fdin \<Rightarrow>
         (case check_not_m1 errno (open_out k) loc of
            Exits st e ls \<Rightarrow> Some (Exits st e ls)
          | Returned fdout \<Rightarrow>
              (case read_write_loop errno loc bufsize envs file [] of
                 Some (Returned out) \<Rightarrow>
                   (case check_not_m1 errno (close_in k) loc of
                      Exits st e ls \<Rightarrow> Some (Exits st e ls)
                    | Returned _ \<Rightarrow>
                        (case check_not_m1 errno (close_out k) loc of
                           Exits st e ls \<Rightarrow> Some (Exits st e ls)
                         | Returned _ \<Rightarrow> Some (Returned out)))
               | r \<Rightarrow> r)))"

declare write_all.simps [simp del]

section \<open>What the kernel promises\<close>

text \<open>
  \<open>select(2)\<close> without a timeout never adds a descriptor, and looks at those below its first argument:
  if there is one among them it returns with one that is ready. \<open>read(2)\<close> and \<open>write(2)\<close> move at least
  one byte and at most as many as asked for (\<open>read\<close>: until the end of the file), and less than
  \<open>2 ^ 31\<close>.
\<close>

definition select_law :: "select_fun \<Rightarrow> bool" where
  "select_law sel \<longleftrightarrow> (\<forall>n r w. \<exists>r' w'. sel n r w = Some (r', w') \<and> r' \<subseteq> r \<and> w' \<subseteq> w \<and>
     ((\<exists>fd\<in>r \<union> w. 0 \<le> fd \<and> fd < n) \<longrightarrow> r' \<union> w' \<noteq> {}))"

definition io_law :: "('a \<Rightarrow> nat) \<Rightarrow> ('a \<Rightarrow> nat option) \<Rightarrow> bool" where
  "io_law size_of io \<longleftrightarrow> (\<forall>c. \<exists>n. io c = Some n \<and> n \<le> size_of c \<and> n < 2 ^ 31 \<and> (0 < size_of c \<longrightarrow> 0 < n))"

definition copy_env_law :: "copy_env \<Rightarrow> bool" where
  "copy_env_law env \<longleftrightarrow>
     select_law (env_select env) \<and> io_law unat (env_read env) \<and> io_law (\<lambda>n. n) (env_write env)"

lemma io_lawE:
  assumes "io_law size_of io"
  obtains n where "io c = Some n" and "n \<le> size_of c" and "n < 2 ^ 31" and "0 < size_of c \<Longrightarrow> 0 < n"
  using assms unfolding io_law_def by blast

section \<open>One round of the select loop\<close>

definition copy_inv :: "byte list \<Rightarrow> copy_state \<Rightarrow> bool" where
  "copy_inv file st \<longleftrightarrow> circ_inv (cp_pipe st) \<and> 0 < circ_capacity (cp_pipe st) \<and>
     cp_out st @ circ_contents (cp_pipe st) @ cp_rest st = file \<and> (cp_eof st \<longrightarrow> cp_rest st = [])"

definition copy_measure :: "copy_state \<Rightarrow> nat" where
  "copy_measure st =
     2 * length (cp_rest st) + length (circ_contents (cp_pipe st)) + (if cp_eof st then 0 else 1)"

lemma copy_push_progress:
  assumes "copy_inv file st" and "copy_env_law env" and "canPush (cp_pipe st)" and "\<not> cp_eof st"
  obtains st' where "copy_push errno loc env st = Done (Returned st')" and "copy_inv file st'"
    and "copy_measure st' < copy_measure st"
    and "circ_contents (cp_pipe st) \<noteq> [] \<Longrightarrow> circ_contents (cp_pipe st') \<noteq> []"
proof -
  let ?p = "cp_pipe st" and ?rd = "\<lambda>c. map_option (\<lambda>n. take n (cp_rest st)) (env_read env c)"
  have inv: "circ_inv ?p"
    using assms(1) by (simp add: copy_inv_def)
  obtain n where n: "env_read env (push_count ?p) = Some n" "n \<le> unat (push_count ?p)" "n < 2 ^ 31" "0 < n"
    using assms(2) push_count_pos [OF inv assms(3)] io_lawE unfolding copy_env_law_def by metis
  let ?bs = "take n (cp_rest st)"
  have rd: "?rd (push_count ?p) = Some ?bs" "length ?bs \<le> unat (push_count ?p)" "length ?bs < 2 ^ 31"
    using n by auto
  obtain p' where p': "circ_push errno loc ?rd ?p = Done (Returned (?bs = [], p'))" "circ_inv p'"
      "circ_contents p' = circ_contents ?p @ ?bs" "circ_capacity p' = circ_capacity ?p"
    using circ_push_ok [of ?p ?rd ?bs errno loc] inv rd by blast
  let ?st' = "st\<lparr>cp_pipe := p', cp_eof := (if ?bs = [] then True else cp_eof st), cp_rest := drop n (cp_rest st)\<rparr>"
  have eq: "copy_push errno loc env st = Done (Returned ?st')"
    unfolding copy_push_def Let_def p'(1) using n by (simp add: checked_then_def del: take_eq_Nil)
  show thesis
  proof (rule that [OF eq])
    show "copy_inv file ?st'"
      using assms(1) p' n(4) by (auto simp: copy_inv_def)
    show "copy_measure ?st' < copy_measure st"
      using p'(3) n(4) assms(4)
      by (auto simp: copy_measure_def min_def not_le simp flip: length_greater_0_conv)
    show "circ_contents (cp_pipe st) \<noteq> [] \<Longrightarrow> circ_contents (cp_pipe ?st') \<noteq> []"
      using p'(3) by simp
  qed
qed

lemma copy_pull_progress:
  assumes "copy_inv file st" and "copy_env_law env" and "canPull (cp_pipe st)"
  obtains st' where "copy_pull errno loc env st = Done (Returned st')" and "copy_inv file st'"
    and "copy_measure st' < copy_measure st"
proof -
  let ?p = "cp_pipe st"
  let ?c = "unat (pull_count ?p)"
  let ?bs = "chunk (cbuf ?p) (unat (pos_read ?p)) ?c" and ?wr = "\<lambda>bs. env_write env (length bs)"
  have inv: "circ_inv ?p"
    using assms(1) by (simp add: copy_inv_def)
  note full = pull_chunk [OF inv order_refl]
  have len: "length ?bs = ?c"
    using full by simp
  obtain n where n: "env_write env ?c = Some n" "n \<le> ?c" "n < 2 ^ 31" "0 < n"
    using assms(2) pull_count_pos [OF inv assms(3)] io_lawE [of "\<lambda>n. n"] unfolding copy_env_law_def by metis
  obtain p' where p': "circ_pull errno loc ?wr ?p = Done (Returned p')" "circ_inv p'"
      "circ_contents ?p = take n (circ_contents ?p) @ circ_contents p'" "circ_capacity p' = circ_capacity ?p"
    using circ_pull_ok [of ?p ?wr n errno loc] inv n len by auto
  let ?st' = "st\<lparr>cp_pipe := p', cp_out := cp_out st @ take n (circ_contents ?p)\<rparr>"
  have "take n ?bs = take n (circ_contents ?p)"
    using n(2) by (simp add: full(1) min_absorb1)
  then have eq: "copy_pull errno loc env st = Done (Returned ?st')"
    unfolding copy_pull_def Let_def p'(1) using n len by (simp add: checked_then_def)
  show thesis
  proof (rule that [OF eq])
    show "copy_inv file ?st'"
      using assms(1) p' by (simp add: copy_inv_def) (metis append.assoc)
    have "length (circ_contents ?p) = min n (length (circ_contents ?p)) + length (circ_contents p')"
      by (metis length_append length_take min.commute p'(3))
    then show "copy_measure ?st' < copy_measure st"
      using n full(2) by (simp add: copy_measure_def)
  qed
qed

lemma copy_round_progress:
  assumes inv: "copy_inv file st" and law: "copy_env_law env" and fds: "0 \<le> fdin" "0 \<le> fdout"
    and more: "\<not> cp_eof st \<or> canPull (cp_pipe st)"
  obtains st' where "copy_round errno loc fdin fdout env st = Done (Returned st')" and "copy_inv file st'"
    and "copy_measure st' < copy_measure st"
proof -
  let ?p = "cp_pipe st"
  have ci: "circ_inv ?p" and cap: "0 < circ_capacity ?p"
    using inv by (auto simp: copy_inv_def)
  define rs where "rs = (if canPush ?p \<and> \<not> cp_eof st then {fdin} else {})"
  define ws where "ws = (if canPull ?p then {fdout} else {})"
  define m where "m = max (if canPush ?p \<and> \<not> cp_eof st then fdin else 0) (if canPull ?p then fdout else 0)"
  have some: "\<exists>fd\<in>rs \<union> ws. 0 \<le> fd \<and> fd < m + 1"
    using more canPush_iff [OF ci] canPull_iff [OF ci] cap fds by (auto simp: rs_def ws_def m_def)
  then obtain r w where sel: "env_select env (m + 1) rs ws = Some (r, w)"
      and sub: "r \<subseteq> rs" "w \<subseteq> ws" "r \<union> w \<noteq> {}"
    using law unfolding copy_env_law_def select_law_def by metis
  have round: "copy_round errno loc fdin fdout env st = outcome_bind
      (if fdin \<in> r then copy_push errno loc env st else Done (Returned st))
      (\<lambda>r. checked_then r (\<lambda>st. if fdout \<in> w then copy_pull errno loc env st else Done (Returned st)))"
    using sel fds
    by (auto simp: copy_round_def selector_null_def addReadFd_def addWriteFd_def doSelect_def
        checked_then_def isReadActive_def isWriteActive_def rs_def ws_def m_def max_def split: if_splits)
  have wp: "fdout \<in> w \<Longrightarrow> canPull ?p" and rp: "fdin \<in> r \<Longrightarrow> canPush ?p \<and> \<not> cp_eof st"
    using sub by (auto simp: rs_def ws_def split: if_splits)
  show thesis
  proof (cases "fdin \<in> r")
    case True
    obtain st1 where st1: "copy_push errno loc env st = Done (Returned st1)" "copy_inv file st1"
        "copy_measure st1 < copy_measure st"
        "circ_contents ?p \<noteq> [] \<Longrightarrow> circ_contents (cp_pipe st1) \<noteq> []"
      using copy_push_progress [OF inv law, of errno loc] rp [OF True] by metis
    show thesis
    proof (cases "fdout \<in> w")
      case w: True
      have "canPull (cp_pipe st1)"
        using st1(2,4) wp [OF w] by (simp add: canPull_iff ci copy_inv_def)
      from copy_pull_progress [OF st1(2) law this, of errno loc]
      obtain st2 where "copy_pull errno loc env st1 = Done (Returned st2)" "copy_inv file st2"
        "copy_measure st2 < copy_measure st1" .
      then show thesis
        using that [of st2] st1 True w round by (simp add: checked_then_def)
    qed (use that [of st1] st1 True round in \<open>simp add: checked_then_def\<close>)
  next
    case False
    then have "fdout \<in> w"
      using sub by (auto simp: rs_def ws_def split: if_splits)
    with copy_pull_progress [OF inv law wp, of errno loc] show thesis
      using that False round by (auto simp: checked_then_def)
  qed
qed

lemma copy_loop_ends:
  assumes "copy_inv file st" and "\<And>env. env \<in> set envs \<Longrightarrow> copy_env_law env" and "0 \<le> fdin" "0 \<le> fdout"
    and "\<not> cp_eof st \<or> canPull (cp_pipe st)" and "copy_measure st \<le> length envs"
  shows "\<exists>st'. copy_loop errno loc fdin fdout envs st = Some (Done (Returned st')) \<and> cp_out st' = file"
  using assms
proof (induction envs arbitrary: st)
  case Nil
  have "circ_inv (cp_pipe st)"
    using Nil.prems(1) by (simp add: copy_inv_def)
  with Nil.prems(5,6) show ?case
    by (auto simp: copy_measure_def canPull_iff split: if_splits)
next
  case (Cons env envs)
  from Cons.prems(2) have "copy_env_law env" by simp
  from copy_round_progress [OF Cons.prems(1) this Cons.prems(3,4,5), of errno loc]
  obtain st' where st': "copy_round errno loc fdin fdout env st = Done (Returned st')" "copy_inv file st'"
    "copy_measure st' < copy_measure st" .
  show ?case
  proof (cases "\<not> cp_eof st' \<or> canPull (cp_pipe st')")
    case True
    from Cons.IH [OF st'(2) _ Cons.prems(3,4) True] Cons.prems(2,6) st' True show ?thesis
      by auto
  next
    case False
    then have "cp_out st' = file"
      using st'(2) by (auto simp: copy_inv_def canPull_iff)
    with st'(1) False show ?thesis
      by simp
  qed
qed

section \<open>The read and write loop\<close>

lemma write_all_ends:
  assumes "\<And>w. w \<in> set ws \<Longrightarrow> io_law (\<lambda>n. n) w" and "length bs \<le> length ws"
  shows "write_all errno loc ws bs out = Some (Returned (out @ bs))"
  using assms
proof (induction ws arbitrary: bs out)
  case Nil
  then show ?case
    by (simp add: write_all.simps [of _ _ "[]"])
next
  case (Cons w ws)
  show ?case
  proof (cases "bs = []")
    case True
    then show ?thesis
      by (simp add: write_all.simps [of _ _ "w # ws"])
  next
    case False
    from Cons.prems(1) have "io_law (\<lambda>n. n) w" by simp
    then obtain n where n: "w (length bs) = Some n" "n \<le> length bs" "n < 2 ^ 31" "0 < length bs \<longrightarrow> 0 < n"
      unfolding io_law_def by blast
    have "write_all errno loc ws (drop n bs) (out @ take n bs) = Some (Returned ((out @ take n bs) @ drop n bs))"
      by (rule Cons.IH) (use Cons.prems n False in auto)
    with False n(1) show ?thesis
      by (simp add: write_all.simps [of _ _ "w # ws"] check_not_m1_len [OF n(3)])
  qed
qed

definition read_write_env_law ::
  "u32 \<Rightarrow> (u64 \<Rightarrow> nat option) \<times> (nat \<Rightarrow> nat option) list \<Rightarrow> bool" where
  "read_write_env_law bufsize env \<longleftrightarrow> io_law unat (fst env) \<and> (\<forall>w\<in>set (snd env). io_law (\<lambda>n. n) w) \<and>
     unat bufsize \<le> length (snd env)"

lemma read_write_loop_ends:
  assumes "\<And>env. env \<in> set envs \<Longrightarrow> read_write_env_law bufsize env" and "0 < bufsize"
    and "length rest < length envs"
  shows "read_write_loop errno loc bufsize envs rest out = Some (Returned (out @ rest))"
  using assms
proof (induction envs arbitrary: rest out)
  case (Cons env envs)
  obtain rd ws where env: "env = (rd, ws)"
    by fastforce
  with Cons.prems(1) have "read_write_env_law bufsize (rd, ws)"
    by simp
  then have law: "io_law unat rd" "\<And>w. w \<in> set ws \<Longrightarrow> io_law (\<lambda>n. n) w" "unat bufsize \<le> length ws"
    by (auto simp: read_write_env_law_def)
  have b: "unat (ucast bufsize :: u64) = unat bufsize"
    by (rule unat_ucast_u64)
  obtain n where n: "rd (ucast bufsize) = Some n" "n \<le> unat bufsize" "n < 2 ^ 31" "0 < n"
    using io_lawE [OF law(1), of "ucast bufsize"] Cons.prems(2) b by (metis unat_gt_0 word_gt_0)
  have "length (take n rest) < 2 ^ 31"
    using n(3) by simp
  note len = check_not_m1_len [OF this]
  have w: "write_all errno loc ws (take n rest) out = Some (Returned (out @ take n rest))"
    by (rule write_all_ends) (use law n(2) in auto)
  show ?case
  proof (cases "rest = []")
    case True
    then show ?thesis
      using w len by (simp add: env n(1))
  next
    case False
    have "read_write_loop errno loc bufsize envs (drop n rest) (out @ take n rest) =
        Some (Returned ((out @ take n rest) @ drop n rest))"
      by (rule Cons.IH) (use Cons.prems n(4) False in \<open>auto simp: neq_Nil_conv\<close>)
    with False show ?thesis
      using w len n(4) by (simp add: env n(1))
  qed
qed simp

section \<open>Properties\<close>

text \<open>Files that can be opened and closed, and a buffer that \<open>malloc\<close> can provide.\<close>

definition calls_ok :: "copy_calls \<Rightarrow> u32 \<Rightarrow> bool" where
  "calls_ok k bufsize \<longleftrightarrow> fst (malloc_ret k) \<noteq> NULL \<and> length (snd (malloc_ret k)) = unat bufsize \<and>
     0 \<le> open_in k \<and> 0 \<le> open_out k \<and> close_in k \<noteq> - 1 \<and> close_out k \<noteq> - 1"

text \<open>C12: \<open>copy_file_select\<close> copies. Whatever \<open>select\<close>, \<open>read\<close> and \<open>write\<close> answer within their contracts
  (which descriptor is ready when, how short the reads and writes are), for every buffer of two bytes
  or more, the loop ends after at most \<open>2 * length file + 1\<close> rounds, the process does not fail, no
  copy leaves the ring, and the output is the input.\<close>

theorem copy_file_select_copies:
  assumes "calls_ok k bufsize" and "2 \<le> unat bufsize"
    and "\<And>env. env \<in> set envs \<Longrightarrow> copy_env_law env" and "2 * length file < length envs"
  shows "copy_file_select errno loc k envs bufsize file = Some (Done (Returned file))"
proof -
  let ?p = "\<lparr>csize = ucast bufsize, cbuf = snd (malloc_ret k), pos_read = 0, pos_write = 0\<rparr>"
  let ?st = "\<lparr>cp_pipe = ?p, cp_eof = False, cp_rest = file, cp_out = []\<rparr>"
  have b: "unat (ucast bufsize :: u64) = unat bufsize" "unat bufsize < 2 ^ 63"
    using unat_less_u32 [of bufsize] by (simp_all add: unat_ucast_u64)
  have inv: "copy_inv file ?st"
    using assms(1,2) b by (simp add: copy_inv_def circ_inv_def circ_capacity_def circ_contents_def
        calls_ok_def word_less_nat_alt)
  have "copy_measure ?st \<le> length envs"
    using assms(4) by (simp add: copy_measure_def circ_contents_def)
  then obtain st' where "copy_loop errno loc (open_in k) (open_out k) envs ?st = Some (Done (Returned st'))"
      "cp_out st' = file"
    using copy_loop_ends [OF inv assms(3), of envs "open_in k" "open_out k" errno loc] assms(1)
    by (auto simp: calls_ok_def)
  then show ?thesis
    using assms(1) by (simp add: copy_file_select_def circ_ctor_def check_not_null_def check_not_m1_def
        calls_ok_def checked_then_def)
qed

text \<open>Kernels for the witnesses: every descriptor is ready, and every call moves one byte.\<close>

definition one_byte_env :: copy_env where
  "one_byte_env = \<lparr>env_select = (\<lambda>n r w. Some (r, w)), env_read = (\<lambda>c. Some (if c = 0 then 0 else 1)),
     env_write = (\<lambda>n. Some (if n = 0 then 0 else 1))\<rparr>"

definition small_calls :: copy_calls where
  "small_calls = \<lparr>malloc_ret = (4096, [0, 0]), open_in = 3, open_out = 4, close_in = 0, close_out = 0\<rparr>"

lemma one_byte_env_laws:
  "copy_env_law one_byte_env" "io_law unat (env_read one_byte_env)" "io_law (\<lambda>n. n) (env_write one_byte_env)"
  by (auto simp: copy_env_law_def select_law_def io_law_def one_byte_env_def Suc_le_eq unat_gt_0)

lemma small_calls_ok: "calls_ok small_calls 2"
  by (simp add: calls_ok_def small_calls_def NULL_def)

theorem copy_file_select_copies_witness:
  "copy_file_select 0 \<lparr>site_msg = [], site_file = [], site_function = [], site_line = 0\<rparr> small_calls
     (replicate 7 one_byte_env) 2 [65, 66, 67] =
     Some (Done (Returned [65, 66, 67]))"
  by (rule copy_file_select_copies [OF small_calls_ok]) (auto simp: one_byte_env_laws)

text \<open>\<open>copy_file_read_write\<close> copies. Whatever short reads and writes the kernel returns, for every
  buffer that is not empty, the loops end and the output is the input: one round per byte of the file
  and one more, and at most as many calls of \<open>write\<close> in a round as the buffer has bytes.\<close>

theorem copy_file_read_write_copies:
  assumes "calls_ok k bufsize" and "0 < bufsize"
    and "\<And>env. env \<in> set envs \<Longrightarrow> read_write_env_law bufsize env" and "length file < length envs"
  shows "copy_file_read_write errno loc k envs bufsize file = Some (Returned file)"
  using read_write_loop_ends [OF assms(3,2,4), of errno loc "[]"] assms(1)
  by (simp add: copy_file_read_write_def check_not_m1_def calls_ok_def)

theorem copy_file_read_write_copies_witness:
  "copy_file_read_write 0 \<lparr>site_msg = [], site_file = [], site_function = [], site_line = 0\<rparr> small_calls
     (replicate 4 (env_read one_byte_env, replicate 2 (env_write one_byte_env))) 2 [65, 66, 67] =
     Some (Returned [65, 66, 67])"
  by (rule copy_file_read_write_copies [OF small_calls_ok])
    (auto simp: one_byte_env_laws read_write_env_law_def)

end
