(* ===== verification/Threads.thy ===== *)
theory Threads
  imports RingFifo
begin

text \<open>
  What the models of the multi-threaded programs share: threads are numbered from 0, their local states are
  a function of the number, and the numbers of threads in a state are counted.
\<close>

lemma sum_fun_upd:
  fixes h :: "nat \<Rightarrow> 'a \<Rightarrow> nat"
  assumes "i < n"
  shows "(\<Sum>j<n. h j ((f(i := x)) j)) + h i (f i) = (\<Sum>j<n. h j (f j)) + h i x"
proof -
  have "(\<Sum>j\<in>{..<n} - {i}. h j ((f(i := x)) j)) = (\<Sum>j\<in>{..<n} - {i}. h j (f j))"
    by (rule sum.cong) auto
  then show ?thesis
    using assms sum.remove [of "{..<n}" i "\<lambda>j. h j ((f(i := x)) j)"] sum.remove [of "{..<n}" i "\<lambda>j. h j (f j)"]
    by simp
qed

text \<open>The number of threads below \<open>n\<close> whose local state is in \<open>A\<close>.\<close>

definition threads_at :: "nat \<Rightarrow> 'a set \<Rightarrow> (nat \<Rightarrow> 'a) \<Rightarrow> nat" where
  "threads_at n A f = (\<Sum>j<n. if f j \<in> A then 1 else 0)"

lemma threads_at_upd:
  "i < n \<Longrightarrow> threads_at n A (f(i := x)) + (if f i \<in> A then 1 else 0) = threads_at n A f + (if x \<in> A then 1 else 0)"
  unfolding threads_at_def using sum_fun_upd [of i n "\<lambda>_ y. if y \<in> A then 1 else 0" f x] .

lemma threads_at_0: "threads_at n A f = 0 \<longleftrightarrow> (\<forall>i < n. f i \<notin> A)"
  by (auto simp: threads_at_def)

lemma threads_at_card: "threads_at n A f = card {i. i < n \<and> f i \<in> A}"
  by (simp add: threads_at_def sum.If_cases lessThan_def Collect_conj_eq)

lemma threads_at_Un:
  "A \<inter> B = {} \<Longrightarrow> threads_at n (A \<union> B) f = threads_at n A f + threads_at n B f"
  unfolding threads_at_def by (subst sum.distrib [symmetric]) (rule sum.cong, auto)

text \<open>A step of a thread changes the count of a set by what the thread leaves and what it enters.\<close>

lemma threads_at_enter:
  "i < n \<Longrightarrow> f i \<notin> A \<Longrightarrow> x \<in> A \<Longrightarrow> threads_at n A (f(i := x)) = Suc (threads_at n A f)"
  using threads_at_upd [of i n A f x] by simp

lemma threads_at_exit:
  "i < n \<Longrightarrow> f i \<in> A \<Longrightarrow> x \<notin> A \<Longrightarrow> Suc (threads_at n A (f(i := x))) = threads_at n A f"
  using threads_at_upd [of i n A f x] by simp

lemma threads_at_same:
  "(f i \<in> A) = (x \<in> A) \<Longrightarrow> threads_at n A (f(i := x)) = threads_at n A f"
  unfolding threads_at_def by (rule sum.cong) auto

text \<open>The number of threads below \<open>n\<close> that satisfy a predicate on their number and local state.\<close>

definition cnt :: "nat \<Rightarrow> (nat \<Rightarrow> 'a \<Rightarrow> bool) \<Rightarrow> (nat \<Rightarrow> 'a) \<Rightarrow> nat" where
  "cnt n P p = (\<Sum>t<n. of_bool (P t (p t)))"

lemma cnt_upd:
  assumes "t < n"
  shows "cnt n P (p(t := v)) + of_bool (P t (p t)) = cnt n P p + of_bool (P t v)"
proof -
  have "(\<Sum>u\<in>{..<n} - {t}. of_bool (P u ((p(t := v)) u))) = (\<Sum>u\<in>{..<n} - {t}. of_bool (P u (p u)) :: nat)"
    by (rule sum.cong) auto
  moreover have "cnt n P q = of_bool (P t (q t)) + (\<Sum>u\<in>{..<n} - {t}. of_bool (P u (q u)))" for q
    unfolding cnt_def by (rule sum.remove) (use assms in auto)
  ultimately show ?thesis
    by (simp only: fun_upd_same)
qed

lemma cnt_le: "cnt n P p \<le> n"
  unfolding cnt_def by (rule order_trans [OF sum_bounded_above [where K = 1]]) auto

lemma cnt_0: "cnt n P p = 0 \<longleftrightarrow> (\<forall>t<n. \<not> P t (p t))"
  by (auto simp: cnt_def)

lemma cnt_pos: "0 < cnt n P p \<longleftrightarrow> (\<exists>t<n. P t (p t))"
  using cnt_0 [of n P p] by auto

lemma cnt_mono: "(\<And>t v. P t v \<Longrightarrow> Q t v) \<Longrightarrow> cnt n P p \<le> cnt n Q p"
  unfolding cnt_def by (rule sum_mono) (auto simp: of_bool_def)

lemma cnt_strict:
  assumes "\<And>t v. P t v \<Longrightarrow> Q t v" and "t < n" and "Q t (p t)" and "\<not> P t (p t)"
  shows "cnt n P p < cnt n Q p"
  unfolding cnt_def by (rule sum_strict_mono_ex1) (use assms in \<open>auto simp: of_bool_def\<close>)

lemma cnt_less_n: "t < n \<Longrightarrow> \<not> P t (p t) \<Longrightarrow> cnt n P p < n"
  using cnt_strict [of P "\<lambda>_ _. True" t n p] by (simp add: cnt_def)

lemma cnt_two:
  assumes "t < n" "u < n" "t \<noteq> u" "P t (p t)" "P u (p u)"
  shows "1 < cnt n P p"
proof -
  have "cnt n (\<lambda>v q. v = t \<and> P v q) p < cnt n P p"
    by (rule cnt_strict [where t = u]) (use assms in auto)
  moreover have "0 < cnt n (\<lambda>v q. v = t \<and> P v q) p"
    using assms by (auto simp: cnt_pos)
  ultimately show ?thesis by linarith
qed

text \<open>A run, seen through a labelling of its events.\<close>

lemma steps_map:
  "steps step s es s' \<Longrightarrow> steps (\<lambda>s e s'. \<exists>l. step s l s' \<and> e = f l) s (map f es) s'"
  by (induction rule: steps.induct) (auto intro: steps.intros)

text \<open>Half of the numbers below \<open>n\<close> are odd, and at least as many are even.\<close>

lemma card_odd_le_even: "card {i :: nat. i < n \<and> odd i} \<le> card {i. i < n \<and> even i}"
proof -
  have "{i. i < n \<and> odd i} = Suc ` {i. Suc i < n \<and> even i}"
    by (auto simp: image_iff elim!: oddE)
  then have "card {i. i < n \<and> odd i} = card {i. Suc i < n \<and> even i}"
    by (simp add: card_image)
  also have "\<dots> \<le> card {i. i < n \<and> even i}"
    by (rule card_mono) auto
  finally show ?thesis .
qed

end
