(* ===== verification/RwLock.thy ===== *)
theory RwLock
  imports Threads
begin

text \<open>
  The readers-writer locks of \<open>src/src/exercises/multi_threading/readers_writer_lock\<close>: \<open>solution.cc\<close>,
  \<open>solution2.cc\<close> and \<open>solution3.cc\<close>, which differ in the condition variables and in what \<open>unlock\<close>
  wakes, with the test program that runs \<open>thread_num\<close> workers against them. All the accesses to a
  lock are made with its mutex held, so that a step of a worker is a whole section of the code: from
  \<open>pthread_mutex_lock\<close> (or the return of \<open>pthread_cond_wait\<close>) to \<open>pthread_mutex_unlock\<close> (or the next
  \<open>pthread_cond_wait\<close>). The accesses of the worker to its two global counters are steps of their own.
  The counters are \<open>unsigned int\<close>; their wrap-around is written out.
\<close>

section \<open>The lock\<close>

record rwlock =
  readers :: nat
  writers :: nat
  readers_waiting :: nat
  writers_waiting :: nat

definition inc32 :: "nat \<Rightarrow> nat" where
  "inc32 x = (x + 1) mod 2 ^ 32"

definition dec32 :: "nat \<Rightarrow> nat" where
  "dec32 x = (x + (2 ^ 32 - 1)) mod 2 ^ 32"

definition mypthread_rwlock_init :: rwlock where
  "mypthread_rwlock_init = \<lparr>readers = 0, writers = 0, readers_waiting = 0, writers_waiting = 0\<rparr>"

text \<open>
  One turn of the loop of \<open>rdlock\<close> and of \<open>wrlock\<close>: \<open>True\<close> says that the lock was taken, \<open>False\<close> that the
  caller waits on the condition. \<open>resume\<close> is the rest of a turn after \<open>pthread_cond_wait\<close>, followed by
  the next turn.
\<close>

definition rdlock_turn :: "rwlock \<Rightarrow> rwlock \<times> bool" where
  "rdlock_turn l =
     (if writers l > 0 then (l\<lparr>readers_waiting := inc32 (readers_waiting l)\<rparr>, False)
      else (l\<lparr>readers := inc32 (readers l)\<rparr>, True))"

definition rdlock_resume :: "rwlock \<Rightarrow> rwlock \<times> bool" where
  "rdlock_resume l = rdlock_turn (l\<lparr>readers_waiting := dec32 (readers_waiting l)\<rparr>)"

definition wrlock_turn :: "rwlock \<Rightarrow> rwlock \<times> bool" where
  "wrlock_turn l =
     (if readers l > 0 \<or> writers l > 0 then (l\<lparr>writers_waiting := inc32 (writers_waiting l)\<rparr>, False)
      else (l\<lparr>writers := inc32 (writers l)\<rparr>, True))"

definition wrlock_resume :: "rwlock \<Rightarrow> rwlock \<times> bool" where
  "wrlock_resume l = wrlock_turn (l\<lparr>writers_waiting := dec32 (writers_waiting l)\<rparr>)"

text \<open>
  What \<open>unlock\<close> wakes: nobody, everybody on the one condition variable of the first two solutions, all
  readers, or (\<open>pthread_cond_signal\<close>) at least one writer.
\<close>

datatype rwake = WakeNone | WakeAll | WakeReaders | SignalWriter

definition unlock_solution1 :: "rwlock \<Rightarrow> rwlock \<times> rwake" where
  "unlock_solution1 l =
     (let l = (if readers l \<noteq> 0 then l\<lparr>readers := dec32 (readers l)\<rparr>
               else l\<lparr>writers := dec32 (writers l)\<rparr>)
      in (l, WakeAll))"

definition unlock_solution2 :: "rwlock \<Rightarrow> rwlock \<times> rwake" where
  "unlock_solution2 l =
     (let l = (if readers l \<noteq> 0 then l\<lparr>readers := dec32 (readers l)\<rparr>
               else l\<lparr>writers := dec32 (writers l)\<rparr>)
      in (l, if writers_waiting l > 0 \<or> readers_waiting l > 0 then WakeAll else WakeNone))"

definition unlock_solution3 :: "rwlock \<Rightarrow> rwlock \<times> rwake" where
  "unlock_solution3 l =
     (if readers l \<noteq> 0
      then let l = l\<lparr>readers := dec32 (readers l)\<rparr>
           in (l, if writers_waiting l > 0 \<and> readers l = 0 then SignalWriter
                  else if readers_waiting l > 0 \<and> writers l = 0 then WakeReaders else WakeNone)
      else let l = l\<lparr>writers := dec32 (writers l)\<rparr>
           in (l, if writers_waiting l > 0 \<and> readers l = 0 then SignalWriter
                  else if readers_waiting l > 0 \<and> writers l = 0 then WakeReaders else WakeNone))"

section \<open>The workers\<close>

text \<open>
  \<open>AtLoop\<close> is the head of the loop, \<open>CondSleep\<close> and \<open>CondWoken\<close> are inside \<open>pthread_cond_wait\<close> before and
  after the wake-up, \<open>Entered\<close> has the lock, \<open>HalfChecked\<close> is a writer between its two assertions,
  \<open>Checked\<close> is about to count itself, \<open>Inside\<close> has done so, \<open>Leaving\<close> is about to unlock.
\<close>

datatype wpc = AtLoop | CondSleep | CondWoken | Entered | HalfChecked | Checked | Inside | Leaving | AssertFailed

record rwsys =
  lk :: rwlock
  wpc_of :: "nat \<Rightarrow> wpc"
  left :: "nat \<Rightarrow> nat"
  g_readers :: nat
  g_writers :: nat

definition is_reader :: "nat \<Rightarrow> bool" where
  "is_reader t \<longleftrightarrow> t mod 2 = 0"

definition lock_turn :: "nat \<Rightarrow> rwlock \<Rightarrow> rwlock \<times> bool" where
  "lock_turn t = (if is_reader t then rdlock_turn else wrlock_turn)"

definition lock_resume :: "nat \<Rightarrow> rwlock \<Rightarrow> rwlock \<times> bool" where
  "lock_resume t = (if is_reader t then rdlock_resume else wrlock_resume)"

definition sleepers :: "nat \<Rightarrow> (nat \<Rightarrow> wpc) \<Rightarrow> (nat \<Rightarrow> bool) \<Rightarrow> nat set" where
  "sleepers n p P = {t. t < n \<and> p t = CondSleep \<and> P t}"

fun woken_set :: "nat \<Rightarrow> (nat \<Rightarrow> wpc) \<Rightarrow> rwake \<Rightarrow> nat set \<Rightarrow> bool" where
  "woken_set n p WakeNone W \<longleftrightarrow> W = {}"
| "woken_set n p WakeAll W \<longleftrightarrow> W = sleepers n p (\<lambda>_. True)"
| "woken_set n p WakeReaders W \<longleftrightarrow> W = sleepers n p is_reader"
| "woken_set n p SignalWriter W \<longleftrightarrow> W \<subseteq> sleepers n p (\<lambda>t. \<not> is_reader t) \<and>
     (sleepers n p (\<lambda>t. \<not> is_reader t) \<noteq> {} \<longrightarrow> W \<noteq> {})"

definition wake :: "nat set \<Rightarrow> (nat \<Rightarrow> wpc) \<Rightarrow> nat \<Rightarrow> wpc" where
  "wake W p = (\<lambda>t. if t \<in> W then CondWoken else p t)"

text \<open>
  \<open>unlock\<close> is the operation of one of the solutions, \<open>spurious\<close> says whether \<open>pthread_cond_wait\<close> may
  return without a wake-up (POSIX allows it), \<open>n\<close> is the number of workers.
\<close>

inductive worker_step ::
  "(rwlock \<Rightarrow> rwlock \<times> rwake) \<Rightarrow> bool \<Rightarrow> nat \<Rightarrow> rwsys \<Rightarrow> nat \<Rightarrow> rwsys \<Rightarrow> bool"
  for unlock spurious n where
  w_lock: "t < n \<Longrightarrow> wpc_of s t = AtLoop \<Longrightarrow> left s t > 0 \<Longrightarrow> lock_turn t (lk s) = (l, taken) \<Longrightarrow>
    worker_step unlock spurious n s t
      (s\<lparr>lk := l, wpc_of := (wpc_of s)(t := if taken then Entered else CondSleep)\<rparr>)"
| w_resume: "t < n \<Longrightarrow> wpc_of s t = CondWoken \<Longrightarrow> lock_resume t (lk s) = (l, taken) \<Longrightarrow>
    worker_step unlock spurious n s t
      (s\<lparr>lk := l, wpc_of := (wpc_of s)(t := if taken then Entered else CondSleep)\<rparr>)"
| w_spurious: "spurious \<Longrightarrow> t < n \<Longrightarrow> wpc_of s t = CondSleep \<Longrightarrow>
    worker_step unlock spurious n s t (s\<lparr>wpc_of := (wpc_of s)(t := CondWoken)\<rparr>)"
| w_check_reader: "t < n \<Longrightarrow> is_reader t \<Longrightarrow> wpc_of s t = Entered \<Longrightarrow>
    worker_step unlock spurious n s t
      (s\<lparr>wpc_of := (wpc_of s)(t := if g_writers s = 0 then Checked else AssertFailed)\<rparr>)"
| w_check_writer: "t < n \<Longrightarrow> \<not> is_reader t \<Longrightarrow> wpc_of s t = Entered \<Longrightarrow>
    worker_step unlock spurious n s t
      (s\<lparr>wpc_of := (wpc_of s)(t := if g_readers s = 0 then HalfChecked else AssertFailed)\<rparr>)"
| w_check_writer2: "t < n \<Longrightarrow> wpc_of s t = HalfChecked \<Longrightarrow>
    worker_step unlock spurious n s t
      (s\<lparr>wpc_of := (wpc_of s)(t := if g_writers s = 0 then Checked else AssertFailed)\<rparr>)"
| w_count_reader: "t < n \<Longrightarrow> is_reader t \<Longrightarrow> wpc_of s t = Checked \<Longrightarrow>
    worker_step unlock spurious n s t
      (s\<lparr>g_readers := inc32 (g_readers s), wpc_of := (wpc_of s)(t := Inside)\<rparr>)"
| w_count_writer: "t < n \<Longrightarrow> \<not> is_reader t \<Longrightarrow> wpc_of s t = Checked \<Longrightarrow>
    worker_step unlock spurious n s t
      (s\<lparr>g_writers := inc32 (g_writers s), wpc_of := (wpc_of s)(t := Inside)\<rparr>)"
| w_uncount_reader: "t < n \<Longrightarrow> is_reader t \<Longrightarrow> wpc_of s t = Inside \<Longrightarrow>
    worker_step unlock spurious n s t
      (s\<lparr>g_readers := dec32 (g_readers s), wpc_of := (wpc_of s)(t := Leaving)\<rparr>)"
| w_uncount_writer: "t < n \<Longrightarrow> \<not> is_reader t \<Longrightarrow> wpc_of s t = Inside \<Longrightarrow>
    worker_step unlock spurious n s t
      (s\<lparr>g_writers := dec32 (g_writers s), wpc_of := (wpc_of s)(t := Leaving)\<rparr>)"
| w_unlock: "t < n \<Longrightarrow> wpc_of s t = Leaving \<Longrightarrow> unlock (lk s) = (l, w) \<Longrightarrow>
    woken_set n (wpc_of s) w W \<Longrightarrow>
    worker_step unlock spurious n s t
      (s\<lparr>lk := l, wpc_of := (wake W (wpc_of s))(t := AtLoop), left := (left s)(t := left s t - 1)\<rparr>)"

definition rw_start :: "nat \<Rightarrow> rwsys" where
  "rw_start loops =
     \<lparr>lk = mypthread_rwlock_init, wpc_of = (\<lambda>_. AtLoop), left = (\<lambda>_. loops), g_readers = 0, g_writers = 0\<rparr>"

section \<open>Counters\<close>

lemma cnt_wake:
  assumes "W \<subseteq> sleepers n p (\<lambda>_. True)" and "\<And>t. P t CondWoken = P t CondSleep"
  shows "cnt n P (wake W p) = cnt n P p"
  unfolding cnt_def wake_def by (rule sum.cong) (use assms in \<open>auto simp: sleepers_def\<close>)

lemma inc32_small [simp]: "x < 2 ^ 32 - 1 \<Longrightarrow> inc32 x = Suc x"
  by (simp add: inc32_def)

lemma dec32_pos [simp]: "0 < x \<Longrightarrow> x < 2 ^ 32 \<Longrightarrow> dec32 x = x - 1"
proof -
  assume "0 < x" and "x < 2 ^ 32"
  then have "x + (2 ^ 32 - 1) = (x - 1) + 2 ^ 32" by simp
  with \<open>x < 2 ^ 32\<close> show ?thesis
    unfolding dec32_def by (metis less_imp_diff_less mod_add_self2 mod_less)
qed

section \<open>The contract of unlock\<close>

text \<open>
  What the workers need of \<open>unlock\<close>: it takes away the caller's mark, and when it leaves the lock free
  while threads wait it wakes all of them, or a writer if there is one, or else all readers.
\<close>

definition release_mark :: "rwlock \<Rightarrow> rwlock" where
  "release_mark l = (if readers l \<noteq> 0 then l\<lparr>readers := dec32 (readers l)\<rparr>
     else l\<lparr>writers := dec32 (writers l)\<rparr>)"

locale rw_unlock =
  fixes unlock :: "rwlock \<Rightarrow> rwlock \<times> rwake"
  assumes unlock_marks: "fst (unlock l) = release_mark l"
    and unlock_wakes: "readers (release_mark l) = 0 \<Longrightarrow> writers (release_mark l) = 0 \<Longrightarrow>
      0 < readers_waiting l \<or> 0 < writers_waiting l \<Longrightarrow>
      snd (unlock l) = WakeAll \<or> snd (unlock l) = (if 0 < writers_waiting l then SignalWriter else WakeReaders)"

definition has_lock :: "wpc \<Rightarrow> bool" where
  "has_lock p \<longleftrightarrow> p \<in> {Entered, HalfChecked, Checked, Inside, Leaving}"

definition waiting :: "wpc \<Rightarrow> bool" where
  "waiting p \<longleftrightarrow> p \<in> {CondSleep, CondWoken}"

abbreviation role_in :: "bool \<Rightarrow> (wpc \<Rightarrow> bool) \<Rightarrow> nat \<Rightarrow> wpc \<Rightarrow> bool" where
  "role_in r Q \<equiv> \<lambda>t p. is_reader t = r \<and> Q p"

definition counts_ok :: "nat \<Rightarrow> rwsys \<Rightarrow> bool" where
  "counts_ok n s \<longleftrightarrow>
     readers (lk s) = cnt n (role_in True has_lock) (wpc_of s) \<and>
     writers (lk s) = cnt n (role_in False has_lock) (wpc_of s) \<and>
     readers_waiting (lk s) = cnt n (role_in True waiting) (wpc_of s) \<and>
     writers_waiting (lk s) = cnt n (role_in False waiting) (wpc_of s) \<and>
     g_readers s = cnt n (role_in True (\<lambda>p. p = Inside)) (wpc_of s) \<and>
     g_writers s = cnt n (role_in False (\<lambda>p. p = Inside)) (wpc_of s)"

definition exclusive :: "rwsys \<Rightarrow> bool" where
  "exclusive s \<longleftrightarrow> writers (lk s) = 0 \<or> writers (lk s) = 1 \<and> readers (lk s) = 0"

definition points_ok :: "nat \<Rightarrow> rwsys \<Rightarrow> bool" where
  "points_ok n s \<longleftrightarrow> (\<forall>t<n. wpc_of s t \<noteq> AssertFailed \<and> (wpc_of s t = HalfChecked \<longrightarrow> \<not> is_reader t) \<and>
     (wpc_of s t \<noteq> AtLoop \<longrightarrow> 0 < left s t))"

definition sleep_ok :: "nat \<Rightarrow> rwsys \<Rightarrow> bool" where
  "sleep_ok n s \<longleftrightarrow> (\<exists>t<n. wpc_of s t = CondSleep) \<longrightarrow>
     0 < readers (lk s) \<or> 0 < writers (lk s) \<or> (\<exists>u<n. \<not> is_reader u \<and> wpc_of s u = CondWoken)"

lemma counts_ok_upd:
  assumes "t < n" and "counts_ok n s" and "wpc_of s' = (wpc_of s)(t := v)"
  shows "counts_ok n s' \<longleftrightarrow>
    readers (lk s') + of_bool (is_reader t = True \<and> has_lock (wpc_of s t)) =
      readers (lk s) + of_bool (is_reader t = True \<and> has_lock v) \<and>
    writers (lk s') + of_bool (is_reader t = False \<and> has_lock (wpc_of s t)) =
      writers (lk s) + of_bool (is_reader t = False \<and> has_lock v) \<and>
    readers_waiting (lk s') + of_bool (is_reader t = True \<and> waiting (wpc_of s t)) =
      readers_waiting (lk s) + of_bool (is_reader t = True \<and> waiting v) \<and>
    writers_waiting (lk s') + of_bool (is_reader t = False \<and> waiting (wpc_of s t)) =
      writers_waiting (lk s) + of_bool (is_reader t = False \<and> waiting v) \<and>
    g_readers s' + of_bool (is_reader t = True \<and> wpc_of s t = Inside) =
      g_readers s + of_bool (is_reader t = True \<and> v = Inside) \<and>
    g_writers s' + of_bool (is_reader t = False \<and> wpc_of s t = Inside) =
      g_writers s + of_bool (is_reader t = False \<and> v = Inside)"
proof -
  have iff: "x = cnt n (role_in r Q) ((wpc_of s)(t := v)) \<longleftrightarrow>
      x + of_bool (is_reader t = r \<and> Q (wpc_of s t)) = a + of_bool (is_reader t = r \<and> Q v)"
    if "a = cnt n (role_in r Q) (wpc_of s)" for x a r Q
    using that cnt_upd [OF assms(1), where P = "role_in r Q" and p = "wpc_of s" and v = v] by linarith
  show ?thesis
    using assms(2) unfolding counts_ok_def assms(3) by (intro conj_cong iff) blast+
qed

text \<open>What the counters say about one thread.\<close>

lemma counts_thread:
  assumes "counts_ok n s" and "t < n" and "is_reader t"
  shows "\<not> has_lock (wpc_of s t) \<Longrightarrow> readers (lk s) < n"
    and "has_lock (wpc_of s t) \<Longrightarrow> 0 < readers (lk s)"
    and "\<not> waiting (wpc_of s t) \<Longrightarrow> readers_waiting (lk s) < n"
    and "waiting (wpc_of s t) \<Longrightarrow> 0 < readers_waiting (lk s)"
    and "wpc_of s t \<noteq> Inside \<Longrightarrow> g_readers s < n"
    and "wpc_of s t = Inside \<Longrightarrow> 0 < g_readers s"
  using assms unfolding counts_ok_def by (auto simp: cnt_pos intro!: cnt_less_n)

lemma counts_thread_writer:
  assumes "counts_ok n s" and "t < n" and "\<not> is_reader t"
  shows "\<not> has_lock (wpc_of s t) \<Longrightarrow> writers (lk s) < n"
    and "has_lock (wpc_of s t) \<Longrightarrow> 0 < writers (lk s)"
    and "\<not> waiting (wpc_of s t) \<Longrightarrow> writers_waiting (lk s) < n"
    and "waiting (wpc_of s t) \<Longrightarrow> 0 < writers_waiting (lk s)"
    and "wpc_of s t \<noteq> Inside \<Longrightarrow> g_writers s < n"
    and "wpc_of s t = Inside \<Longrightarrow> 0 < g_writers s"
  using assms unfolding counts_ok_def by (auto simp: cnt_pos intro!: cnt_less_n)

lemma counts_le:
  assumes "counts_ok n s"
  shows "readers (lk s) \<le> n" "writers (lk s) \<le> n" "readers_waiting (lk s) \<le> n" "writers_waiting (lk s) \<le> n"
    "g_readers s \<le> n" "g_writers s \<le> n"
  using assms by (simp_all add: counts_ok_def cnt_le)

lemma inc32_less: "x < n \<Longrightarrow> n < 2 ^ 32 \<Longrightarrow> inc32 x = Suc x"
  by (rule inc32_small) simp

lemma dec32_le: "0 < x \<Longrightarrow> x \<le> n \<Longrightarrow> n < 2 ^ 32 \<Longrightarrow> dec32 x = x - 1"
  by (rule dec32_pos) simp_all

lemma points: "has_lock AtLoop = False" "has_lock CondSleep = False" "has_lock CondWoken = False" "has_lock Entered"
  "has_lock HalfChecked" "has_lock Checked" "has_lock Inside" "has_lock Leaving"
  "waiting AtLoop = False" "waiting CondSleep" "waiting CondWoken" "waiting Entered = False"
  "waiting HalfChecked = False" "waiting Checked = False" "waiting Inside = False" "waiting Leaving = False"
  by (simp_all add: has_lock_def waiting_def)

definition lock_inv :: "nat \<Rightarrow> rwsys \<Rightarrow> bool" where
  "lock_inv n s \<longleftrightarrow> counts_ok n s \<and> exclusive s"

lemma lock_turn_inv:
  assumes inv: "lock_inv n s" and n: "n < 2 ^ 32" "t < n" and pc: "wpc_of s t = AtLoop"
    and turn: "lock_turn t (lk s) = (l, taken)"
  shows "lock_inv n (s\<lparr>lk := l, wpc_of := (wpc_of s)(t := if taken then Entered else CondSleep)\<rparr>)"
proof -
  have c: "counts_ok n s" and x: "exclusive s"
    using inv by (auto simp: lock_inv_def)
  show ?thesis
  proof (cases "is_reader t")
    case True
    note b = counts_thread [OF c n(2) True]
    show ?thesis
      unfolding lock_inv_def
      by (subst counts_ok_upd [OF n(2) c])
        (use True turn pc b x in \<open>auto simp: lock_turn_def rdlock_turn_def exclusive_def points
          inc32_less [OF _ n(1)] split: if_splits\<close>)
  next
    case False
    note b = counts_thread_writer [OF c n(2) False]
    show ?thesis
      unfolding lock_inv_def
      by (subst counts_ok_upd [OF n(2) c])
        (use False turn pc b x in \<open>auto simp: lock_turn_def wrlock_turn_def exclusive_def points
          inc32_less [OF _ n(1)] split: if_splits\<close>)
  qed
qed

text \<open>A resumed turn is a turn in the state where the thread is back at the head of the loop.\<close>

lemma lock_resume_inv:
  assumes inv: "lock_inv n s" and n: "n < 2 ^ 32" "t < n" and pc: "wpc_of s t = CondWoken"
    and turn: "lock_resume t (lk s) = (l, taken)"
  shows "lock_inv n (s\<lparr>lk := l, wpc_of := (wpc_of s)(t := if taken then Entered else CondSleep)\<rparr>)"
proof -
  define l0 where "l0 = (if is_reader t then (lk s)\<lparr>readers_waiting := dec32 (readers_waiting (lk s))\<rparr>
    else (lk s)\<lparr>writers_waiting := dec32 (writers_waiting (lk s))\<rparr>)"
  define s0 where "s0 = s\<lparr>lk := l0, wpc_of := (wpc_of s)(t := AtLoop)\<rparr>"
  have c: "counts_ok n s" and x: "exclusive s"
    using inv by (auto simp: lock_inv_def)
  have "counts_ok n s0"
  proof (cases "is_reader t")
    case True
    show ?thesis
      by (subst counts_ok_upd [OF n(2) c, of _ AtLoop])
        (use True pc counts_thread(4) [OF c n(2) True] counts_le(3) [OF c]
         in \<open>auto simp: s0_def l0_def points dec32_le [OF _ _ n(1)]\<close>)
  next
    case False
    show ?thesis
      by (subst counts_ok_upd [OF n(2) c, of _ AtLoop])
        (use False pc counts_thread_writer(4) [OF c n(2) False] counts_le(4) [OF c]
         in \<open>auto simp: s0_def l0_def points dec32_le [OF _ _ n(1)]\<close>)
  qed
  moreover have "exclusive s0"
    using x by (simp add: exclusive_def s0_def l0_def)
  moreover have "lock_turn t (lk s0) = (l, taken)"
    using turn by (auto simp: s0_def l0_def lock_turn_def lock_resume_def rdlock_resume_def wrlock_resume_def)
  ultimately show ?thesis
    using lock_turn_inv [of n s0 t l taken] n by (simp add: lock_inv_def s0_def)
qed

lemma release_inv:
  assumes inv: "lock_inv n s" and n: "n < 2 ^ 32" "t < n" and pc: "wpc_of s t = Leaving"
    and w: "W \<subseteq> sleepers n (wpc_of s) (\<lambda>_. True)"
  shows "lock_inv n (s\<lparr>lk := release_mark (lk s), wpc_of := (wake W (wpc_of s))(t := AtLoop), left := k\<rparr>)"
proof -
  define s0 where "s0 = s\<lparr>wpc_of := wake W (wpc_of s)\<rparr>"
  have c: "counts_ok n s" and x: "exclusive s"
    using inv by (auto simp: lock_inv_def)
  have c0: "counts_ok n s0"
    using c by (simp add: counts_ok_def s0_def cnt_wake [OF w] points)
  have pc0: "wpc_of s0 t = Leaving"
    using pc w by (auto simp: s0_def wake_def sleepers_def)
  have "lock_inv n (s0\<lparr>lk := release_mark (lk s0), wpc_of := (wpc_of s0)(t := AtLoop), left := k\<rparr>)"
  proof (cases "is_reader t")
    case True
    note b = counts_thread(2) [OF c n(2) True]
    show ?thesis
      unfolding lock_inv_def
      by (subst counts_ok_upd [OF n(2) c0, of _ AtLoop])
        (use True pc pc0 b x counts_le(1) [OF c] in
         \<open>auto simp: release_mark_def exclusive_def points s0_def dec32_le [OF _ _ n(1)]\<close>)
  next
    case False
    note b = counts_thread_writer(2) [OF c n(2) False]
    show ?thesis
      unfolding lock_inv_def
      by (subst counts_ok_upd [OF n(2) c0, of _ AtLoop])
        (use False pc pc0 b x counts_le(2) [OF c] in
         \<open>auto simp: release_mark_def exclusive_def points s0_def dec32_le [OF _ _ n(1)]\<close>)
  qed
  then show ?thesis
    by (simp add: s0_def)
qed

text \<open>The assertions of the worker hold whenever the lock is used as the invariant says.\<close>

lemma inside_le:
  assumes "counts_ok n s"
  shows "g_readers s \<le> readers (lk s)" and "g_writers s \<le> writers (lk s)"
  using assms by (auto simp: counts_ok_def points intro!: cnt_mono)

lemma reader_sees_no_writer:
  assumes "lock_inv n s" and "t < n" and "is_reader t" and "has_lock (wpc_of s t)"
  shows "g_writers s = 0"
  using assms inside_le(2) [of n s] counts_thread(2) [of n s t] by (auto simp: lock_inv_def exclusive_def)

lemma writer_sees_nobody:
  assumes "lock_inv n s" and "t < n" and "\<not> is_reader t" and "has_lock (wpc_of s t)"
  shows "g_readers s = 0" and "wpc_of s t \<noteq> Inside \<Longrightarrow> g_writers s = 0"
proof -
  have c: "counts_ok n s" and w: "writers (lk s) = 1" "readers (lk s) = 0"
    using assms counts_thread_writer(2) [of n s t] by (auto simp: lock_inv_def exclusive_def)
  show "g_readers s = 0"
    using inside_le(1) [OF c] w by simp
  assume "wpc_of s t \<noteq> Inside"
  then have "cnt n (role_in False (\<lambda>p. p = Inside)) (wpc_of s) < cnt n (role_in False has_lock) (wpc_of s)"
    by (intro cnt_strict [where t = t]) (use assms in \<open>auto simp: points\<close>)
  with c w show "g_writers s = 0"
    by (simp add: counts_ok_def)
qed

text \<open>Moving the program point of a thread that keeps its mark, and counting in and out.\<close>

lemma lock_inv_move:
  assumes "lock_inv n s" and "t < n" and "has_lock v = has_lock (wpc_of s t)" and "waiting v = waiting (wpc_of s t)"
    and "v \<noteq> Inside" and "wpc_of s t \<noteq> Inside"
  shows "lock_inv n (s\<lparr>wpc_of := (wpc_of s)(t := v)\<rparr>)"
proof -
  have c: "counts_ok n s" and x: "exclusive s"
    using assms(1) by (auto simp: lock_inv_def)
  show ?thesis
    unfolding lock_inv_def by (subst counts_ok_upd [OF assms(2) c, of _ v]) (use assms x in \<open>simp_all add: exclusive_def\<close>)
qed

lemma lock_inv_count:
  assumes "lock_inv n s" and "n < 2 ^ 32" and "t < n"
  shows "wpc_of s t = Checked \<Longrightarrow> is_reader t \<Longrightarrow>
      lock_inv n (s\<lparr>g_readers := inc32 (g_readers s), wpc_of := (wpc_of s)(t := Inside)\<rparr>)"
    and "wpc_of s t = Checked \<Longrightarrow> \<not> is_reader t \<Longrightarrow>
      lock_inv n (s\<lparr>g_writers := inc32 (g_writers s), wpc_of := (wpc_of s)(t := Inside)\<rparr>)"
    and "wpc_of s t = Inside \<Longrightarrow> is_reader t \<Longrightarrow>
      lock_inv n (s\<lparr>g_readers := dec32 (g_readers s), wpc_of := (wpc_of s)(t := Leaving)\<rparr>)"
    and "wpc_of s t = Inside \<Longrightarrow> \<not> is_reader t \<Longrightarrow>
      lock_inv n (s\<lparr>g_writers := dec32 (g_writers s), wpc_of := (wpc_of s)(t := Leaving)\<rparr>)"
proof -
  have c: "counts_ok n s" and x: "exclusive s"
    using assms(1) by (auto simp: lock_inv_def)
  note b = counts_thread(5,6) [OF c assms(3)] counts_thread_writer(5,6) [OF c assms(3)] counts_le(5,6) [OF c]
  note up = counts_ok_upd [OF assms(3) c]
  show "wpc_of s t = Checked \<Longrightarrow> is_reader t \<Longrightarrow>
      lock_inv n (s\<lparr>g_readers := inc32 (g_readers s), wpc_of := (wpc_of s)(t := Inside)\<rparr>)"
    unfolding lock_inv_def by (subst up) (use x b in \<open>auto simp: exclusive_def points inc32_less [OF _ assms(2)]\<close>)
  show "wpc_of s t = Checked \<Longrightarrow> \<not> is_reader t \<Longrightarrow>
      lock_inv n (s\<lparr>g_writers := inc32 (g_writers s), wpc_of := (wpc_of s)(t := Inside)\<rparr>)"
    unfolding lock_inv_def by (subst up) (use x b in \<open>auto simp: exclusive_def points inc32_less [OF _ assms(2)]\<close>)
  show "wpc_of s t = Inside \<Longrightarrow> is_reader t \<Longrightarrow>
      lock_inv n (s\<lparr>g_readers := dec32 (g_readers s), wpc_of := (wpc_of s)(t := Leaving)\<rparr>)"
    unfolding lock_inv_def by (subst up) (use x b in \<open>auto simp: exclusive_def points dec32_le [OF _ _ assms(2)]\<close>)
  show "wpc_of s t = Inside \<Longrightarrow> \<not> is_reader t \<Longrightarrow>
      lock_inv n (s\<lparr>g_writers := dec32 (g_writers s), wpc_of := (wpc_of s)(t := Leaving)\<rparr>)"
    unfolding lock_inv_def by (subst up) (use x b in \<open>auto simp: exclusive_def points dec32_le [OF _ _ assms(2)]\<close>)
qed

lemma woken_set_sub: "woken_set n p w W \<Longrightarrow> W \<subseteq> sleepers n p (\<lambda>_. True)"
  by (cases w) (auto simp: sleepers_def)

section \<open>The invariant\<close>

definition rw_inv :: "nat \<Rightarrow> rwsys \<Rightarrow> bool" where
  "rw_inv n s \<longleftrightarrow> lock_inv n s \<and> points_ok n s \<and> sleep_ok n s"

lemma points_ok_upd:
  assumes "points_ok n s" and "v \<noteq> AssertFailed" and "v = HalfChecked \<longrightarrow> \<not> is_reader t"
    and "v \<noteq> AtLoop \<longrightarrow> 0 < left s t"
  shows "points_ok n (s\<lparr>wpc_of := (wpc_of s)(t := v)\<rparr>)"
  using assms by (auto simp: points_ok_def)

lemma sleep_ok_upd:
  assumes "sleep_ok n s" and "wpc_of s t \<noteq> CondWoken" and "v \<noteq> CondSleep"
  shows "sleep_ok n (s\<lparr>wpc_of := (wpc_of s)(t := v)\<rparr>)"
proof -
  have "\<exists>u<n. \<not> is_reader u \<and> wpc_of s u = CondWoken \<Longrightarrow>
      \<exists>u<n. \<not> is_reader u \<and> ((wpc_of s)(t := v)) u = CondWoken"
    using assms(2) by (metis fun_upd_other)
  moreover have "\<exists>u<n. ((wpc_of s)(t := v)) u = CondSleep \<Longrightarrow> \<exists>u<n. wpc_of s u = CondSleep"
    using assms(3) by (metis fun_upd_apply)
  ultimately show ?thesis
    using assms(1) by (simp add: sleep_ok_def del: fun_upd_apply) blast
qed

context rw_unlock
begin

lemma lock_inv_step:
  assumes "worker_step unlock spurious n s t s'" and "n < 2 ^ 32" and "lock_inv n s" and "points_ok n s"
  shows "lock_inv n s'"
  using assms(1)
proof cases
  case (w_unlock l w W)
  have "l = release_mark (lk s)"
    using unlock_marks [of "lk s"] w_unlock by simp
  then show ?thesis
    using release_inv [OF assms(3,2)] w_unlock woken_set_sub by auto
next
  case (w_lock l taken)
  then show ?thesis
    using lock_turn_inv [OF assms(3,2)] by simp
next
  case (w_resume l taken)
  then show ?thesis
    using lock_resume_inv [OF assms(3,2)] by simp
next
  case w_check_reader
  then show ?thesis
    using reader_sees_no_writer [OF assms(3)] lock_inv_move [OF assms(3)] by (simp add: points)
next
  case w_check_writer
  then show ?thesis
    using writer_sees_nobody [OF assms(3)] lock_inv_move [OF assms(3)] by (simp add: points)
next
  case w_check_writer2
  then have "\<not> is_reader t"
    using assms(4) by (auto simp: points_ok_def)
  with w_check_writer2 show ?thesis
    using writer_sees_nobody [OF assms(3)] lock_inv_move [OF assms(3)] by (simp add: points)
qed (use lock_inv_count [OF assms(3,2)] lock_inv_move [OF assms(3)] in \<open>simp_all add: points\<close>)

end

lemma lock_held:
  "lock_inv n s \<Longrightarrow> t < n \<Longrightarrow> has_lock (wpc_of s t) \<Longrightarrow> 0 < readers (lk s) \<or> 0 < writers (lk s)"
  using counts_thread(2) [of n s t] counts_thread_writer(2) [of n s t]
  by (cases "is_reader t") (auto simp: lock_inv_def)

lemma lock_held_sleep_ok: "0 < readers (lk s) \<or> 0 < writers (lk s) \<Longrightarrow> sleep_ok n s"
  by (auto simp: sleep_ok_def)

lemma lock_turn_refused:
  "lock_turn t l = (l', False) \<Longrightarrow> 0 < readers l' \<or> 0 < writers l'"
  "lock_resume t l = (l', False) \<Longrightarrow> 0 < readers l' \<or> 0 < writers l'"
  by (auto simp: lock_turn_def lock_resume_def rdlock_turn_def wrlock_turn_def rdlock_resume_def wrlock_resume_def
      split: if_splits)

text \<open>What \<open>unlock\<close> owes to the sleepers when it leaves the lock free.\<close>

lemma sleep_ok_wake:
  assumes c: "counts_ok n s" and W: "woken_set n (wpc_of s) w W"
    and free: "0 < readers_waiting (lk s) \<or> 0 < writers_waiting (lk s) \<Longrightarrow>
      w = WakeAll \<or> w = (if 0 < writers_waiting (lk s) then SignalWriter else WakeReaders)"
    and sleeps: "u < n" "wake W (wpc_of s) u = CondSleep"
  shows "\<exists>v<n. \<not> is_reader v \<and> wake W (wpc_of s) v = CondWoken"
proof -
  have u: "wpc_of s u = CondSleep" "u \<notin> W"
    using sleeps by (auto simp: wake_def split: if_splits)
  have some: "0 < readers_waiting (lk s) \<or> 0 < writers_waiting (lk s)"
    using counts_thread(4) [OF c sleeps(1)] counts_thread_writer(4) [OF c sleeps(1)] u
    by (cases "is_reader u") (auto simp: points)
  have w: "w = SignalWriter" and ww: "0 < writers_waiting (lk s)"
    using free [OF some] W u sleeps(1) counts_thread_writer(4) [OF c sleeps(1)]
    by (auto simp: sleepers_def points split: if_splits)
  then obtain v where v: "v < n" "\<not> is_reader v" "waiting (wpc_of s v)"
    using c by (auto simp: counts_ok_def cnt_pos)
  show ?thesis
  proof (cases "wpc_of s v = CondSleep")
    case True
    then have "sleepers n (wpc_of s) (\<lambda>t. \<not> is_reader t) \<noteq> {}"
      using v by (auto simp: sleepers_def)
    with W w show ?thesis
      by (fastforce simp: sleepers_def wake_def)
  qed (use v in \<open>auto simp: waiting_def wake_def\<close>)
qed

context rw_unlock
begin

lemma sleep_ok_step:
  assumes "worker_step unlock spurious n s t s'" and "lock_inv n s" and "lock_inv n s'" and "sleep_ok n s"
  shows "sleep_ok n s'"
  using assms(1)
proof cases
  case (w_lock l taken)
  then show ?thesis
    using lock_held [OF assms(3), of t] lock_turn_refused(1) [of t "lk s" l]
    by (intro lock_held_sleep_ok) (cases taken; simp add: points)
next
  case (w_resume l taken)
  then show ?thesis
    using lock_held [OF assms(3), of t] lock_turn_refused(2) [of t "lk s" l]
    by (intro lock_held_sleep_ok) (cases taken; simp add: points)
next
  case (w_unlock l w W)
  have l: "l = release_mark (lk s)" and w: "w = snd (unlock (lk s))"
    using unlock_marks [of "lk s"] w_unlock by simp_all
  have tW: "t \<notin> W"
    using woken_set_sub [of n "wpc_of s" w W] w_unlock by (auto simp: sleepers_def)
  have c: "counts_ok n s"
    using assms(2) by (simp add: lock_inv_def)
  show ?thesis
  proof (cases "readers l = 0 \<and> writers l = 0")
    case True
    have "\<exists>v<n. \<not> is_reader v \<and> wake W (wpc_of s) v = CondWoken"
      if "u < n" "((wake W (wpc_of s))(t := AtLoop)) u = CondSleep" for u
    proof (rule sleep_ok_wake [OF c])
      show "woken_set n (wpc_of s) w W"
        using w_unlock by simp
      show "w = WakeAll \<or> w = (if 0 < writers_waiting (lk s) then SignalWriter else WakeReaders)"
        if "0 < readers_waiting (lk s) \<or> 0 < writers_waiting (lk s)"
        unfolding w by (rule unlock_wakes) (use True that in \<open>simp_all add: l\<close>)
      show "u < n" "wake W (wpc_of s) u = CondSleep"
        using that by (auto split: if_splits)
    qed
    moreover have "wake W (wpc_of s) t \<noteq> CondWoken"
      using tW w_unlock by (simp add: wake_def)
    ultimately show ?thesis
      using w_unlock unfolding sleep_ok_def by simp metis
  qed (use w_unlock in \<open>auto intro!: lock_held_sleep_ok\<close>)
qed (use sleep_ok_upd [OF assms(4), of t] in \<open>auto simp: sleep_ok_def\<close>)

lemma points_ok_step:
  assumes "worker_step unlock spurious n s t s'" and "lock_inv n s" and "points_ok n s"
  shows "points_ok n s'"
  using assms(1)
proof cases
  case (w_unlock l w W)
  then have "W \<subseteq> sleepers n (wpc_of s) (\<lambda>_. True)"
    using woken_set_sub by blast
  then show ?thesis
    using w_unlock assms(3) by (auto simp: points_ok_def wake_def sleepers_def)
next
  case w_check_reader
  then show ?thesis
    using reader_sees_no_writer [OF assms(2)] assms(3) by (auto simp: points points_ok_def)
next
  case w_check_writer
  then show ?thesis
    using writer_sees_nobody(1) [OF assms(2)] assms(3) by (auto simp: points points_ok_def)
next
  case w_check_writer2
  then have "\<not> is_reader t"
    using assms(3) by (auto simp: points_ok_def)
  with w_check_writer2 show ?thesis
    using writer_sees_nobody(2) [OF assms(2)] assms(3) by (auto simp: points points_ok_def)
qed (use assms(3) in \<open>auto simp: points_ok_def\<close>)

lemma rw_inv_step:
  assumes "worker_step unlock spurious n s t s'" and "n < 2 ^ 32" and "rw_inv n s"
  shows "rw_inv n s'"
  using lock_inv_step [OF assms(1,2)] points_ok_step [OF assms(1)] sleep_ok_step [OF assms(1)] assms(3)
  by (auto simp: rw_inv_def)

lemma rw_inv_steps:
  "steps (worker_step unlock spurious n) s ts s' \<Longrightarrow> n < 2 ^ 32 \<Longrightarrow> rw_inv n s \<Longrightarrow> rw_inv n s'"
  by (induction rule: steps.induct) (auto dest: rw_inv_step)

end

lemma rw_inv_start: "rw_inv n (rw_start loops)"
proof -
  have "cnt n P (\<lambda>_. AtLoop) = 0" if "\<And>t. \<not> P t AtLoop" for P
    using that by (simp add: cnt_0)
  then show ?thesis
    by (simp add: rw_inv_def lock_inv_def counts_ok_def exclusive_def points_ok_def sleep_ok_def rw_start_def
        mypthread_rwlock_init_def points)
qed

section \<open>Progress and termination\<close>

fun phase :: "wpc \<Rightarrow> nat" where
  "phase AtLoop = 0"
| "phase CondWoken = 1"
| "phase CondSleep = 2"
| "phase Entered = 3"
| "phase HalfChecked = 4"
| "phase Checked = 5"
| "phase Inside = 6"
| "phase Leaving = 7"
| "phase AssertFailed = 8"

definition work :: "nat \<Rightarrow> wpc \<Rightarrow> nat \<Rightarrow> nat" where
  "work n p k = k * (n + 9) - phase p"

definition total_work :: "nat \<Rightarrow> rwsys \<Rightarrow> nat" where
  "total_work n s = (\<Sum>t<n. work n (wpc_of s t) (left s t))"

lemma work_less: "0 < k \<Longrightarrow> phase p < phase q \<Longrightarrow> work n q k < work n p k"
proof -
  assume "0 < k" and "phase p < phase q"
  moreover have "phase p < 8"
    using \<open>phase p < phase q\<close> by (cases p; cases q) simp_all
  moreover have "n + 9 \<le> k * (n + 9)"
    using \<open>0 < k\<close> by simp
  ultimately show ?thesis
    unfolding work_def by linarith
qed

lemma total_work_upd:
  assumes "t < n" and "work n (p' t) (k' t) < work n (wpc_of s t) (left s t)"
    and "\<And>u. u < n \<Longrightarrow> u \<noteq> t \<Longrightarrow> p' u = wpc_of s u \<and> k' u = left s u"
  shows "(\<Sum>u<n. work n (p' u) (k' u)) < total_work n s"
  unfolding total_work_def
proof (rule sum_strict_mono_ex1)
  show "\<forall>u\<in>{..<n}. work n (p' u) (k' u) \<le> work n (wpc_of s u) (left s u)"
  proof
    fix u assume "u \<in> {..<n}"
    then show "work n (p' u) (k' u) \<le> work n (wpc_of s u) (left s u)"
      using assms by (cases "u = t") auto
  qed
qed (use assms in auto)

text \<open>\<open>unlock\<close> may wake every other thread, but it takes a whole round of work away.\<close>

lemma total_work_unlock:
  assumes "t < n" and "wpc_of s t = Leaving" and "0 < left s t"
    and W: "W \<subseteq> sleepers n (wpc_of s) (\<lambda>_. True)"
    and s': "wpc_of s' = (wake W (wpc_of s))(t := AtLoop)" "left s' = (left s)(t := left s t - 1)"
  shows "total_work n s' < total_work n s"
proof -
  have other: "work n (wpc_of s' u) (left s' u) \<le> work n (wpc_of s u) (left s u) + 1"
    if "u < n" "u \<noteq> t" for u
    using that W by (auto simp: s' wake_def sleepers_def work_def)
  let ?rest = "\<Sum>u\<in>{..<n} - {t}. work n (wpc_of s u) (left s u)"
  have "total_work n s' = work n AtLoop (left s t - 1) + (\<Sum>u\<in>{..<n} - {t}. work n (wpc_of s' u) (left s' u))"
    unfolding total_work_def by (subst sum.remove [of _ t]) (use assms(1) s' in auto)
  moreover have "(\<Sum>u\<in>{..<n} - {t}. work n (wpc_of s' u) (left s' u)) \<le>
      (\<Sum>u\<in>{..<n} - {t}. work n (wpc_of s u) (left s u) + 1)"
    by (rule sum_mono) (use other in auto)
  moreover have "(\<Sum>u\<in>{..<n} - {t}. work n (wpc_of s u) (left s u) + 1) = ?rest + (n - 1)"
    unfolding sum.distrib using assms(1) by simp
  moreover have "work n AtLoop (left s t - 1) + (n - 1) < work n Leaving (left s t)"
    using assms(1,3) by (cases "left s t") (auto simp: work_def)
  moreover have "total_work n s = work n Leaving (left s t) + ?rest"
    unfolding total_work_def by (subst sum.remove [of _ t]) (use assms(1,2) in auto)
  ultimately show ?thesis
    by linarith
qed

context rw_unlock
begin

lemma total_work_step:
  assumes "worker_step unlock False n s t s'" and "rw_inv n s"
  shows "total_work n s' < total_work n s"
  using assms(1)
proof cases
  case (w_unlock l w W)
  then show ?thesis
    using assms(2) total_work_unlock [of t n s W] woken_set_sub [of n "wpc_of s" w W]
    by (auto simp: rw_inv_def points_ok_def)
next
  case (w_resume l taken)
  then show ?thesis
    using assms(2) by (auto simp: total_work_def rw_inv_def points_ok_def
        intro!: total_work_upd [unfolded total_work_def] work_less)
qed (use assms(2) in \<open>auto simp: total_work_def rw_inv_def points_ok_def
      intro!: total_work_upd [unfolded total_work_def] work_less\<close>)

lemma run_length:
  "steps (worker_step unlock False n) s ts s' \<Longrightarrow> n < 2 ^ 32 \<Longrightarrow> rw_inv n s \<Longrightarrow>
    length ts + total_work n s' \<le> total_work n s"
proof (induction rule: steps.induct)
  case (steps_Cons s e s' es s'')
  then show ?case
    using total_work_step [of n s e s'] rw_inv_step [of False n s e s'] by auto
qed simp

lemma enabled:
  assumes "t < n" and "wpc_of s t \<notin> {CondSleep, AssertFailed}" and "wpc_of s t = AtLoop \<longrightarrow> 0 < left s t"
  shows "\<exists>s'. worker_step unlock spurious n s t s'"
proof (cases "wpc_of s t")
  case AtLoop
  then show ?thesis
    using assms w_lock [of t n s "fst (lock_turn t (lk s))" "snd (lock_turn t (lk s))"] by fastforce
next
  case CondWoken
  then show ?thesis
    using assms w_resume [of t n s "fst (lock_resume t (lk s))" "snd (lock_resume t (lk s))"] by fastforce
next
  case Leaving
  have "\<exists>W. woken_set n (wpc_of s) w W" for w
    by (cases w) auto
  then show ?thesis
    using Leaving assms w_unlock [of t n s unlock "fst (unlock (lk s))" "snd (unlock (lk s))"] by fastforce
qed (use assms in \<open>auto intro: worker_step.intros\<close>; cases "is_reader t"; blast intro: worker_step.intros)+

lemma stuck_finished:
  assumes "rw_inv n s" and "\<And>t s'. \<not> worker_step unlock spurious n s t s'" and "t < n"
  shows "wpc_of s t = AtLoop \<and> left s t = 0"
proof -
  have none: "wpc_of s u = CondSleep \<or> wpc_of s u = AtLoop \<and> left s u = 0" if "u < n" for u
    using enabled [OF that, of s spurious] assms(1,2) that by (fastforce simp: rw_inv_def points_ok_def)
  have "readers (lk s) = 0" "writers (lk s) = 0"
    using assms(1) none by (auto simp: rw_inv_def lock_inv_def counts_ok_def cnt_0 points)
      (metis points(1,2))+
  moreover have "\<not> (\<exists>u<n. \<not> is_reader u \<and> wpc_of s u = CondWoken)"
    using none by fastforce
  ultimately have "\<not> (\<exists>t<n. wpc_of s t = CondSleep)"
    using assms(1) by (auto simp: rw_inv_def sleep_ok_def)
  then show ?thesis
    using none [OF assms(3)] assms(3) by blast
qed

end

section \<open>The three solutions\<close>

interpretation sol1: rw_unlock unlock_solution1
  by unfold_locales (auto simp: unlock_solution1_def release_mark_def Let_def)

interpretation sol2: rw_unlock unlock_solution2
  by unfold_locales (auto simp: unlock_solution2_def release_mark_def Let_def)

interpretation sol3: rw_unlock unlock_solution3
  by unfold_locales (auto simp: unlock_solution3_def release_mark_def Let_def split: if_splits)

lemma rw_solutions:
  "unlock \<in> {unlock_solution1, unlock_solution2, unlock_solution3} \<Longrightarrow> rw_unlock unlock"
  using sol1.rw_unlock_axioms sol2.rw_unlock_axioms sol3.rw_unlock_axioms by blast

lemma writer_alone:
  assumes "lock_inv n s" and "t < n" "u < n" "t \<noteq> u" and "\<not> is_reader t" and "has_lock (wpc_of s t)"
  shows "\<not> has_lock (wpc_of s u)"
proof
  assume h: "has_lock (wpc_of s u)"
  have c: "counts_ok n s" and w: "writers (lk s) = 1" "readers (lk s) = 0"
    using assms counts_thread_writer(2) [of n s t] by (auto simp: lock_inv_def exclusive_def)
  show False
  proof (cases "is_reader u")
    case True
    then show False
      using counts_thread(2) [OF c assms(3) True h] w by simp
  next
    case False
    then have "1 < cnt n (role_in False has_lock) (wpc_of s)"
      by (intro cnt_two [OF assms(2-4)]) (use assms h in auto)
    with c w show False
      by (simp add: counts_ok_def)
  qed
qed

section \<open>Properties\<close>

text \<open>C4: In the test programs of the three readers-writer locks, with any number of workers below
  \<open>2 ^ 32\<close>, any number of rounds, any interleaving and any spurious wake-ups, no assertion of a
  worker ever fails, and while a writer has the lock no other thread has it.\<close>

theorem rwlock_assertions_hold:
  assumes "unlock \<in> {unlock_solution1, unlock_solution2, unlock_solution3}" and "n < 2 ^ 32"
    and "steps (worker_step unlock spurious n) (rw_start loops) ts s" and "t < n"
  shows "wpc_of s t \<noteq> AssertFailed \<and>
    (\<not> is_reader t \<and> has_lock (wpc_of s t) \<longrightarrow> (\<forall>u<n. u \<noteq> t \<longrightarrow> \<not> has_lock (wpc_of s u)))"
proof -
  have "rw_inv n s"
    by (rule rw_unlock.rw_inv_steps [OF rw_solutions [OF assms(1)] assms(3,2) rw_inv_start])
  then show ?thesis
    using assms(4) writer_alone [of n s t] by (auto simp: rw_inv_def points_ok_def)
qed

text \<open>One step of the witnesses: worker 1, a writer, takes the free lock.\<close>

definition rw_taken :: rwsys where
  "rw_taken = (rw_start 3)\<lparr>lk := mypthread_rwlock_init\<lparr>writers := 1\<rparr>, wpc_of := (\<lambda>_. AtLoop)(1 := Entered)\<rparr>"

lemma rw_taken_run: "steps (worker_step unlock spurious 2) (rw_start 3) [1] rw_taken"
proof -
  have "lock_turn 1 (lk (rw_start 3)) = (mypthread_rwlock_init\<lparr>writers := 1\<rparr>, True)"
    by (simp add: lock_turn_def is_reader_def wrlock_turn_def rw_start_def mypthread_rwlock_init_def inc32_def)
  from w_lock [OF _ _ _ this, of 2 unlock spurious]
  have "worker_step unlock spurious 2 (rw_start 3) 1 rw_taken"
    by (simp add: rw_taken_def rw_start_def)
  then show ?thesis
    by (auto simp: steps_Cons_iff)
qed

theorem rwlock_assertions_hold_witness:
  "steps (worker_step unlock_solution3 True 2) (rw_start 3) [1] rw_taken \<and> wpc_of rw_taken 1 = Entered \<and>
   \<not> has_lock (wpc_of rw_taken 0)"
proof -
  have "wpc_of rw_taken 1 = Entered" "\<not> is_reader 1"
    by (simp_all add: rw_taken_def is_reader_def)
  then show ?thesis
    using rwlock_assertions_hold [OF _ _ rw_taken_run, of unlock_solution3 1] rw_taken_run
    by (simp add: points)
qed



end
