(* ===== verification/KDiv.thy ===== *)
theory KDiv
  imports Prelude "HOL-Library.Signed_Division"
begin

text \<open>
  \<open>src/src/kernel/mod_div.c\<close>: an \<open>ioctl\<close> that does 64-bit arithmetic on a structure of the caller, and the
  two division helpers that the module defines for 32-bit machines. What \<open>copy_from_user\<close> and
  \<open>copy_to_user\<close> return (the number of bytes they could not copy) and the structure that arrives are
  arguments. The kernel is compiled so that signed arithmetic wraps; the divide instruction of x86
  traps on a zero divisor and on the one quotient that does not fit.
\<close>

section \<open>The ioctl\<close>

record div_buffer =
  u1 :: u64
  u2 :: u64
  udiv :: u64
  umul :: u64
  uadd :: u64
  usub :: u64
  d1 :: u64
  d2 :: u64
  ddiv :: u64
  dmul :: u64
  dadd :: u64
  dsub :: u64

definition u64_div :: "u64 \<Rightarrow> u64 \<Rightarrow> u64 outcome" where
  "u64_div x y = (if y = 0 then Crash DivideByZero else Done (x div y))"

definition s64_div :: "u64 \<Rightarrow> u64 \<Rightarrow> u64 outcome" where
  "s64_div x y =
     (if y = 0 \<or> sint x = - (2 ^ 63) \<and> sint y = - 1 then Crash DivideByZero
      else Done (word_of_int (sint x sdiv sint y)))"

definition IOCTL_DIV_DOOPS :: u32 where
  "IOCTL_DIV_DOOPS = 100 * 256 + 27"

definition div_ioctl :: "u32 \<Rightarrow> int \<Rightarrow> div_buffer \<Rightarrow> int \<Rightarrow> (int \<times> div_buffer option) outcome" where
  "div_ioctl cmd from_ret b to_ret =
     (if cmd = IOCTL_DIV_DOOPS
      then if from_ret \<noteq> 0 then Done (from_ret, None)
           else outcome_bind (u64_div (u1 b) (u2 b)) (\<lambda>q.
             let b = b\<lparr>udiv := q\<rparr>;
                 b = b\<lparr>umul := u1 b * u2 b\<rparr>;
                 b = b\<lparr>uadd := u1 b + u2 b\<rparr>;
                 b = b\<lparr>usub := u1 b - u2 b\<rparr>
             in outcome_bind (s64_div (d1 b) (d2 b)) (\<lambda>q.
               let b = b\<lparr>ddiv := q\<rparr>;
                   b = b\<lparr>dmul := d1 b * d2 b\<rparr>;
                   b = b\<lparr>dadd := d1 b + d2 b\<rparr>;
                   b = b\<lparr>dsub := d1 b - d2 b\<rparr>
               in if to_ret \<noteq> 0 then Done (to_ret, None) else Done (0, Some b)))
      else Done (- EINVAL, None))"

section \<open>The helpers\<close>

text \<open>\<open>div_u64_rem\<close> of the kernel takes a 32-bit divisor; the call converts.\<close>

definition div_u64_rem :: "u64 \<Rightarrow> u32 \<Rightarrow> (u64 \<times> u32) outcome" where
  "div_u64_rem dividend divisor =
     (if divisor = 0 then Crash DivideByZero
      else Done (dividend div ucast divisor, ucast (dividend mod ucast divisor)))"

definition udivdi3 :: "u64 \<Rightarrow> u64 \<Rightarrow> u64 outcome" where
  "udivdi3 divided divisor = outcome_bind (div_u64_rem divided (ucast divisor)) (\<lambda>(q, r). Done q)"

definition divdi3 :: "u64 \<Rightarrow> u64 \<Rightarrow> u64 outcome" where
  "divdi3 divided divisor = s64_div divided divisor"

section \<open>Properties\<close>

lemma sint_s64_div:
  assumes "s64_div x y = Done q"
  shows "sint q = sint x sdiv sint y"
proof -
  have m: "\<not> (sint x = - (2 ^ 63) \<and> sint y = - 1)" and q: "q = word_of_int (sint x sdiv sint y)"
    using assms by (auto simp: s64_div_def split: if_splits)
  have x: "- (2 ^ 63) \<le> sint x" "sint x < 2 ^ 63"
    using sint_greater_eq [of x] sint_lt [of x] by simp_all
  have r: "- \<bar>sint x\<bar> \<le> sint x sdiv sint y" "sint x sdiv sint y \<le> \<bar>sint x\<bar>"
    using sdiv_int_range [of "sint x" "sint y"] by simp_all
  have "sint x sdiv sint y \<noteq> 2 ^ 63"
  proof
    assume e: "sint x sdiv sint y = 2 ^ 63"
    with r x have "sint x = - (2 ^ 63)" by linarith
    with e int_sdiv_negated_is_minus1 [of "sint x" "sint y"] m show False by simp
  qed
  with r x show ?thesis
    unfolding q by (intro sint_word_of_int_u64) linarith+
qed

text \<open>The arithmetic \<open>ioctl\<close> either traps in a division (a zero divisor, or the smallest number divided
  by -1) or computes what it says: the quotients are the exact quotients (the signed one rounds
  towards zero), the other results are exact modulo \<open>2 ^ 64\<close>; the operands come back unchanged, and
  nothing comes back when a copy fails.\<close>

theorem div_ioctl_computes:
  "(if u2 b = 0 \<or> d2 b = 0 \<or> sint (d1 b) = - (2 ^ 63) \<and> sint (d2 b) = - 1
    then div_ioctl IOCTL_DIV_DOOPS 0 b to_ret = Crash DivideByZero
    else \<exists>b'. div_ioctl IOCTL_DIV_DOOPS 0 b to_ret = Done (to_ret, if to_ret = 0 then Some b' else None) \<and>
      u1 b' = u1 b \<and> u2 b' = u2 b \<and> d1 b' = d1 b \<and> d2 b' = d2 b \<and>
      unat (udiv b') = unat (u1 b) div unat (u2 b) \<and> sint (ddiv b') = sint (d1 b) sdiv sint (d2 b) \<and>
      uint (umul b') = (uint (u1 b) * uint (u2 b)) mod 2 ^ 64 \<and>
      uint (uadd b') = (uint (u1 b) + uint (u2 b)) mod 2 ^ 64 \<and>
      uint (usub b') = (uint (u1 b) - uint (u2 b)) mod 2 ^ 64 \<and>
      dmul b' = word_of_int (sint (d1 b) * sint (d2 b)) \<and>
      dadd b' = word_of_int (sint (d1 b) + sint (d2 b)) \<and>
      dsub b' = word_of_int (sint (d1 b) - sint (d2 b))) \<and>
   (\<forall>left. left \<noteq> 0 \<longrightarrow> div_ioctl IOCTL_DIV_DOOPS left b to_ret = Done (left, None))"
proof -
  have ok: ?thesis if n: "u2 b \<noteq> 0" "d2 b \<noteq> 0" "\<not> (sint (d1 b) = - (2 ^ 63) \<and> sint (d2 b) = - 1)"
  proof -
    define q where "q = (word_of_int (sint (d1 b) sdiv sint (d2 b)) :: u64)"
    have s: "s64_div (d1 b) (d2 b) = Done q"
      using n by (simp add: s64_div_def q_def)
    let ?b' = "b\<lparr>udiv := u1 b div u2 b, umul := u1 b * u2 b, uadd := u1 b + u2 b, usub := u1 b - u2 b,
      ddiv := q, dmul := d1 b * d2 b, dadd := d1 b + d2 b, dsub := d1 b - d2 b\<rparr>"
    from n s have "div_ioctl IOCTL_DIV_DOOPS 0 b to_ret = Done (to_ret, if to_ret = 0 then Some ?b' else None)"
      by (simp add: div_ioctl_def u64_div_def Let_def del: outcome_bind_eq_Done)
    moreover have "div_ioctl IOCTL_DIV_DOOPS left b to_ret = Done (left, None)" if "left \<noteq> 0" for left
      using that by (simp add: div_ioctl_def)
    ultimately show ?thesis
      using n sint_s64_div [OF s]
      by (intro conjI) (simp, intro conjI impI exI [of _ ?b'], simp_all add: unat_div uint_word_ariths)
  qed
  show ?thesis
  proof (cases "u2 b = 0 \<or> d2 b = 0 \<or> sint (d1 b) = - (2 ^ 63) \<and> sint (d2 b) = - 1")
    case True
    then show ?thesis
      by (auto simp: div_ioctl_def u64_div_def s64_div_def Let_def)
  next
    case False
    then show ?thesis
      by (intro ok) blast+
  qed
qed

theorem div_ioctl_computes_witness:
  "\<exists>b b'. div_ioctl IOCTL_DIV_DOOPS 0 b 0 = Done (0, Some b') \<and> unat (udiv b') = 3 \<and> sint (ddiv b') = - 3"
proof -
  let ?b = "\<lparr>u1 = 7, u2 = 2, udiv = 0, umul = 0, uadd = 0, usub = 0, d1 = - 7, d2 = 2, ddiv = 0, dmul = 0,
    dadd = 0, dsub = 0\<rparr>"
  have "sint (- 7 :: u64) = - 7" "sint (2 :: u64) = 2"
    using sint_word_of_int_u64 [of "- 7"] sint_word_of_int_u64 [of 2] by simp_all
  then show ?thesis
    using div_ioctl_computes [of ?b 0] by (auto simp: signed_divide_int_def)
qed

text \<open>\<open>__udivdi3\<close>, which the module offers as 64-bit division, passes its divisor to a function that takes
  32 bits: it computes the quotient for every divisor below \<open>2 ^ 32\<close>, divides by the low half of a
  larger one, and traps when that half is zero although the divisor is not. \<open>__divdi3\<close> is right for
  every pair that has a quotient.\<close>

theorem udivdi3_truncates_divisor:
  "udivdi3 x y =
    (if unat y mod 2 ^ 32 = 0 then Crash DivideByZero else Done (of_nat (unat x div (unat y mod 2 ^ 32)))) \<and>
   (case divdi3 x y of Done q \<Rightarrow> sint q = sint x sdiv sint y
    | Crash c \<Rightarrow> y = 0 \<or> sint x = - (2 ^ 63) \<and> sint y = - 1)"
proof
  have d: "unat (ucast (ucast y :: u32) :: u64) = unat y mod 2 ^ 32"
    by (simp add: unat_ucast_u64) (simp add: unsigned_ucast_eq take_bit_eq_mod)
  have z: "(ucast y :: u32) = 0 \<longleftrightarrow> unat y mod 2 ^ 32 = 0"
    using d by (metis unat_ucast_u64 unat_eq_0)
  have "x div ucast (ucast y :: u32) = of_nat (unat x div (unat y mod 2 ^ 32))"
  proof -
    have "x div ucast (ucast y :: u32) = of_nat (unat (x div ucast (ucast y :: u32)))"
      by simp
    then show ?thesis
      by (simp only: unat_div d)
  qed
  then show "udivdi3 x y =
    (if unat y mod 2 ^ 32 = 0 then Crash DivideByZero else Done (of_nat (unat x div (unat y mod 2 ^ 32))))"
    by (simp add: udivdi3_def div_u64_rem_def z)
  show "case divdi3 x y of Done q \<Rightarrow> sint q = sint x sdiv sint y
    | Crash c \<Rightarrow> y = 0 \<or> sint x = - (2 ^ 63) \<and> sint y = - 1"
    by (auto simp: divdi3_def sint_s64_div split: outcome.splits) (simp_all add: s64_div_def split: if_splits)
qed

end
