(* ===== verification/UserPages.thy ===== *)
theory UserPages
  imports KernelApi "HOL-Library.Multiset"
begin

text \<open>
  \<open>src/src/kernel/mod_get_user_pages.c\<close>: an \<open>ioctl\<close> that pins the pages of a buffer of the caller, maps them
  into the kernel, and reads and writes the buffer through that mapping. The state holds the statics of
  the module and what the kernel keeps for it: the page references, the pages marked dirty, the live
  page arrays and the kernel mappings. A page is named by the user address it starts at. What the
  kernel calls answer is an environment.
\<close>

section \<open>State\<close>

definition PAGE_SIZE :: u64 where
  "PAGE_SIZE = 4096"

text \<open>The static \<open>pages\<close>: null, an array of the module, or the address of an array that was freed.\<close>

datatype page_array = NoPages | Pages "u64 list" | Freed

record gup_state =
  gsize :: u32
  gptr :: u64
  gvptr :: u64
  gpages :: page_array
  gnr_pages :: u32
  pins :: "u64 multiset"
  dirty :: "u64 set"
  vmaps :: "(u64 \<times> u64 list) list"

definition gup_init :: gup_state where
  "gup_init = \<lparr>gsize = 0, gptr = 0, gvptr = 0, gpages = NoPages, gnr_pages = 0, pins = {#}, dirty = {},
     vmaps = []\<rparr>"

record gup_env =
  from_ret :: int
  buf_pointer :: u64
  buf_size :: u32
  array_ok :: bool
  gup_ret :: int
  vmap_ret :: u64

section \<open>The ioctl\<close>

definition page_offset :: "u64 \<Rightarrow> u64" where
  "page_offset bpointer = bpointer mod PAGE_SIZE"

definition page_count :: "u64 \<Rightarrow> u32 \<Rightarrow> u32" where
  "page_count bpointer sz =
     (let offset = page_offset bpointer; newsize = ucast sz + offset
      in ucast ((newsize - 1) div PAGE_SIZE + 1))"

definition user_pages :: "u64 \<Rightarrow> nat \<Rightarrow> u64 list" where
  "user_pages aligned n = map (\<lambda>i. aligned + of_nat i * PAGE_SIZE) [0..<n]"

definition demo_map :: "gup_env \<Rightarrow> gup_state \<Rightarrow> int \<times> gup_state" where
  "demo_map env s =
    (if from_ret env \<noteq> 0 then (from_ret env, s)
     else
       let bpointer = buf_pointer env;
           offset = page_offset bpointer;
           aligned = bpointer - offset;
           s = s\<lparr>gnr_pages := page_count bpointer (buf_size env)\<rparr>
       in if \<not> array_ok env then (- ENOMEM, s\<lparr>gpages := NoPages\<rparr>)
          else
            let got = user_pages aligned (nat (gup_ret env));
                s = s\<lparr>gpages := Pages got, pins := pins s + mset got\<rparr>
            in if word_of_int (gup_ret env) \<noteq> gnr_pages s then (- EFAULT, s\<lparr>gpages := Freed\<rparr>)
               else
                 let s = s\<lparr>gvptr := vmap_ret env\<rparr>
                 in if gvptr s = 0 then (- EFAULT, s\<lparr>gpages := Freed\<rparr>)
                    else (0, s\<lparr>vmaps := (gvptr s, got) # vmaps s, gptr := gvptr s + offset,
                               gsize := buf_size env\<rparr>))"

text \<open>\<open>pages_unmap\<close>: every page of the array is marked dirty (unless it is reserved) and released.\<close>

fun pages_unmap :: "(u64 \<Rightarrow> bool) \<Rightarrow> nat \<Rightarrow> u64 list \<Rightarrow> gup_state \<Rightarrow> gup_state outcome" where
  "pages_unmap reserved 0 ps s = Done s"
| "pages_unmap reserved (Suc n) [] s = Crash OutOfBounds"
| "pages_unmap reserved (Suc n) (p # ps) s =
     pages_unmap reserved n ps
       (s\<lparr>dirty := (if reserved p then dirty s else insert p (dirty s)), pins := pins s - {#p#}\<rparr>)"

definition demo_unmap :: "(u64 \<Rightarrow> bool) \<Rightarrow> gup_state \<Rightarrow> (int \<times> gup_state) outcome" where
  "demo_unmap reserved s =
    (let s = s\<lparr>vmaps := filter (\<lambda>m. fst m \<noteq> gvptr s) (vmaps s)\<rparr>
     in outcome_bind
       (case gpages s of
          Pages ps \<Rightarrow> pages_unmap reserved (unat (gnr_pages s)) ps s
        | NoPages \<Rightarrow> if gnr_pages s = 0 then Done s else Crash NullDeref
        | Freed \<Rightarrow> Crash UseAfterFree)
       (\<lambda>s. Done (0, s\<lparr>gpages := NoPages, gvptr := 0, gptr := 0, gsize := 0, gnr_pages := 0\<rparr>)))"

text \<open>The user address behind an address of a kernel mapping.\<close>

fun translate :: "(u64 \<times> u64 list) list \<Rightarrow> u64 \<Rightarrow> u64 option" where
  "translate [] a = None"
| "translate ((v, ps) # ms) a =
     (if v \<le> a \<and> unat (a - v) < length ps * 4096
      then Some (ps ! (unat (a - v) div 4096) + (a - v) mod PAGE_SIZE)
      else translate ms a)"

fun kernel_set :: "(u64 \<times> u64 list) list \<Rightarrow> umem \<Rightarrow> u64 \<Rightarrow> nat \<Rightarrow> byte \<Rightarrow> umem outcome" where
  "kernel_set ms um a 0 c = Done um"
| "kernel_set ms um a (Suc n) c =
     (case translate ms a of
        None \<Rightarrow> Crash OutOfBounds
      | Some u \<Rightarrow> kernel_set ms (user_store um u [c]) (a + 1) n c)"

fun kernel_get :: "(u64 \<times> u64 list) list \<Rightarrow> umem \<Rightarrow> u64 \<Rightarrow> nat \<Rightarrow> byte list outcome" where
  "kernel_get ms um a 0 = Done []"
| "kernel_get ms um a (Suc n) =
     (case translate ms a of
        None \<Rightarrow> Crash OutOfBounds
      | Some u \<Rightarrow> outcome_bind (kernel_get ms um (a + 1) n) (\<lambda>bs. Done (um u # bs)))"

text \<open>\<open>demo_read\<close> returns the characters that it prints.\<close>

definition demo_read :: "umem \<Rightarrow> gup_state \<Rightarrow> (int \<times> byte list) outcome" where
  "demo_read um s =
     (let sloop = min (gsize s) 10
      in outcome_bind (kernel_get (vmaps s) um (gptr s) (unat sloop)) (\<lambda>bs. Done (0, bs)))"

definition demo_write :: "umem \<Rightarrow> gup_state \<Rightarrow> u64 \<Rightarrow> (int \<times> umem) outcome" where
  "demo_write um s arg =
     outcome_bind (kernel_set (vmaps s) um (gptr s) (unat (gsize s)) (ucast arg)) (\<lambda>um. Done (0, um))"

section \<open>Page arithmetic\<close>

lemma unat_ucast_u32: "unat (w :: u64) < 2 ^ 32 \<Longrightarrow> unat (ucast w :: u32) = unat w"
  by (simp add: unsigned_ucast_eq take_bit_nat_eq_self)

text \<open>The pages counted are the fewest that cover the buffer.\<close>

lemma unat_page_offset: "unat (page_offset a) = unat a mod 4096"
  by (simp add: page_offset_def PAGE_SIZE_def unat_mod)

lemma page_offset_le: "page_offset a \<le> a"
  by (simp add: word_le_nat_alt unat_page_offset)

lemma unat_page_count:
  assumes "0 < sz"
  shows "unat (page_count a sz) = (unat a mod 4096 + unat sz - 1) div 4096 + 1"
proof -
  let ?new = "ucast sz + page_offset a :: u64"
  have off: "unat (page_offset a) < 4096" and s: "unat sz < 2 ^ 32" "0 < unat sz"
    using assms unat_less_u32 [of sz] by (simp_all add: unat_page_offset word_less_nat_alt)
  have new: "unat ?new = unat sz + unat (page_offset a)"
    using off s by (subst unat_add_u64) (simp_all add: unat_ucast_u64)
  then have "unat (?new - 1) = unat sz + unat (page_offset a) - 1"
    using s by (subst unat_diff_u64) (simp_all add: word_le_nat_alt)
  then have q: "unat ((?new - 1) div PAGE_SIZE) = (unat sz + unat (page_offset a) - 1) div 4096"
    by (simp add: unat_div PAGE_SIZE_def)
  have small: "(unat sz + unat (page_offset a) - 1) div 4096 < 2 ^ 31"
    using off s by (simp add: div_less_iff_less_mult)
  then have "unat ((?new - 1) div PAGE_SIZE + 1) = (unat sz + unat (page_offset a) - 1) div 4096 + 1"
    using q by (subst unat_add_u64) simp_all
  then have "unat (page_count a sz) = (unat sz + unat (page_offset a) - 1) div 4096 + 1"
    unfolding page_count_def Let_def using small by (subst unat_ucast_u32) simp_all
  then show ?thesis
    by (simp add: unat_page_offset add.commute [of "unat sz"])
qed

lemma pages_cover:
  fixes n off p :: nat
  assumes "0 < n" and "p = (off + n - 1) div 4096 + 1"
  shows "off + n \<le> p * 4096" and "(p - 1) * 4096 < off + n"
proof -
  have "off + n - 1 = (p - 1) * 4096 + (off + n - 1) mod 4096"
    using assms(2) by simp
  moreover have "(off + n - 1) mod 4096 < 4096"
    by simp
  ultimately show "off + n \<le> p * 4096" and "(p - 1) * 4096 < off + n"
    using assms by linarith+
qed

section \<open>Access through the mapping\<close>

lemma length_user_pages: "length (user_pages aligned n) = n"
  by (simp add: user_pages_def)

lemma translate_page:
  assumes "unat v + n * 4096 \<le> 2 ^ 64" and "j < n * 4096"
  shows "translate ((v, user_pages aligned n) # ms) (v + of_nat j) = Some (aligned + of_nat j)"
proof -
  have j: "j < 2 ^ 64"
    using assms by linarith
  have u: "unat (v + of_nat j) = unat v + j"
    using assms j by (subst unat_add_u64) simp_all
  have "v \<le> v + of_nat j"
    by (simp add: word_le_nat_alt u)
  moreover have "v + of_nat j - v = of_nat j"
    by simp
  moreover have "user_pages aligned n ! (j div 4096) = aligned + of_nat (j div 4096) * 4096"
    using assms(2) by (simp add: user_pages_def PAGE_SIZE_def div_less_iff_less_mult)
  moreover have "(of_nat j :: u64) mod PAGE_SIZE = of_nat (j mod 4096)"
    using j by (simp add: word_unat_eq_iff unat_mod PAGE_SIZE_def)
  moreover have "(of_nat (j div 4096) * 4096 + of_nat (j mod 4096) :: u64) = of_nat j"
    by (metis (no_types) div_mult_mod_eq of_nat_add of_nat_mult of_nat_numeral)
  ultimately show ?thesis
    using j assms(2) by (simp add: add.assoc length_user_pages)
qed


lemma kernel_set_user:
  assumes "\<And>j. j < n \<Longrightarrow> translate ms (a + of_nat j) = Some (u + of_nat j)" and "n \<le> 2 ^ 64"
  shows "kernel_set ms um a n c = Done (user_store um u (replicate n c))"
  using assms
proof (induction n arbitrary: a u um)
  case (Suc n)
  have "translate ms a = Some u"
    using Suc.prems(1) [of 0] by simp
  moreover have "translate ms (a + 1 + of_nat j) = Some (u + 1 + of_nat j)" if "j < n" for j
    using Suc.prems(1) [of "Suc j"] that by (simp add: add.assoc)
  then have "kernel_set ms (user_store um u [c]) (a + 1) n c =
      Done (user_store (user_store um u [c]) (u + 1) (replicate n c))"
    using Suc.prems(2) by (intro Suc.IH) simp_all
  moreover have "user_store (user_store um u [c]) (u + 1) (replicate n c) = user_store um u (replicate (Suc n) c)"
    using user_store_append [of "[c]" "replicate n c" um u] Suc.prems(2) by simp
  ultimately show ?case
    by simp
qed simp

lemma kernel_get_user:
  assumes "\<And>j. j < n \<Longrightarrow> translate ms (a + of_nat j) = Some (u + of_nat j)"
  shows "kernel_get ms um a n = Done (user_bytes um u n)"
  using assms
proof (induction n arbitrary: a u)
  case 0
  then show ?case by (simp add: user_bytes_def)
next
  case (Suc n)
  have "translate ms a = Some u"
    using Suc.prems(1) [of 0] by simp
  moreover have "translate ms (a + 1 + of_nat j) = Some (u + 1 + of_nat j)" if "j < n" for j
    using Suc.prems(1) [of "Suc j"] that by (simp add: add.assoc)
  then have "kernel_get ms um (a + 1) n = Done (user_bytes um (u + 1) n)"
    by (rule Suc.IH)
  moreover have "user_bytes um u (Suc n) = um u # user_bytes um (u + 1) n"
    using user_bytes_append [of um u 1 n] by (simp add: user_bytes_def)
  ultimately show ?case
    by (simp del: outcome_bind_eq_Done)
qed

lemma pages_unmap_all:
  "\<exists>d. pages_unmap reserved (length ps) ps s = Done (s\<lparr>dirty := dirty s \<union> d, pins := pins s - mset ps\<rparr>) \<and>
     d = {p \<in> set ps. \<not> reserved p}"
proof (induction ps arbitrary: s)
  case (Cons p ps)
  let ?s = "s\<lparr>dirty := (if reserved p then dirty s else insert p (dirty s)), pins := pins s - {#p#}\<rparr>"
  from Cons.IH [of ?s] show ?case
    by (auto simp: Collect_conv_if insert_Collect intro!: arg_cong [where f = "\<lambda>d. s\<lparr>dirty := d, pins := _\<rparr>"])
qed simp

section \<open>Properties\<close>

text \<open>An environment in which every call of \<open>IOCTL_DEMO_MAP\<close> succeeds, and the mapping fits.\<close>

definition map_succeeds :: "gup_env \<Rightarrow> bool" where
  "map_succeeds env \<longleftrightarrow> from_ret env = 0 \<and> array_ok env \<and> 0 < buf_size env \<and>
     gup_ret env = int (unat (page_count (buf_pointer env) (buf_size env))) \<and> vmap_ret env \<noteq> 0 \<and>
     unat (vmap_ret env) + unat (page_count (buf_pointer env) (buf_size env)) * 4096 \<le> 2 ^ 64"

lemma demo_map_ok:
  assumes "map_succeeds env"
  defines "n \<equiv> unat (page_count (buf_pointer env) (buf_size env))"
    and "aligned \<equiv> buf_pointer env - page_offset (buf_pointer env)"
  shows "demo_map env s = (0, s\<lparr>gnr_pages := page_count (buf_pointer env) (buf_size env),
      gpages := Pages (user_pages aligned n), pins := pins s + mset (user_pages aligned n),
      gvptr := vmap_ret env, vmaps := (vmap_ret env, user_pages aligned n) # vmaps s,
      gptr := vmap_ret env + page_offset (buf_pointer env), gsize := buf_size env\<rparr>)"
  using assms(1) unfolding n_def aligned_def by (simp add: demo_map_def map_succeeds_def Let_def)

lemma mapped_buffer:
  assumes "map_succeeds env" and "j < unat (buf_size env)"
  defines "n \<equiv> unat (page_count (buf_pointer env) (buf_size env))"
    and "aligned \<equiv> buf_pointer env - page_offset (buf_pointer env)"
  shows "translate ((vmap_ret env, user_pages aligned n) # ms)
      (vmap_ret env + page_offset (buf_pointer env) + of_nat j) = Some (buf_pointer env + of_nat j)"
proof -
  let ?off = "unat (buf_pointer env) mod 4096"
  have n: "n = (?off + unat (buf_size env) - 1) div 4096 + 1"
    using assms(1) unat_page_count by (simp add: n_def map_succeeds_def)
  have lt: "?off + j < n * 4096"
    using pages_cover(1) [OF _ n] assms(2) by linarith
  have off: "page_offset (buf_pointer env) = of_nat ?off"
    by (simp flip: unat_page_offset)
  have "translate ((vmap_ret env, user_pages aligned n) # ms) (vmap_ret env + of_nat (?off + j)) =
      Some (aligned + of_nat (?off + j))"
    by (rule translate_page) (use assms(1) lt in \<open>simp_all add: map_succeeds_def n_def\<close>)
  then show ?thesis
    unfolding aligned_def off by (simp add: add.assoc)
qed

text \<open>C25: The mapping is the caller's buffer, wherever it starts in its first page and wherever it ends in
  its last. After a successful \<open>IOCTL_DEMO_MAP\<close> the number of pinned pages is the least that covers the
  buffer, \<open>IOCTL_DEMO_WRITE\<close> fills exactly the bytes of the buffer, \<open>IOCTL_DEMO_READ\<close> prints its first
  (at most ten) bytes, neither touches memory outside the mapping, and \<open>IOCTL_DEMO_UNMAP\<close> releases
  every page and the mapping and marks the pages dirty.\<close>

theorem user_pages_mapping:
  assumes "map_succeeds env"
  shows "\<exists>s. demo_map env gup_init = (0, s) \<and>
    size (pins s) * 4096 \<ge> unat (buf_pointer env) mod 4096 + unat (buf_size env) \<and>
    (size (pins s) - 1) * 4096 < unat (buf_pointer env) mod 4096 + unat (buf_size env) \<and>
    demo_write um s arg =
      Done (0, user_store um (buf_pointer env) (replicate (unat (buf_size env)) (ucast arg))) \<and>
    demo_read um s = Done (0, user_bytes um (buf_pointer env) (min (unat (buf_size env)) 10)) \<and>
    demo_unmap reserved s = Done (0, gup_init\<lparr>dirty := {p. p \<in># pins s \<and> \<not> reserved p}\<rparr>)"
proof -
  let ?n = "unat (page_count (buf_pointer env) (buf_size env))"
  let ?ps = "user_pages (buf_pointer env - page_offset (buf_pointer env)) ?n"
  define s where "s = gup_init\<lparr>gnr_pages := page_count (buf_pointer env) (buf_size env), gpages := Pages ?ps,
    pins := pins gup_init + mset ?ps, gvptr := vmap_ret env, vmaps := (vmap_ret env, ?ps) # vmaps gup_init,
    gptr := vmap_ret env + page_offset (buf_pointer env), gsize := buf_size env\<rparr>"
  have pos: "0 < unat (buf_size env)" and n: "?n = (unat (buf_pointer env) mod 4096 + unat (buf_size env) - 1) div 4096 + 1"
    using assms unat_page_count by (auto simp: map_succeeds_def word_less_nat_alt)
  have pins: "pins s = mset ?ps" "size (pins s) = ?n"
    by (simp_all add: s_def gup_init_def length_user_pages)
  note tr = mapped_buffer [OF assms]
  have "demo_write um s arg =
      Done (0, user_store um (buf_pointer env) (replicate (unat (buf_size env)) (ucast arg)))"
    using kernel_set_user [OF tr, of "unat (buf_size env)"] unat_less_u32 [of "buf_size env"]
    by (simp add: demo_write_def s_def del: outcome_bind_eq_Done)
  moreover have "demo_read um s = Done (0, user_bytes um (buf_pointer env) (min (unat (buf_size env)) 10))"
  proof -
    have m: "unat (min (buf_size env) 10) = min (unat (buf_size env)) 10"
      by (simp add: min_def word_le_nat_alt)
    have "kernel_get (vmaps s) um (gptr s) (min (unat (buf_size env)) 10) =
        Done (user_bytes um (buf_pointer env) (min (unat (buf_size env)) 10))"
      unfolding s_def by (simp, rule kernel_get_user, rule tr) simp
    then show ?thesis
      by (simp add: demo_read_def Let_def m s_def del: outcome_bind_eq_Done)
  qed
  moreover have "demo_unmap reserved s = Done (0, gup_init\<lparr>dirty := {p. p \<in># pins s \<and> \<not> reserved p}\<rparr>)"
  proof -
    let ?s = "s\<lparr>vmaps := []\<rparr>"
    have "pages_unmap reserved ?n ?ps ?s = Done (?s\<lparr>dirty := {p \<in> set ?ps. \<not> reserved p}, pins := {#}\<rparr>)"
      using pages_unmap_all [of reserved ?ps ?s] by (simp add: length_user_pages pins s_def gup_init_def)
    then show ?thesis
      by (simp add: demo_unmap_def s_def gup_init_def del: outcome_bind_eq_Done)
  qed
  ultimately show ?thesis
    using demo_map_ok [OF assms, of gup_init] pages_cover [OF pos n] pins(2)
    by (intro exI [of _ s]) (simp add: s_def)
qed

definition straddling_env :: gup_env where
  "straddling_env = \<lparr>from_ret = 0, buf_pointer = 8190, buf_size = 4, array_ok = True, gup_ret = 2,
     vmap_ret = 65536\<rparr>"

lemma straddling_ok: "map_succeeds straddling_env"
proof -
  have "unat (page_count 8190 4) = 2"
    by (subst unat_page_count) simp_all
  then show ?thesis
    by (simp add: map_succeeds_def straddling_env_def)
qed

theorem user_pages_mapping_witness:
  "\<exists>s. demo_map straddling_env gup_init = (0, s) \<and>
    demo_write (\<lambda>_. 0) s 7 = Done (0, user_store (\<lambda>_. 0) 8190 [7, 7, 7, 7])"
proof -
  have "replicate 4 (7 :: byte) = [7, 7, 7, 7]"
    by (simp add: numeral_eq_Suc)
  then show ?thesis
    using user_pages_mapping [OF straddling_ok, of "\<lambda>_. 0" 7 "\<lambda>_. False"]
    by (auto simp: straddling_env_def)
qed

text \<open>A failed \<open>IOCTL_DEMO_MAP\<close> is not undone. When only some of the pages could be pinned, or when
  \<open>vmap\<close> fails, it returns \<open>-EFAULT\<close> but keeps the references to the pages that were pinned; the
  static pointer to the page array still points to the array that was freed, so that the next
  \<open>IOCTL_DEMO_UNMAP\<close> uses freed memory. When the array cannot be allocated, the next
  \<open>IOCTL_DEMO_UNMAP\<close> goes through a null pointer.\<close>

theorem user_pages_failed_map:
  assumes "from_ret env = 0" and "0 < buf_size env" and "k = nat (gup_ret env)"
    and "k < unat (page_count (buf_pointer env) (buf_size env)) \<or> vmap_ret env = 0"
    and "\<bar>gup_ret env\<bar> < 2 ^ 31"
  shows "case demo_map env gup_init of (err, s) \<Rightarrow>
    if array_ok env then err = - EFAULT \<and> size (pins s) = k \<and> demo_unmap reserved s = Crash UseAfterFree
    else err = - ENOMEM \<and> pins s = {#} \<and> demo_unmap reserved s = Crash NullDeref"
proof -
  let ?c = "page_count (buf_pointer env) (buf_size env)"
  have c: "0 < unat ?c" "?c \<noteq> 0"
    using unat_page_count [OF assms(2), of "buf_pointer env"] by auto
  have "word_of_int (gup_ret env) \<noteq> ?c" if "k < unat ?c"
  proof
    assume e: "word_of_int (gup_ret env) = ?c"
    have "unat ?c < 2 ^ 31"
      using unat_page_count [OF assms(2), of "buf_pointer env"] unat_less_u32 [of "buf_size env"]
      by (simp add: div_less_iff_less_mult)
    moreover define m where "m = unat ?c"
    moreover have "int (unat ?c) = gup_ret env mod 2 ^ 32"
      by (simp flip: e add: unsigned_of_int take_bit_eq_mod)
    ultimately have "m < 2 ^ 31" "int m = gup_ret env mod 2 ^ 32" "nat (gup_ret env) < m"
      using that assms(3) by simp_all
    moreover have "gup_ret env mod 2 ^ 32 = gup_ret env" if "0 \<le> gup_ret env"
      using that assms(5) by (intro mod_pos_pos_trivial) auto
    moreover have "gup_ret env mod 2 ^ 32 = gup_ret env + 2 ^ 32" if "gup_ret env < 0"
    proof -
      have "(gup_ret env + 2 ^ 32) mod 2 ^ 32 = gup_ret env + 2 ^ 32"
        using that assms(5) by (intro mod_pos_pos_trivial) auto
      then show ?thesis
        by simp
    qed
    ultimately show False
      using assms(5) by (cases "0 \<le> gup_ret env") auto
  qed
  with assms c show ?thesis
    by (auto simp: demo_map_def demo_unmap_def Let_def gup_init_def length_user_pages)
qed

definition half_env :: gup_env where
  "half_env = straddling_env\<lparr>gup_ret := 1\<rparr>"

theorem user_pages_failed_map_witness:
  "\<exists>s. demo_map half_env gup_init = (- EFAULT, s) \<and> size (pins s) = 1 \<and>
     demo_unmap (\<lambda>_. False) s = Crash UseAfterFree"
proof -
  have "unat (page_count 8190 4) = 2"
    by (subst unat_page_count) simp_all
  then show ?thesis
    using user_pages_failed_map [of half_env 1 "\<lambda>_. False"]
    by (simp add: half_env_def straddling_env_def split: prod.splits)
qed

end
