(* ===== verification/KernIoctl.thy ===== *)
theory KernIoctl
  imports ModuleLife
begin

text \<open>
  Modules of \<open>src/src/kernel\<close>: the registration code that most of them include (\<open>device.inc\<close>), the slab
  cache of \<open>mod_kmem_cache.c\<close>, and the \<open>ioctl\<close>s of \<open>mod_kmalloc.c\<close>, \<open>mod_spin_lock.c\<close> and \<open>mod_poll.c\<close>.
  Resources are accounted for in the ledger of the module theories; the \<open>ioctl\<close> of \<open>mod_kmalloc.c\<close>,
  which looks at addresses, returns the calls of the allocators that it makes.
\<close>

section \<open>device.inc\<close>

text \<open>\<open>region_ret\<close> is what \<open>register_chrdev_region\<close> returns, which is called for a static device number.\<close>

definition register_dev :: "bool \<Rightarrow> int \<Rightarrow> kenv \<Rightarrow> ledger \<Rightarrow> (int \<times> ledger) outcome" where
  "register_dev chrdev_alloc_dynamic region_ret env l =
    (case class_create env l of (my_class, l) \<Rightarrow>
       if is_err my_class then Done (ptr_err my_class, l)
       else case kmalloc env 0 l of (pdev, l) \<Rightarrow>
         if is_err pdev then Done (ptr_err pdev, class_destroy l)
         else if pdev = PtrNull then Crash NullDeref
         else case (if chrdev_alloc_dynamic then alloc_chrdev_region env l else acquire_int region_ret Region l) of
           (ret, l) \<Rightarrow>
             if ret \<noteq> 0 then Done (ret, class_destroy (kfree pdev 0 l))
             else case cdev_add env l of (ret, l) \<Rightarrow>
               if ret \<noteq> 0 then Done (ret, class_destroy (kfree pdev 0 (unregister_chrdev_region l)))
               else case device_create env 0 l of (my_device, l) \<Rightarrow>
                 if is_err my_device
                 then Done (ptr_err my_device,
                   class_destroy (kfree pdev 0 (unregister_chrdev_region (cdev_del l))))
                 else Done (0, l))"

definition unregister_dev :: "kenv \<Rightarrow> ledger \<Rightarrow> ledger" where
  "unregister_dev env l =
     class_destroy (kfree PtrOk 0 (unregister_chrdev_region (cdev_del (device_destroy 0 l))))"

section \<open>mod\_kmem\_cache.c\<close>

definition kmem_init :: "kenv \<Rightarrow> ledger \<Rightarrow> int \<times> ledger" where
  "kmem_init env l =
    (case acquire_ptr (kmalloc_ret env 0) SlabCache l of (cache_p, l) \<Rightarrow>
       if cache_p = PtrNull then (- ENOMEM, l)
       else case acquire_ptr (kmalloc_ret env 1) SlabObj l of (p, l) \<Rightarrow>
         if p = PtrNull then (- ENOMEM, release SlabCache l) else (0, l))"

definition kmem_exit :: "kenv \<Rightarrow> ledger \<Rightarrow> ledger" where
  "kmem_exit env l = release SlabCache (release SlabObj l)"

section \<open>mod\_spin\_lock.c\<close>

definition IOCTL_SPINLOCK_IRQSAVE :: u32 where "IOCTL_SPINLOCK_IRQSAVE = 25629"
definition IOCTL_SPINLOCK_REGULAR :: u32 where "IOCTL_SPINLOCK_REGULAR = 25630"
definition IOCTL_SPINLOCK_ALLOCATED :: u32 where "IOCTL_SPINLOCK_ALLOCATED = 25631"

datatype spinlock = MrLock | LockT

datatype spin_op =
  SpinInit spinlock | SpinLock spinlock | SpinUnlock spinlock
| SpinLockIrqsave spinlock | SpinUnlockIrqrestore spinlock

text \<open>The result, the ledger and the operations on the locks, in the order of the calls.\<close>

definition spin_lock_ioctl :: "kenv \<Rightarrow> u32 \<Rightarrow> ledger \<Rightarrow> int \<times> ledger \<times> spin_op list" where
  "spin_lock_ioctl env cmd l =
    (if cmd = IOCTL_SPINLOCK_IRQSAVE then (0, l, [SpinLockIrqsave MrLock, SpinUnlockIrqrestore MrLock])
     else if cmd = IOCTL_SPINLOCK_REGULAR then (0, l, [SpinLock MrLock, SpinUnlock MrLock])
     else if cmd = IOCTL_SPINLOCK_ALLOCATED
     then (case kmalloc env 0 l of (lock_t, l) \<Rightarrow>
             if lock_t = PtrNull then (- ENOMEM, l, [])
             else (0, kfree lock_t 0 l, [SpinInit LockT, SpinLock LockT, SpinUnlock LockT]))
     else (- EINVAL, l, []))"

text \<open>
  One CPU that runs operations on locks: the locks that are initialised, those it holds, and whether
  interrupts are on. Taking a lock that it holds already, and giving back one that it does not
  hold, are mistakes.
\<close>

fun spin_run :: "spin_op list \<Rightarrow> spinlock list \<times> spinlock list \<times> bool \<Rightarrow> (spinlock list \<times> spinlock list \<times> bool) option" where
  "spin_run [] s = Some s"
| "spin_run (SpinInit k # ops) (ready, owned, irqs) =
     (if k \<in> set owned then None else spin_run ops (k # ready, owned, irqs))"
| "spin_run (SpinLock k # ops) (ready, owned, irqs) =
     (if k \<notin> set ready \<or> k \<in> set owned then None else spin_run ops (ready, k # owned, irqs))"
| "spin_run (SpinUnlock k # ops) (ready, owned, irqs) =
     (if k \<notin> set owned then None else spin_run ops (ready, remove1 k owned, irqs))"
| "spin_run (SpinLockIrqsave k # ops) (ready, owned, irqs) =
     (if k \<notin> set ready \<or> k \<in> set owned then None else spin_run ops (ready, k # owned, False))"
| "spin_run (SpinUnlockIrqrestore k # ops) (ready, owned, irqs) =
     (if k \<notin> set owned then None else spin_run ops (ready, remove1 k owned, True))"

section \<open>mod\_kmalloc.c\<close>

datatype kmem_call =
  Kmalloc u64 | Kfree | GetFreePages u64 | FreePages u64 | DmaAlloc u64 | DmaFree u64 u64

definition IOCTL_DEMO_KMALLOC :: u32 where "IOCTL_DEMO_KMALLOC = 25606"
definition IOCTL_DEMO_GET_FREE_PAGES :: u32 where "IOCTL_DEMO_GET_FREE_PAGES = 25607"
definition IOCTL_DEMO_DMA_ALLOC_COHERENT :: u32 where "IOCTL_DEMO_DMA_ALLOC_COHERENT = 25609"

text \<open>\<open>addr\<close> is the address that the allocator returns; the calls carry the sizes.\<close>

definition kmalloc_ioctl :: "u32 \<Rightarrow> u64 \<Rightarrow> u64 \<Rightarrow> int \<times> kmem_call list" where
  "kmalloc_ioctl cmd arg addr =
    (let sz = arg * 4096
     in if cmd = IOCTL_DEMO_KMALLOC
        then if addr = 0 then (- ENOMEM, [Kmalloc sz])
             else if addr mod 4096 \<noteq> 0 then (- EFAULT, [Kmalloc sz])
             else (0, [Kmalloc sz, Kfree])
        else if cmd = IOCTL_DEMO_GET_FREE_PAGES
        then if addr = 0 then (- EFAULT, [GetFreePages sz])
             else if addr mod 4096 \<noteq> 0 then (- EFAULT, [GetFreePages sz])
             else (0, [GetFreePages sz, FreePages sz])
        else if cmd = IOCTL_DEMO_DMA_ALLOC_COHERENT
        then if addr \<ge> - 4095 then (sint addr, [DmaAlloc sz])
             else if addr mod 4096 \<noteq> 0 then (- EFAULT, [DmaAlloc sz])
             else (0, [DmaAlloc sz, DmaFree sz addr])
        else (- EINVAL, []))"

section \<open>mod\_poll.c\<close>

record polldev =
  poll_state :: u64

definition POLLIN :: u64 where "POLLIN = 1"
definition IOCTL_EPOLL_WAKE :: u32 where "IOCTL_EPOLL_WAKE = 25642"
definition IOCTL_EPOLL_RESET :: u32 where "IOCTL_EPOLL_RESET = 25643"

definition poll_open :: "kptr \<Rightarrow> int \<times> polldev option" where
  "poll_open pd = (if pd = PtrNull then (- ENOMEM, None) else (0, Some \<lparr>poll_state = 0\<rparr>))"

text \<open>The last component says whether the waiters of the file are woken to poll again.\<close>

definition poll_ioctl :: "u32 \<Rightarrow> polldev \<Rightarrow> int \<times> polldev \<times> bool" where
  "poll_ioctl cmd pd =
    (if cmd = IOCTL_EPOLL_WAKE then (0, pd\<lparr>poll_state := POLLIN\<rparr>, True)
     else if cmd = IOCTL_EPOLL_RESET then (0, pd\<lparr>poll_state := 0\<rparr>, True)
     else (- ENOTTY, pd, False))"

definition kern_poll :: "polldev \<Rightarrow> u32" where
  "kern_poll pd = ucast (poll_state pd)"

section \<open>The contracts\<close>

lemma register_dev_clean:
  assumes "kenv_ok env" and "kmalloc_ret env 0 = PtrOk"
  shows "\<exists>err l. register_dev dyn region_ret env no_resources = Done (err, l) \<and>
    (if err = 0 then unregister_dev env l = no_resources else l = no_resources)"
  using kenv_okD(1) [OF assms(1)] kenv_okD(2) [OF assms(1), of 0] assms(2)
  by (auto simp: register_dev_def unregister_dev_def kernel_calls split: if_splits elim!: err_or_validE)

lemma register_dev_null:
  assumes "class_create_ret env = PtrOk" and "kmalloc_ret env 0 = PtrNull"
  shows "register_dev dyn region_ret env no_resources = Crash NullDeref"
  using assms by (simp add: register_dev_def kernel_calls)

interpretation kmem: module_lifecycle kmem_init kmem_exit
proof
  fix env err l assume "kenv_ok env"
  note d = kenv_okD(5) [OF this, of 0] kenv_okD(5) [OF this, of 1]
  show "kmem_init env no_resources = (err, l) \<Longrightarrow> err \<noteq> 0 \<Longrightarrow> l = no_resources"
    "kmem_init env no_resources = (0, l) \<Longrightarrow> kmem_exit env l = no_resources"
    using d by (auto simp: kmem_init_def kmem_exit_def kernel_calls errno_defs split: if_splits
        elim!: null_or_validE)
qed

lemma spin_lock_ioctl_clean:
  assumes "kenv_ok env" and "spin_lock_ioctl env cmd no_resources = (ret, l, ops)"
  shows "l = no_resources"
    and "\<exists>ready. spin_run ops ([MrLock], [], True) = Some (ready, [], True)"
  using assms(2) kenv_okD(5) [OF assms(1), of 0]
  by (auto simp: spin_lock_ioctl_def kernel_calls split: if_splits elim!: null_or_validE)

text \<open>
  An address that is not a multiple of the page size makes \<open>mod_kmalloc\<close> return without giving the
  memory back. The coherent allocation fails with a null pointer, which \<open>IS_ERR\<close> does not recognise:
  the failure is reported as success, after freeing the null pointer.
\<close>

lemma kmalloc_ioctl_misaligned:
  assumes "addr mod 4096 \<noteq> 0" and "addr < - 4095"
  shows "kmalloc_ioctl IOCTL_DEMO_KMALLOC arg addr = (- EFAULT, [Kmalloc (arg * 4096)])"
    and "kmalloc_ioctl IOCTL_DEMO_GET_FREE_PAGES arg addr = (- EFAULT, [GetFreePages (arg * 4096)])"
    and "kmalloc_ioctl IOCTL_DEMO_DMA_ALLOC_COHERENT arg addr = (- EFAULT, [DmaAlloc (arg * 4096)])"
  using assms by (auto simp: kmalloc_ioctl_def IOCTL_DEMO_KMALLOC_def IOCTL_DEMO_GET_FREE_PAGES_def
      IOCTL_DEMO_DMA_ALLOC_COHERENT_def Let_def not_le)

lemma kmalloc_ioctl_dma_null:
  "kmalloc_ioctl IOCTL_DEMO_DMA_ALLOC_COHERENT arg 0 = (0, [DmaAlloc (arg * 4096), DmaFree (arg * 4096) 0])"
  by (simp add: kmalloc_ioctl_def IOCTL_DEMO_KMALLOC_def IOCTL_DEMO_GET_FREE_PAGES_def
      IOCTL_DEMO_DMA_ALLOC_COHERENT_def Let_def)

text \<open>\<open>poll\<close> reports the last of the two commands, whatever else was sent in between.\<close>

definition poll_after :: "u32 list \<Rightarrow> polldev" where
  "poll_after cmds = foldl (\<lambda>pd cmd. fst (snd (poll_ioctl cmd pd))) \<lparr>poll_state = 0\<rparr> cmds"

lemma poll_last:
  "kern_poll (poll_after cmds) = 1 \<longleftrightarrow>
    (\<exists>cs ds. cmds = cs @ IOCTL_EPOLL_WAKE # ds \<and> IOCTL_EPOLL_RESET \<notin> set ds)"
proof (induction cmds rule: rev_induct)
  case Nil
  then show ?case by (simp add: poll_after_def kern_poll_def)
next
  case (snoc cmd cmds)
  let ?P = "\<lambda>cmds. \<exists>cs ds. cmds = cs @ IOCTL_EPOLL_WAKE # ds \<and> IOCTL_EPOLL_RESET \<notin> set ds"
  have ne: "IOCTL_EPOLL_WAKE \<noteq> IOCTL_EPOLL_RESET"
    by (simp add: IOCTL_EPOLL_WAKE_def IOCTL_EPOLL_RESET_def)
  have step: "?P (cmds @ [cmd]) \<longleftrightarrow> cmd = IOCTL_EPOLL_WAKE \<or> cmd \<noteq> IOCTL_EPOLL_RESET \<and> ?P cmds"
  proof
    assume "?P (cmds @ [cmd])"
    then obtain cs ds where *: "cmds @ [cmd] = cs @ IOCTL_EPOLL_WAKE # ds" "IOCTL_EPOLL_RESET \<notin> set ds"
      by blast
    then show "cmd = IOCTL_EPOLL_WAKE \<or> cmd \<noteq> IOCTL_EPOLL_RESET \<and> ?P cmds"
      by (cases ds rule: rev_cases) auto
  next
    assume "cmd = IOCTL_EPOLL_WAKE \<or> cmd \<noteq> IOCTL_EPOLL_RESET \<and> ?P cmds"
    then show "?P (cmds @ [cmd])"
    proof (elim disjE conjE exE)
      assume "cmd = IOCTL_EPOLL_WAKE"
      then show ?thesis
        by (intro exI [of _ cmds] exI [of _ "[]"]) simp
    next
      fix cs ds
      assume "cmd \<noteq> IOCTL_EPOLL_RESET" and "cmds = cs @ IOCTL_EPOLL_WAKE # ds" and "IOCTL_EPOLL_RESET \<notin> set ds"
      then show ?thesis
        by (intro exI [of _ cs] exI [of _ "ds @ [cmd]"]) simp
    qed
  qed
  show ?case
    unfolding step using snoc.IH ne
    by (auto simp: poll_after_def poll_ioctl_def kern_poll_def POLLIN_def)
qed

section \<open>Properties\<close>

text \<open>The registration code that the modules of \<open>src/src/kernel\<close> include, with a dynamic and with a
  static device number, and the slab cache module give back what they took on every path, whatever
  calls fail, provided that the structure of the device could be allocated; when that allocation
  fails, the test with \<open>IS_ERR\<close> lets the null pointer through and the registration writes to it. The
  \<open>ioctl\<close> of the spin lock module takes only locks that are initialised and not held, and leaves no lock
  held, no memory allocated and interrupts on.\<close>

theorem kernel_modules_clean:
  assumes "kenv_ok env"
  shows "clean_module kmem_init kmem_exit \<and>
    (case register_dev dyn region_ret env no_resources of
       Done (err, l) \<Rightarrow>
         if err = 0 then unregister_dev env l = no_resources else l = no_resources
     | Crash c \<Rightarrow> kmalloc_ret env 0 = PtrNull \<and> c = NullDeref) \<and>
    (case spin_lock_ioctl env cmd no_resources of (ret, l, ops) \<Rightarrow>
       l = no_resources \<and> (\<exists>ready. spin_run ops ([MrLock], [], True) = Some (ready, [], True)))"
proof (intro conjI)
  show "clean_module kmem_init kmem_exit"
    by (rule kmem.clean)
  show "case spin_lock_ioctl env cmd no_resources of (ret, l, ops) \<Rightarrow>
      l = no_resources \<and> (\<exists>ready. spin_run ops ([MrLock], [], True) = Some (ready, [], True))"
    using spin_lock_ioctl_clean [OF assms] by (auto split: prod.split)
  show "case register_dev dyn region_ret env no_resources of
       Done (err, l) \<Rightarrow>
         if err = 0 then unregister_dev env l = no_resources else l = no_resources
     | Crash c \<Rightarrow> kmalloc_ret env 0 = PtrNull \<and> c = NullDeref"
  proof (cases "kmalloc_ret env 0")
    case PtrOk
    then show ?thesis
      using register_dev_clean [OF assms, of dyn region_ret] by auto
  next
    case PtrNull
    then show ?thesis
      using kenv_okD(1) [OF assms]
      by (auto simp: register_dev_def kernel_calls elim!: err_or_validE)
  next
    case (PtrErr e)
    then show ?thesis
      using kenv_okD(5) [OF assms, of 0] by (auto elim: null_or_validE)
  qed
qed

theorem kernel_modules_clean_witness:
  "kenv_ok good_env \<and> (\<exists>l. register_dev True 0 good_env no_resources = Done (0, l) \<and>
     unregister_dev good_env l = no_resources)"
proof -
  have "\<exists>l. register_dev True 0 good_env no_resources = Done (0, l)"
    by (simp add: register_dev_def kernel_calls good_env_def)
  then show ?thesis
    using kernel_modules_clean [OF good_env_ok, of True 0 IOCTL_SPINLOCK_ALLOCATED] good_env_ok by auto
qed

end
