(* ===== verification/TimeUtils.thy ===== *)
theory TimeUtils
  imports ErrUtils "HOL-Library.Signed_Division" "HOL-Library.Monad_Syntax"
begin

text \<open>
  The time helpers of the user space programs: \<open>src/src/include/timespec_utils.h\<close> and
  \<open>src/src/include/timeval_utils.h\<close>. The fields are signed 64-bit integers; an operation whose
  arithmetic leaves that range is undefined in C and \<open>None\<close> here. Division and remainder round towards
  zero, as in C.
\<close>

section \<open>timespec\_utils.h\<close>

record timespec =
  tv_sec :: int
  tv_nsec :: int

definition NSEC_PER_SEC :: int where "NSEC_PER_SEC = 1000000000"
definition MSEC_PER_SEC :: int where "MSEC_PER_SEC = 1000000"

text \<open>The result of a signed 64-bit operation.\<close>

definition ll :: "int \<Rightarrow> int option" where
  "ll x = (if - (2 ^ 63) \<le> x \<and> x < 2 ^ 63 then Some x else None)"

definition timespec_add_nanos :: "timespec \<Rightarrow> int \<Rightarrow> timespec option" where
  "timespec_add_nanos t nanos_count =
    do {
      nsec \<leftarrow> ll (tv_nsec t + nanos_count);
      sec \<leftarrow> ll (tv_sec t + nsec sdiv NSEC_PER_SEC);
      Some (t\<lparr>tv_nsec := nsec smod NSEC_PER_SEC, tv_sec := sec\<rparr>)
    }"

definition timespec_add_secs :: "timespec \<Rightarrow> int \<Rightarrow> timespec option" where
  "timespec_add_secs t secs_count =
    do {
      sec \<leftarrow> ll (tv_sec t + secs_count);
      Some (t\<lparr>tv_sec := sec\<rparr>)
    }"

definition timespec_add :: "timespec \<Rightarrow> timespec \<Rightarrow> timespec option" where
  "timespec_add to from =
    do {
      nsec \<leftarrow> ll (tv_nsec to + tv_nsec from);
      carry \<leftarrow> ll (tv_sec from + nsec sdiv NSEC_PER_SEC);
      sec \<leftarrow> ll (tv_sec to + carry);
      Some (to\<lparr>tv_nsec := nsec smod NSEC_PER_SEC, tv_sec := sec\<rparr>)
    }"

definition timespec_assert_ge :: "int \<Rightarrow> site \<Rightarrow> site \<Rightarrow> timespec \<Rightarrow> timespec \<Rightarrow> unit checked" where
  "timespec_assert_ge errno loc1 loc2 x y =
    (if tv_sec x > tv_sec y then Returned ()
     else if tv_sec x = tv_sec y
     then if tv_nsec x \<ge> tv_nsec y then Returned ()
          else map_checked (\<lambda>_. ()) (check_assert errno 0 loc1)
     else map_checked (\<lambda>_. ()) (check_assert errno 0 loc2))"

definition timespec_diff_nano :: "timespec \<Rightarrow> timespec \<Rightarrow> u64 option" where
  "timespec_diff_nano t_end t_start =
    do {
      dsec \<leftarrow> ll (tv_sec t_end - tv_sec t_start);
      prod \<leftarrow> ll (dsec * NSEC_PER_SEC);
      dnsec \<leftarrow> ll (tv_nsec t_end - tv_nsec t_start);
      diff \<leftarrow> ll (prod + dnsec);
      Some (word_of_int diff)
    }"

definition timespec_sub :: "timespec \<Rightarrow> timespec \<Rightarrow> timespec \<Rightarrow> timespec option" where
  "timespec_sub t_end t_start result =
    do {
      sec \<leftarrow> ll (tv_sec t_end - tv_sec t_start);
      nsec \<leftarrow> ll (tv_nsec t_end - tv_nsec t_start);
      (if nsec < 0
       then do {
         sec \<leftarrow> ll (sec - 1);
         nsec \<leftarrow> ll (nsec + NSEC_PER_SEC);
         Some (result\<lparr>tv_sec := sec, tv_nsec := nsec\<rparr>)
       }
       else Some (result\<lparr>tv_sec := sec, tv_nsec := nsec\<rparr>))
    }"

definition timespec_set_sec :: "timespec \<Rightarrow> int \<Rightarrow> timespec" where
  "timespec_set_sec t secs = t\<lparr>tv_sec := secs\<rparr>"

definition timespec_set_nsec :: "timespec \<Rightarrow> int \<Rightarrow> timespec" where
  "timespec_set_nsec t nsec = t\<lparr>tv_nsec := nsec\<rparr>"

definition timespec_clear :: "timespec \<Rightarrow> timespec" where
  "timespec_clear t = t\<lparr>tv_sec := 0, tv_nsec := 0\<rparr>"

definition timespec_set :: "timespec \<Rightarrow> int \<Rightarrow> int \<Rightarrow> timespec" where
  "timespec_set t secs nsecs = t\<lparr>tv_sec := secs, tv_nsec := nsecs\<rparr>"

definition timespec_copy :: "timespec \<Rightarrow> timespec \<Rightarrow> timespec" where
  "timespec_copy to from = to\<lparr>tv_sec := tv_sec from, tv_nsec := tv_nsec from\<rparr>"

definition timespec_to_nanos :: "timespec \<Rightarrow> u64 option" where
  "timespec_to_nanos t =
    do {
      prod \<leftarrow> ll (tv_sec t * NSEC_PER_SEC);
      sum \<leftarrow> ll (prod + tv_nsec t);
      Some (word_of_int sum)
    }"

definition timespec_to_micros :: "timespec \<Rightarrow> u64 option" where
  "timespec_to_micros t =
    do {
      prod \<leftarrow> ll (tv_sec t * MSEC_PER_SEC);
      sum \<leftarrow> ll (prod + tv_nsec t sdiv 1000);
      Some (word_of_int sum)
    }"

section \<open>timeval\_utils.h\<close>

record timeval =
  tvl_sec :: int
  tvl_usec :: int

text \<open>The number that \<open>micro_diff\<close> converts to \<open>double\<close>: the arithmetic is unsigned and wraps.\<close>

definition micro_diff :: "timeval \<Rightarrow> timeval \<Rightarrow> u64" where
  "micro_diff t1 t2 =
    (let u1 = word_of_int (tvl_sec t1) * 1000000 + word_of_int (tvl_usec t1);
         u2 = word_of_int (tvl_sec t2) * 1000000 + word_of_int (tvl_usec t2)
     in u2 - u1)"

text \<open>
  \<open>None\<close> is an overflow of the signed subtractions; otherwise the process exits, with its message and
  status, or the difference is returned.
\<close>

datatype micro_result = MicroExit string int | Micros u64

definition diff_timeval_in_micro :: "timeval \<Rightarrow> timeval \<Rightarrow> micro_result option" where
  "diff_timeval_in_micro tv1 tv2 =
    (if tvl_sec tv1 > tvl_sec tv2 then Some (MicroExit ''tv1>tv2'' EXIT_FAILURE)
     else if tvl_sec tv1 = tvl_sec tv2 \<and> tvl_usec tv1 > tvl_usec tv2
     then Some (MicroExit ''tv1>tv2'' EXIT_FAILURE)
     else do {
       dsec \<leftarrow> ll (tvl_sec tv2 - tvl_sec tv1);
       dusec \<leftarrow> ll (tvl_usec tv2 - tvl_usec tv1);
       Some (Micros (word_of_int dsec * 1000000 + word_of_int dusec))
     })"

section \<open>Values\<close>

definition nanos :: "timespec \<Rightarrow> int" where
  "nanos t = tv_sec t * 1000000000 + tv_nsec t"

text \<open>A time of day as the kernel reports it: normalised, and before the year 2262.\<close>

definition normal :: "timespec \<Rightarrow> bool" where
  "normal t \<longleftrightarrow> 0 \<le> tv_nsec t \<and> tv_nsec t < 1000000000 \<and> 0 \<le> tv_sec t \<and> tv_sec t < 9223372036"

definition micros :: "timeval \<Rightarrow> int" where
  "micros tv = tvl_sec tv * 1000000 + tvl_usec tv"

named_theorems time_defs

lemmas time_def_facts [time_defs] = ll_def NSEC_PER_SEC_def MSEC_PER_SEC_def nanos_def normal_def

lemma sdiv_nonneg: "0 \<le> a \<Longrightarrow> 0 < b \<Longrightarrow> a sdiv b = a div b" for a b :: int
  by (cases "a = 0") (simp_all add: signed_divide_int_def)

lemma smod_nonneg: "0 \<le> a \<Longrightarrow> 0 < b \<Longrightarrow> a smod b = a mod b" for a b :: int
  by (cases "a = 0") (simp_all add: signed_modulo_int_def)


lemma ll_Some: "- 9223372036854775808 \<le> x \<Longrightarrow> x < 9223372036854775808 \<Longrightarrow> ll x = Some x"
  by (simp add: ll_def)

lemma normal_eqI: "normal s \<Longrightarrow> normal t \<Longrightarrow> nanos s = nanos t \<Longrightarrow> s = t"
  for s t :: timespec
proof -
  assume a: "normal s" "normal t" "nanos s = nanos t"
  have "tv_sec s = tv_sec t"
    using a unfolding normal_def nanos_def by linarith
  then show "s = t"
    using a(3) by (simp add: nanos_def)
qed

lemma normal_bounds:
  assumes "normal t"
  shows "0 \<le> tv_sec t" "tv_sec t \<le> 9223372035" "0 \<le> tv_nsec t" "tv_nsec t \<le> 999999999"
    "0 \<le> nanos t" "nanos t < 9223372036000000000"
  using assms unfolding normal_def nanos_def by linarith+

lemma timespec_add_nanos_value:
  assumes "normal t" and "0 \<le> n" and "nanos t + n < 9223372036000000000"
  shows "\<exists>t'. timespec_add_nanos t n = Some t' \<and> normal t' \<and> nanos t' = nanos t + n"
proof -
  define s where "s = tv_nsec t + n"
  note b = normal_bounds [OF assms(1)]
  have s: "0 \<le> s" "s < 9223372036854775808"
    using assms(2,3) b unfolding s_def nanos_def by linarith+
  have q: "(s div 1000000000) * 1000000000 + s mod 1000000000 = s" "0 \<le> s mod 1000000000"
    "s mod 1000000000 < 1000000000" "0 \<le> s div 1000000000"
    using s by (simp_all add: pos_imp_zdiv_nonneg_iff)
  have sec: "tv_sec t + s div 1000000000 < 9223372036"
    using assms(3) q unfolding nanos_def s_def by linarith
  have "timespec_add_nanos t n =
      Some (t\<lparr>tv_nsec := s mod 1000000000, tv_sec := tv_sec t + s div 1000000000\<rparr>)"
    using s q(4) sec b
    by (simp add: timespec_add_nanos_def NSEC_PER_SEC_def ll_Some sdiv_nonneg smod_nonneg flip: s_def)
  moreover have "nanos (t\<lparr>tv_nsec := s mod 1000000000, tv_sec := tv_sec t + s div 1000000000\<rparr>) = nanos t + n"
    using q(1) unfolding nanos_def s_def by simp
  ultimately show ?thesis
    using q sec b by (simp add: normal_def)
qed

lemma timespec_add_value:
  assumes "normal t" and "normal u" and "nanos t + nanos u < 9223372036000000000"
  shows "\<exists>t'. timespec_add t u = Some t' \<and> normal t' \<and> nanos t' = nanos t + nanos u"
proof -
  note b = normal_bounds [OF assms(1)] and c = normal_bounds [OF assms(2)]
  define n where "n = tv_nsec t + tv_nsec u"
  have n: "0 \<le> n" "n < 2000000000"
    using b c unfolding n_def by linarith+
  have q: "(n div 1000000000) * 1000000000 + n mod 1000000000 = n" "0 \<le> n mod 1000000000"
    "n mod 1000000000 < 1000000000" "0 \<le> n div 1000000000"
    using n by (simp_all add: pos_imp_zdiv_nonneg_iff)
  have sec: "tv_sec t + (tv_sec u + n div 1000000000) < 9223372036"
    using assms(3) q unfolding nanos_def n_def by linarith
  have "timespec_add t u =
      Some (t\<lparr>tv_nsec := n mod 1000000000, tv_sec := tv_sec t + (tv_sec u + n div 1000000000)\<rparr>)"
    using n q(4) sec b c
    by (simp add: timespec_add_def NSEC_PER_SEC_def ll_Some sdiv_nonneg smod_nonneg flip: n_def)
  moreover have "nanos (t\<lparr>tv_nsec := n mod 1000000000, tv_sec := tv_sec t + (tv_sec u + n div 1000000000)\<rparr>)
      = nanos t + nanos u"
    using q(1) unfolding nanos_def n_def by simp
  ultimately show ?thesis
    using q sec b c by (simp add: normal_def)
qed

lemma timespec_sub_value:
  assumes "normal t" and "normal u" and "nanos u \<le> nanos t"
  shows "\<exists>r'. timespec_sub t u r = Some r' \<and> normal r' \<and> nanos r' = nanos t - nanos u"
proof -
  note b = normal_bounds [OF assms(1)] and c = normal_bounds [OF assms(2)]
  show ?thesis
  proof (cases "tv_nsec t < tv_nsec u")
    case True
    then have "tv_sec u < tv_sec t"
      using assms(3) unfolding nanos_def by linarith
    then show ?thesis
      using True b c by (simp add: timespec_sub_def time_defs algebra_simps)
  next
    case False
    then have "tv_sec u \<le> tv_sec t"
      using assms(3) b c unfolding nanos_def by linarith
    then show ?thesis
      using False b c by (simp add: timespec_sub_def time_defs algebra_simps)
  qed
qed

lemma timespec_conversions:
  assumes "normal t"
  shows "timespec_to_nanos t = Some (word_of_int (nanos t))"
    and "timespec_to_micros t = Some (word_of_int (nanos t div 1000))"
proof -
  note b = normal_bounds [OF assms]
  show "timespec_to_nanos t = Some (word_of_int (nanos t))"
    using b by (simp add: timespec_to_nanos_def time_defs)
  have v: "nanos t div 1000 = tv_sec t * 1000000 + tv_nsec t div 1000"
    unfolding nanos_def by (simp add: div_add1_eq flip: mult.assoc)
  have "0 \<le> tv_nsec t div 1000" "tv_nsec t div 1000 \<le> 999999"
    using b by simp_all
  then show "timespec_to_micros t = Some (word_of_int (nanos t div 1000))"
    using b by (simp add: timespec_to_micros_def v ll_def MSEC_PER_SEC_def sdiv_nonneg)
qed

lemma timespec_diff_nano_value:
  assumes "normal t" and "normal u" and "nanos u \<le> nanos t"
  shows "timespec_diff_nano t u = Some (word_of_int (nanos t - nanos u))"
proof -
  note b = normal_bounds [OF assms(1)] and c = normal_bounds [OF assms(2)]
  have "tv_sec u \<le> tv_sec t"
    using assms(3) b c unfolding nanos_def by linarith
  then show ?thesis
    using b c by (simp add: timespec_diff_nano_def time_defs algebra_simps)
qed

lemma timespec_assert_ge_iff:
  assumes "normal t" and "normal u"
  shows "timespec_assert_ge errno l1 l2 t u = Returned () \<longleftrightarrow> nanos u \<le> nanos t"
proof -
  note b = normal_bounds [OF assms(1)] and c = normal_bounds [OF assms(2)]
  have exits: "map_checked (\<lambda>_. ()) (check_assert errno 0 l) \<noteq> Returned ()" for l
    by (auto simp: check_assert_def handle_error_def Let_def)
  consider "tv_sec u < tv_sec t" | "tv_sec u = tv_sec t" | "tv_sec t < tv_sec u"
    by linarith
  then show ?thesis
  proof cases
    case 1
    then have "nanos u \<le> nanos t"
      using b c unfolding nanos_def by linarith
    with 1 show ?thesis
      by (simp add: timespec_assert_ge_def)
  next
    case 2
    then show ?thesis
      using exits by (simp add: timespec_assert_ge_def nanos_def)
  next
    case 3
    then have "\<not> nanos u \<le> nanos t"
      using b c unfolding nanos_def by linarith
    with 3 show ?thesis
      using exits by (simp add: timespec_assert_ge_def)
  qed
qed

lemma micro_diff_value: "micro_diff tv1 tv2 = word_of_int (micros tv2 - micros tv1)"
  by (simp add: micro_diff_def micros_def Let_def)

text \<open>A negative count leaves a negative \<open>tv_nsec\<close>: the C remainder has the sign of its dividend.\<close>

lemma timespec_add_nanos_negative:
  "timespec_add_nanos \<lparr>tv_sec = 5, tv_nsec = 0\<rparr> (- 1) = Some \<lparr>tv_sec = 5, tv_nsec = - 1\<rparr>"
  by code_simp

section \<open>Properties\<close>

text \<open>C35: The difference of two normalised times, the later one first, is a normalised time;
  adding it to the earlier time gives the later one back, its length in nanoseconds is what
  \<open>timespec_diff_nano\<close> returns, and \<open>timespec_assert_ge\<close> accepts exactly such pairs of times.\<close>

theorem timespec_sub_add_roundtrip:
  assumes "normal t" and "normal u"
  shows "timespec_assert_ge errno l1 l2 t u = Returned () \<longleftrightarrow>
    (\<exists>d. timespec_sub t u r = Some d \<and> normal d \<and> timespec_add u d = Some t
      \<and> timespec_diff_nano t u = timespec_to_nanos d)"
proof
  assume "timespec_assert_ge errno l1 l2 t u = Returned ()"
  then have le: "nanos u \<le> nanos t"
    by (simp add: timespec_assert_ge_iff assms)
  obtain d where d: "timespec_sub t u r = Some d" "normal d" "nanos d = nanos t - nanos u"
    using timespec_sub_value [OF assms le] by blast
  obtain t' where t': "timespec_add u d = Some t'" "normal t'" "nanos t' = nanos u + nanos d"
    using timespec_add_value [OF assms(2) d(2)] d(3) normal_bounds(6) [OF assms(1)] by auto
  have "t' = t"
    using normal_eqI [OF t'(2) assms(1)] t'(3) d(3) by simp
  with d t' show "\<exists>d. timespec_sub t u r = Some d \<and> normal d \<and> timespec_add u d = Some t
      \<and> timespec_diff_nano t u = timespec_to_nanos d"
    using timespec_diff_nano_value [OF assms le] timespec_conversions(1) [OF d(2)] by auto
next
  assume "\<exists>d. timespec_sub t u r = Some d \<and> normal d \<and> timespec_add u d = Some t
      \<and> timespec_diff_nano t u = timespec_to_nanos d"
  then obtain d where d: "timespec_sub t u r = Some d" "normal d"
    by blast
  have "0 \<le> tv_sec d"
    using normal_bounds(1) [OF d(2)] .
  then have "nanos u \<le> nanos t"
    using d(1) normal_bounds [OF assms(1)] normal_bounds [OF assms(2)]
    by (auto simp: timespec_sub_def ll_def NSEC_PER_SEC_def nanos_def bind_eq_Some_conv split: if_splits)
  then show "timespec_assert_ge errno l1 l2 t u = Returned ()"
    by (simp add: timespec_assert_ge_iff assms)
qed

theorem timespec_sub_add_roundtrip_witness:
  "timespec_assert_ge 0 \<lparr>site_msg = [], site_file = [], site_function = [], site_line = 0\<rparr>
     \<lparr>site_msg = [], site_file = [], site_function = [], site_line = 0\<rparr>
     \<lparr>tv_sec = 7, tv_nsec = 1\<rparr> \<lparr>tv_sec = 5, tv_nsec = 3\<rparr> = Returned ()
   \<and> (\<exists>d. timespec_sub \<lparr>tv_sec = 7, tv_nsec = 1\<rparr> \<lparr>tv_sec = 5, tv_nsec = 3\<rparr> \<lparr>tv_sec = 0, tv_nsec = 0\<rparr> = Some d
     \<and> normal d \<and> timespec_add \<lparr>tv_sec = 5, tv_nsec = 3\<rparr> d = Some \<lparr>tv_sec = 7, tv_nsec = 1\<rparr>
     \<and> timespec_diff_nano \<lparr>tv_sec = 7, tv_nsec = 1\<rparr> \<lparr>tv_sec = 5, tv_nsec = 3\<rparr> = timespec_to_nanos d)"
  using timespec_sub_add_roundtrip [of "\<lparr>tv_sec = 7, tv_nsec = 1\<rparr>" "\<lparr>tv_sec = 5, tv_nsec = 3\<rparr>" 0
      "\<lparr>site_msg = [], site_file = [], site_function = [], site_line = 0\<rparr>"
      "\<lparr>site_msg = [], site_file = [], site_function = [], site_line = 0\<rparr>" "\<lparr>tv_sec = 0, tv_nsec = 0\<rparr>"]
  by (simp add: normal_def timespec_assert_ge_def)

text \<open>Advancing a normalised time by a count of nanoseconds that is not negative keeps it normalised
  and adds the count to its value; the value fits in 64 bits, and the value in microseconds is the one
  in nanoseconds divided by 1000.\<close>

theorem timespec_add_nanos_advances:
  assumes "normal t" and "0 \<le> n" and "nanos t + n < 9223372036000000000"
  shows "\<exists>t' v v' m. timespec_add_nanos t n = Some t' \<and> normal t'
    \<and> timespec_to_nanos t = Some v \<and> timespec_to_nanos t' = Some v' \<and> timespec_to_micros t' = Some m
    \<and> uint v = nanos t \<and> uint v' = uint v + n \<and> m = v' div 1000"
proof -
  obtain t' where t': "timespec_add_nanos t n = Some t'" "normal t'" "nanos t' = nanos t + n"
    using timespec_add_nanos_value [OF assms] by blast
  have fits: "uint (word_of_int x :: u64) = x" if "0 \<le> x" "x < 9223372036000000000" for x
    using that by (simp add: uint_word_of_int)
  note b = normal_bounds(5,6) [OF assms(1)] and b' = normal_bounds(5,6) [OF t'(2)]
  have "uint (word_of_int (nanos t' div 1000) :: u64) = uint (word_of_int (nanos t') div 1000 :: u64)"
    using b' by (simp add: uint_div_distrib fits)
  then have "word_of_int (nanos t' div 1000) = (word_of_int (nanos t') div 1000 :: u64)"
    by (simp only: word_uint_eq_iff)
  then have m: "timespec_to_micros t' = Some (word_of_int (nanos t') div 1000)"
    using timespec_conversions(2) [OF t'(2)] by simp
  show ?thesis
  proof (intro exI conjI)
    show "uint (word_of_int (nanos t') :: u64) = uint (word_of_int (nanos t) :: u64) + n"
      using fits b b' t'(3) by metis
    show "uint (word_of_int (nanos t) :: u64) = nanos t"
      using fits b by simp
  qed (use t' m timespec_conversions(1) [OF t'(2)] timespec_conversions(1) [OF assms(1)] in simp_all)
qed

theorem timespec_add_nanos_advances_witness:
  "\<exists>t' v v' m. timespec_add_nanos \<lparr>tv_sec = 7, tv_nsec = 999999999\<rparr> 1001 = Some t' \<and> normal t'
    \<and> timespec_to_nanos \<lparr>tv_sec = 7, tv_nsec = 999999999\<rparr> = Some v \<and> timespec_to_nanos t' = Some v'
    \<and> timespec_to_micros t' = Some m
    \<and> uint v = nanos \<lparr>tv_sec = 7, tv_nsec = 999999999\<rparr> \<and> uint v' = uint v + 1001 \<and> m = v' div 1000"
  by (rule timespec_add_nanos_advances) (simp_all add: normal_def nanos_def)

text \<open>For two normalised \<open>timeval\<close>s the two helpers agree with the difference of the times in microseconds
  when the first is not later than the second; otherwise \<open>diff_timeval_in_micro\<close> ends the process.\<close>

theorem timeval_difference:
  assumes "tvl_sec tv1 \<in> {0..<9223372036}" and "tvl_usec tv1 \<in> {0..<1000000}"
    and "tvl_sec tv2 \<in> {0..<9223372036}" and "tvl_usec tv2 \<in> {0..<1000000}"
  shows "if micros tv1 \<le> micros tv2
    then diff_timeval_in_micro tv1 tv2 = Some (Micros (micro_diff tv1 tv2))
      \<and> uint (micro_diff tv1 tv2) = micros tv2 - micros tv1
    else diff_timeval_in_micro tv1 tv2 = Some (MicroExit ''tv1>tv2'' EXIT_FAILURE)"
proof (cases "micros tv1 \<le> micros tv2")
  case True
  have b: "0 \<le> micros tv1" "micros tv2 < 9223372036000000"
    using assms unfolding micros_def atLeastLessThan_iff by linarith+
  have "\<not> tvl_sec tv2 < tvl_sec tv1" "tvl_sec tv1 = tvl_sec tv2 \<Longrightarrow> \<not> tvl_usec tv2 < tvl_usec tv1"
    using assms True unfolding micros_def atLeastLessThan_iff by linarith+
  then have "diff_timeval_in_micro tv1 tv2 = Some (Micros (micro_diff tv1 tv2))"
    using assms by (auto simp: diff_timeval_in_micro_def ll_Some micro_diff_value micros_def algebra_simps)
  moreover have "uint (micro_diff tv1 tv2) = micros tv2 - micros tv1"
    unfolding micro_diff_value uint_word_of_int using True b by (subst mod_pos_pos_trivial) simp_all
  ultimately show ?thesis
    using True by simp
next
  case False
  then have "tvl_sec tv1 > tvl_sec tv2 \<or> tvl_sec tv1 = tvl_sec tv2 \<and> tvl_usec tv1 > tvl_usec tv2"
    using assms unfolding micros_def atLeastLessThan_iff by linarith
  then show ?thesis
    using False by (auto simp: diff_timeval_in_micro_def)
qed

theorem timeval_difference_witness:
  "diff_timeval_in_micro \<lparr>tvl_sec = 5, tvl_usec = 9\<rparr> \<lparr>tvl_sec = 6, tvl_usec = 2\<rparr>
     = Some (Micros (micro_diff \<lparr>tvl_sec = 5, tvl_usec = 9\<rparr> \<lparr>tvl_sec = 6, tvl_usec = 2\<rparr>))
   \<and> uint (micro_diff \<lparr>tvl_sec = 5, tvl_usec = 9\<rparr> \<lparr>tvl_sec = 6, tvl_usec = 2\<rparr>) = 999993"
  using timeval_difference [of "\<lparr>tvl_sec = 5, tvl_usec = 9\<rparr>" "\<lparr>tvl_sec = 6, tvl_usec = 2\<rparr>"]
  by (simp add: micros_def)

end
