(* ===== verification/MmapUser.thy ===== *)
theory MmapUser
  imports UserPages
begin

text \<open>
  \<open>src/src/kernel/mod_mmap_to_user.c\<close>: memory allocated by the kernel and mapped into the address space of the
  caller by an \<open>ioctl\<close>. The state holds the statics of the module, the private field of the open
  file, and what the kernel keeps: the live blocks of memory, its contents, and the areas mapped into
  the process. The addresses that the allocator and \<open>vm_mmap\<close> return, and the result of \<open>vm_munmap\<close>,
  are an environment; \<open>get_order\<close> and \<open>virt_to_page\<close> are parameters.
\<close>

section \<open>State\<close>

datatype block_kind = ByKmalloc | ByPages nat

record vma =
  vm_start :: u64
  vm_end :: u64
  vm_private_data :: u64

record mm_state =
  do_kmalloc :: bool
  kptr :: u64
  mm_size :: u32
  uptr :: u64
  private_data :: u64
  live :: "(u64 \<times> u32 \<times> block_kind) list"
  kmem :: umem
  vmas :: "vma list"
  process_mem :: umem

definition mm_init :: "umem \<Rightarrow> umem \<Rightarrow> mm_state" where
  "mm_init km um = \<lparr>do_kmalloc = True, kptr = 0, mm_size = - 1, uptr = - 1, private_data = 0, live = [],
     kmem = km, vmas = [], process_mem = um\<rparr>"

record mm_env =
  alloc_ret :: u64
  mmap_ret :: u64
  munmap_ret :: int

section \<open>Memory of the kernel\<close>

definition block_of :: "(u32 \<Rightarrow> nat) \<Rightarrow> bool \<Rightarrow> u32 \<Rightarrow> block_kind" where
  "block_of get_order kmalloced sz = (if kmalloced then ByKmalloc else ByPages (get_order sz))"

definition alloc_mem :: "(u32 \<Rightarrow> nat) \<Rightarrow> mm_env \<Rightarrow> u32 \<Rightarrow> mm_state \<Rightarrow> u64 \<times> mm_state" where
  "alloc_mem get_order env sz s =
    (let kaddr = alloc_ret env;
         kind = block_of get_order (do_kmalloc s) sz;
         s = (if kaddr = 0 then s else s\<lparr>live := (kaddr, sz, kind) # live s\<rparr>)
     in if kaddr mod PAGE_SIZE \<noteq> 0 then (0, s) else (kaddr, s))"

text \<open>Both ways to free accept a null pointer; freeing anything else that is not live is a crash.\<close>

definition free_mem :: "(u32 \<Rightarrow> nat) \<Rightarrow> u64 \<Rightarrow> u32 \<Rightarrow> mm_state \<Rightarrow> mm_state outcome" where
  "free_mem get_order p sz s =
    (let kind = block_of get_order (do_kmalloc s) sz
     in if p = 0 then Done s
        else case filter (\<lambda>(a, n, k). a = p \<and> k = kind) (live s) of
          [] \<Rightarrow> Crash UseAfterFree
        | b # bs \<Rightarrow> Done (s\<lparr>live := remove1 b (live s)\<rparr>))"

text \<open>The bytes from \<open>a\<close> on lie in a live block that begins there.\<close>

definition live_bytes :: "(u32 \<Rightarrow> nat) \<Rightarrow> mm_state \<Rightarrow> u64 \<Rightarrow> nat \<Rightarrow> bool" where
  "live_bytes get_order s a n \<longleftrightarrow>
     list_ex (\<lambda>(b, m, k). b = a \<and> n \<le> (case k of ByKmalloc \<Rightarrow> unat m | ByPages ord \<Rightarrow> 4096 * 2 ^ ord)) (live s)"

section \<open>Mapping\<close>

text \<open>The \<open>mmap\<close> operation of the file, called by \<open>vm_mmap\<close> for the new area.\<close>

definition kern_mmap :: "mm_state \<Rightarrow> vma \<Rightarrow> vma" where
  "kern_mmap s v = v\<lparr>vm_private_data := private_data s\<rparr>"

definition is_err_value :: "u64 \<Rightarrow> bool" where
  "is_err_value x \<longleftrightarrow> - 4095 \<le> x"

definition page_align :: "u32 \<Rightarrow> nat" where
  "page_align sz = (unat sz + 4095) div 4096 * 4096"

definition vm_mmap :: "mm_env \<Rightarrow> u32 \<Rightarrow> mm_state \<Rightarrow> u64 \<times> mm_state" where
  "vm_mmap env sz s =
    (if is_err_value (mmap_ret env) then (mmap_ret env, s)
     else (mmap_ret env, s\<lparr>vmas :=
       kern_mmap s \<lparr>vm_start = mmap_ret env, vm_end = mmap_ret env + of_nat (page_align sz),
                    vm_private_data = 0\<rparr> # vmas s\<rparr>))"

definition map_to_user :: "mm_env \<Rightarrow> u64 \<Rightarrow> u32 \<Rightarrow> mm_state \<Rightarrow> u64 \<times> mm_state" where
  "map_to_user env p sz s =
    (let oldval = private_data s;
         s = s\<lparr>private_data := p\<rparr>
     in case vm_mmap env sz s of (mapped_uptr, s) \<Rightarrow> (mapped_uptr, s\<lparr>private_data := oldval\<rparr>))"

datatype vm_fault = FaultSigbus | FaultPage u64

definition kern_vma_fault :: "(u64 \<Rightarrow> u64 option) \<Rightarrow> vma \<Rightarrow> u64 \<Rightarrow> vm_fault" where
  "kern_vma_fault virt_to_page v address =
    (let offset = address - vm_start v;
         kaddr = vm_private_data v + offset
     in case virt_to_page kaddr of
          None \<Rightarrow> FaultSigbus
        | Some page \<Rightarrow> FaultPage page)"

section \<open>The ioctl\<close>

definition IOCTL_DEMO_MAP :: u32 where "IOCTL_DEMO_MAP = 25600"
definition IOCTL_DEMO_UNMAP :: u32 where "IOCTL_DEMO_UNMAP = 25601"
definition IOCTL_DEMO_READ :: u32 where "IOCTL_DEMO_READ = 25602"
definition IOCTL_DEMO_WRITE :: u32 where "IOCTL_DEMO_WRITE = 25603"
definition IOCTL_DEMO_COPY :: u32 where "IOCTL_DEMO_COPY = 25605"

fun memcheck :: "byte list \<Rightarrow> byte \<Rightarrow> int" where
  "memcheck [] val = 0"
| "memcheck (c # cbuf) val = (if c \<noteq> val then - EFAULT else memcheck cbuf val)"

definition mmap_ioctl ::
  "(u32 \<Rightarrow> nat) \<Rightarrow> uaccess \<Rightarrow> mm_env \<Rightarrow> u32 \<Rightarrow> u64 \<Rightarrow> mm_state \<Rightarrow> (int \<times> mm_state) outcome" where
  "mmap_ioctl get_order ua env cmd arg s =
    (if cmd = IOCTL_DEMO_MAP
     then
       let s = s\<lparr>mm_size := ucast arg\<rparr>
       in case alloc_mem get_order env (mm_size s) s of (p, s) \<Rightarrow>
          let s = s\<lparr>kptr := p\<rparr>
          in if kptr s = 0 then Done (- EFAULT, s)
             else case map_to_user env (kptr s) (mm_size s) s of (u, s) \<Rightarrow>
               let s = s\<lparr>uptr := u\<rparr>
               in if is_err_value (uptr s) then Done (- EFAULT, s) else Done (sint (uptr s), s)
     else if cmd = IOCTL_DEMO_UNMAP
     then
       if munmap_ret env \<noteq> 0 then Done (munmap_ret env, s)
       else
         let s = s\<lparr>vmas := filter (\<lambda>v. vm_start v \<noteq> uptr s) (vmas s)\<rparr>
         in outcome_bind (free_mem get_order (kptr s) (mm_size s) s)
              (\<lambda>s. Done (0, s\<lparr>kptr := 0, mm_size := - 1, uptr := - 1\<rparr>))
     else if cmd = IOCTL_DEMO_WRITE
     then
       if kptr s = 0 then Done (- EFAULT, s)
       else if \<not> live_bytes get_order s (kptr s) (unat (mm_size s)) then Crash OutOfBounds
       else Done (0, s\<lparr>kmem := user_store (kmem s) (kptr s) (replicate (unat (mm_size s)) (ucast arg))\<rparr>)
     else if cmd = IOCTL_DEMO_READ
     then
       if kptr s = 0 then Done (- EFAULT, s)
       else if \<not> live_bytes get_order s (kptr s) (unat (mm_size s)) then Crash OutOfBounds
       else Done (memcheck (user_bytes (kmem s) (kptr s) (unat (mm_size s))) (ucast arg), s)
     else if cmd = IOCTL_DEMO_COPY
     then
       if kptr s = 0 then Done (- EFAULT, s)
       else if \<not> live_bytes get_order s (kptr s) (unat (mm_size s)) then Crash OutOfBounds
       else case copy_to_user ua (process_mem s) arg (user_bytes (kmem s) (kptr s) (unat (mm_size s))) of
         (um, left) \<Rightarrow> Done (int left, s\<lparr>process_mem := um\<rparr>)
     else Done (- EINVAL, s))"

text \<open>What the process reads at an address: the processor takes the page from the fault handler.\<close>

definition user_load :: "(u64 \<Rightarrow> u64 option) \<Rightarrow> mm_state \<Rightarrow> u64 \<Rightarrow> byte option" where
  "user_load virt_to_page s a =
    (case find (\<lambda>v. vm_start v \<le> a \<and> a < vm_end v) (vmas s) of
       None \<Rightarrow> None
     | Some v \<Rightarrow>
         (case kern_vma_fault virt_to_page v (a - a mod PAGE_SIZE) of
            FaultSigbus \<Rightarrow> None
          | FaultPage page \<Rightarrow> Some (kmem s (page + a mod PAGE_SIZE))))"

text \<open>A sequence of calls, each with what the kernel answers.\<close>

fun mmap_run ::
  "(u32 \<Rightarrow> nat) \<Rightarrow> uaccess \<Rightarrow> (mm_env \<times> u32 \<times> u64) list \<Rightarrow> mm_state \<Rightarrow> mm_state outcome" where
  "mmap_run get_order ua [] s = Done s"
| "mmap_run get_order ua ((env, cmd, arg) # calls) s =
     outcome_bind (mmap_ioctl get_order ua env cmd arg s) (\<lambda>(ret, s). mmap_run get_order ua calls s)"

section \<open>The pointer of the module\<close>

definition get_order_law :: "(u32 \<Rightarrow> nat) \<Rightarrow> bool" where
  "get_order_law get_order \<longleftrightarrow> (\<forall>sz. unat sz \<le> 4096 * 2 ^ get_order sz)"

text \<open>The pointer of the module is null or a live block of the size it remembers.\<close>

definition mm_inv :: "(u32 \<Rightarrow> nat) \<Rightarrow> mm_state \<Rightarrow> bool" where
  "mm_inv get_order s \<longleftrightarrow>
     kptr s = 0 \<or> (kptr s, mm_size s, block_of get_order (do_kmalloc s) (mm_size s)) \<in> set (live s)"

lemma mm_inv_live_bytes:
  assumes "get_order_law get_order" and "mm_inv get_order s" and "kptr s \<noteq> 0"
  shows "live_bytes get_order s (kptr s) (unat (mm_size s))"
proof -
  have "(kptr s, mm_size s, block_of get_order (do_kmalloc s) (mm_size s)) \<in> set (live s)"
    using assms by (simp add: mm_inv_def)
  then show ?thesis
    using assms(1) unfolding live_bytes_def list_ex_iff
    by (intro bexI [of _ "(kptr s, mm_size s, block_of get_order (do_kmalloc s) (mm_size s))"])
      (auto simp: block_of_def get_order_law_def)
qed

lemma free_mem_inv:
  assumes "mm_inv get_order s"
  shows "\<exists>s'. free_mem get_order (kptr s) (mm_size s) s = Done s'"
proof -
  have "filter (\<lambda>(a, n, k). a = kptr s \<and> k = block_of get_order (do_kmalloc s) (mm_size s)) (live s) \<noteq> []"
    if "kptr s \<noteq> 0"
    using assms that by (force simp: mm_inv_def filter_empty_conv)
  then show ?thesis
    by (auto simp: free_mem_def Let_def split: list.split)
qed

lemma mmap_ioctl_inv:
  assumes law: "get_order_law get_order" and inv: "mm_inv get_order s"
  shows "\<exists>ret s'. mmap_ioctl get_order ua env cmd arg s = Done (ret, s') \<and> mm_inv get_order s'"
proof -
  have live: "kptr s \<noteq> 0 \<Longrightarrow> live_bytes get_order s (kptr s) (unat (mm_size s))"
    by (rule mm_inv_live_bytes [OF law inv])
  let ?t = "s\<lparr>vmas := filter (\<lambda>v. vm_start v \<noteq> uptr s) (vmas s)\<rparr>"
  have "mm_inv get_order ?t"
    using inv by (simp add: mm_inv_def)
  from free_mem_inv [OF this] obtain t where "free_mem get_order (kptr s) (mm_size s) ?t = Done t"
    by auto
  with live inv show ?thesis
    by (auto simp: mmap_ioctl_def mm_inv_def Let_def alloc_mem_def map_to_user_def vm_mmap_def
        split: prod.split)
qed

lemma mmap_run_inv:
  assumes "get_order_law get_order" and "mm_inv get_order s"
  shows "\<exists>s'. mmap_run get_order ua calls s = Done s' \<and> mm_inv get_order s'"
  using assms(2)
proof (induction calls arbitrary: s)
  case (Cons c calls)
  obtain env cmd arg where c: "c = (env, cmd, arg)"
    by (cases c)
  obtain ret s' where "mmap_ioctl get_order ua env cmd arg s = Done (ret, s')" "mm_inv get_order s'"
    using mmap_ioctl_inv [OF assms(1) Cons.prems] by blast
  then show ?case
    using Cons.IH by (simp add: c)
qed simp

section \<open>What the process sees\<close>

lemma word_mod_4096:
  fixes a b :: u64
  assumes "a mod PAGE_SIZE = 0" and "b mod PAGE_SIZE = 0"
  shows "(a + b) mod PAGE_SIZE = 0" and "(a - b) mod PAGE_SIZE = 0"
proof -
  have z: "x mod PAGE_SIZE = 0 \<longleftrightarrow> 4096 dvd uint x" for x :: u64
    by (simp add: PAGE_SIZE_def word_uint_eq_iff uint_mod_distrib mod_eq_0_iff_dvd)
  have "4096 dvd uint a" "4096 dvd uint b"
    using assms by (simp_all only: z)
  then have "4096 dvd (uint a + uint b) mod 2 ^ 64" "4096 dvd (uint a - uint b) mod 2 ^ 64"
    by (simp_all add: dvd_mod_iff)
  then show "(a + b) mod PAGE_SIZE = 0" "(a - b) mod PAGE_SIZE = 0"
    unfolding z by (simp_all add: uint_word_ariths)
qed

definition virt_to_page_law :: "(u64 \<Rightarrow> u64 option) \<Rightarrow> bool" where
  "virt_to_page_law virt_to_page \<longleftrightarrow> (\<forall>a. virt_to_page a = Some (a - a mod PAGE_SIZE))"

text \<open>A successful \<open>IOCTL_DEMO_MAP\<close>: the kernel finds memory that begins at a page, and a free area.\<close>

definition mm_env_ok :: "mm_env \<Rightarrow> u32 \<Rightarrow> bool" where
  "mm_env_ok env sz \<longleftrightarrow>
     alloc_ret env \<noteq> 0 \<and> alloc_ret env mod PAGE_SIZE = 0 \<and> \<not> is_err_value (mmap_ret env) \<and>
     mmap_ret env mod PAGE_SIZE = 0 \<and> unat (mmap_ret env) + page_align sz < 2 ^ 64"

lemma word_minus_mod: "(a - a mod PAGE_SIZE) mod PAGE_SIZE = 0" for a :: u64
proof -
  have "a mod PAGE_SIZE \<le> a"
    by (simp add: word_le_nat_alt unat_mod PAGE_SIZE_def)
  then have "unat (a - a mod PAGE_SIZE) = unat a - unat a mod 4096"
    by (simp add: unat_sub unat_mod PAGE_SIZE_def)
  then show ?thesis
    by (simp add: word_unat_eq_iff unat_mod PAGE_SIZE_def minus_mod_eq_mult_div)
qed

lemma page_align_ge: "unat sz \<le> page_align sz"
  using div_mult_mod_eq [of "unat sz + 4095" 4096] mod_less_divisor [of 4096 "unat sz + 4095"]
  unfolding page_align_def by linarith

lemma user_load_mapped:
  assumes vtp: "virt_to_page_law virt_to_page" and ok: "mm_env_ok env sz" and i: "i < unat sz"
    and v: "vmas s = \<lparr>vm_start = mmap_ret env, vm_end = mmap_ret env + of_nat (page_align sz),
      vm_private_data = alloc_ret env\<rparr> # vs"
  shows "user_load virt_to_page s (mmap_ret env + of_nat i) = Some (kmem s (alloc_ret env + of_nat i))"
proof -
  let ?u = "mmap_ret env" and ?k = "alloc_ret env" and ?a = "mmap_ret env + of_nat i"
  have le: "i < page_align sz" "unat ?u + page_align sz < 2 ^ 64"
    using i page_align_ge [of sz] ok by (auto simp: mm_env_ok_def)
  have ua: "unat ?a = unat ?u + i" "unat (?u + of_nat (page_align sz)) = unat ?u + page_align sz"
    using le by (simp_all add: unat_add_u64)
  have range: "?u \<le> ?a" "?a < ?u + of_nat (page_align sz)"
    unfolding word_le_nat_alt word_less_nat_alt ua using le by simp_all
  have "(?k + (?a - ?a mod PAGE_SIZE - ?u)) mod PAGE_SIZE = 0"
    using ok by (intro word_mod_4096(1) [OF _ word_mod_4096(2) [OF word_minus_mod]]) (simp_all add: mm_env_ok_def)
  then have "kern_vma_fault virt_to_page
      \<lparr>vm_start = ?u, vm_end = ?u + of_nat (page_align sz), vm_private_data = ?k\<rparr> (?a - ?a mod PAGE_SIZE)
    = FaultPage (?k + (?a - ?a mod PAGE_SIZE - ?u))"
    using vtp by (simp add: kern_vma_fault_def virt_to_page_law_def Let_def)
  then show ?thesis
    using range by (simp add: user_load_def v algebra_simps)
qed

lemma mmap_ioctl_map:
  assumes "mm_env_ok env (ucast arg)"
  shows "mmap_ioctl get_order ua env IOCTL_DEMO_MAP arg s =
    Done (sint (mmap_ret env),
      s\<lparr>mm_size := ucast arg, kptr := alloc_ret env, uptr := mmap_ret env,
        live := (alloc_ret env, ucast arg, block_of get_order (do_kmalloc s) (ucast arg)) # live s,
        vmas := \<lparr>vm_start = mmap_ret env, vm_end = mmap_ret env + of_nat (page_align (ucast arg)),
          vm_private_data = alloc_ret env\<rparr> # vmas s\<rparr>)"
  using assms
  by (simp add: mmap_ioctl_def mm_env_ok_def alloc_mem_def map_to_user_def vm_mmap_def kern_mmap_def Let_def)

lemma memcheck_0: "memcheck bs c = 0 \<longleftrightarrow> bs = replicate (length bs) c"
  by (induction bs) (auto simp: EFAULT_def)

lemma mmap_write_read:
  assumes "live_bytes get_order s (kptr s) (unat (mm_size s))" and "kptr s \<noteq> 0"
  shows "\<exists>s'. mmap_ioctl get_order ua env IOCTL_DEMO_WRITE arg s = Done (0, s') \<and>
    s' = s\<lparr>kmem := user_store (kmem s) (kptr s) (replicate (unat (mm_size s)) (ucast arg))\<rparr> \<and>
    user_bytes (kmem s') (kptr s') (unat (mm_size s')) = replicate (unat (mm_size s)) (ucast arg) \<and>
    mmap_ioctl get_order ua env IOCTL_DEMO_READ arg s' = Done (0, s')"
proof -
  let ?s = "s\<lparr>kmem := user_store (kmem s) (kptr s) (replicate (unat (mm_size s)) (ucast arg))\<rparr>"
  have "unat (mm_size s) \<le> 2 ^ 64"
    using unat_less_u32 [of "mm_size s"] by simp
  then have b: "user_bytes (kmem ?s) (kptr ?s) (unat (mm_size ?s)) = replicate (unat (mm_size s)) (ucast arg)"
    using user_bytes_user_store [of "replicate (unat (mm_size s)) (ucast arg)" "kmem s" "kptr s"] by simp
  have "live_bytes get_order ?s (kptr s) (unat (mm_size s))"
    using assms(1) by (simp add: live_bytes_def)
  with assms b show ?thesis
    by (simp add: mmap_ioctl_def memcheck_0 IOCTL_DEMO_MAP_def IOCTL_DEMO_UNMAP_def IOCTL_DEMO_WRITE_def
        IOCTL_DEMO_READ_def)
qed

lemma mmap_copy_out:
  assumes "live_bytes get_order s (kptr s) (unat (mm_size s))" and "kptr s \<noteq> 0" and "copy_to_user_law ua"
    and "user_bytes (kmem s) (kptr s) (unat (mm_size s)) = bs" and "snd (copy_to_user ua (process_mem s) dst bs) = 0"
  shows "mmap_ioctl get_order ua env IOCTL_DEMO_COPY dst s =
    Done (0, s\<lparr>process_mem := user_store (process_mem s) dst bs\<rparr>)"
  using copy_to_user_ok [OF assms(3,5)] assms(1,2,4)
  by (simp add: mmap_ioctl_def IOCTL_DEMO_MAP_def IOCTL_DEMO_UNMAP_def IOCTL_DEMO_WRITE_def
      IOCTL_DEMO_READ_def IOCTL_DEMO_COPY_def)

lemma mmap_unmap_last:
  assumes "munmap_ret env = 0" and "kptr s \<noteq> 0"
    and "live s = (kptr s, sz, block_of get_order (do_kmalloc s) (mm_size s)) # bs"
  shows "\<exists>s'. mmap_ioctl get_order ua env IOCTL_DEMO_UNMAP arg s = Done (0, s') \<and>
    live s' = bs \<and> kptr s' = 0 \<and> kmem s' = kmem s"
  using assms by (simp add: mmap_ioctl_def free_mem_def IOCTL_DEMO_MAP_def IOCTL_DEMO_UNMAP_def Let_def)

text \<open>
  The block of a mapping that failed stays live when the next call replaces the pointer, and so does a
  block that does not begin at a page: neither can be freed any more.
\<close>

lemma mmap_failed_leaks:
  assumes "alloc_ret env \<noteq> 0" and "alloc_ret env mod PAGE_SIZE \<noteq> 0 \<or> is_err_value (mmap_ret env)"
  shows "\<exists>s'. mmap_ioctl get_order ua env IOCTL_DEMO_MAP arg s = Done (- EFAULT, s') \<and>
    live s' = (alloc_ret env, ucast arg, block_of get_order (do_kmalloc s) (ucast arg)) # live s"
  using assms
  by (auto simp: mmap_ioctl_def alloc_mem_def map_to_user_def vm_mmap_def Let_def)

section \<open>Properties\<close>

text \<open>C16: Whatever sequence of calls a process makes and whatever the kernel answers, no call frees memory
  that is not live or leaves the block it works on: the pointer of the module is always null or a live block
  of the size that the module remembers.\<close>

theorem mmap_to_user_safe:
  assumes "get_order_law get_order"
  shows "\<exists>s. mmap_run get_order ua calls (mm_init km um) = Done s \<and>
    (kptr s = 0 \<or> live_bytes get_order s (kptr s) (unat (mm_size s)))"
proof -
  have "mm_inv get_order (mm_init km um)"
    by (simp add: mm_inv_def mm_init_def)
  from mmap_run_inv [OF assms this] show ?thesis
    using mm_inv_live_bytes [OF assms] by blast
qed

lemma user_bytes_replicateD: "user_bytes m a n = replicate n b \<Longrightarrow> i < n \<Longrightarrow> m (a + of_nat i) = b"
proof -
  assume "user_bytes m a n = replicate n b" and i: "i < n"
  then have "user_bytes m a n ! i = b"
    by simp
  then show ?thesis
    using i by (simp add: user_bytes_def)
qed

text \<open>C15: The mapping is shared memory. After a successful \<open>IOCTL_DEMO_MAP\<close> the process reads, at every
  offset of the area, the byte of the kernel's block at that offset; what \<open>IOCTL_DEMO_WRITE\<close> stores is what
  the process then sees, what \<open>IOCTL_DEMO_READ\<close> accepts and what \<open>IOCTL_DEMO_COPY\<close> delivers; and
  \<open>IOCTL_DEMO_UNMAP\<close> frees exactly the block that the mapping took.\<close>

theorem mmap_to_user_shared:
  assumes law: "get_order_law get_order" "virt_to_page_law virt_to_page" "copy_to_user_law ua"
    and ok: "mm_env_ok env (ucast arg)" and um: "munmap_ret env' = 0"
    and copy: "snd (copy_to_user ua (process_mem s) dst (replicate (unat (ucast arg :: u32)) (ucast c))) = 0"
  shows "\<exists>s1 s2 s3.
    mmap_ioctl get_order ua env IOCTL_DEMO_MAP arg s = Done (sint (mmap_ret env), s1) \<and>
    (\<forall>i < unat (ucast arg :: u32). user_load virt_to_page s1 (mmap_ret env + of_nat i) =
       Some (kmem s1 (kptr s1 + of_nat i))) \<and>
    mmap_ioctl get_order ua env' IOCTL_DEMO_WRITE c s1 = Done (0, s2) \<and>
    (\<forall>i < unat (ucast arg :: u32). user_load virt_to_page s2 (mmap_ret env + of_nat i) = Some (ucast c)) \<and>
    mmap_ioctl get_order ua env' IOCTL_DEMO_READ c s2 = Done (0, s2) \<and>
    mmap_ioctl get_order ua env' IOCTL_DEMO_COPY dst s2 =
      Done (0, s2\<lparr>process_mem := user_store (process_mem s) dst (replicate (unat (ucast arg :: u32)) (ucast c))\<rparr>) \<and>
    mmap_ioctl get_order ua env' IOCTL_DEMO_UNMAP 0 s2 = Done (0, s3) \<and>
    live s3 = live s \<and> kptr s3 = 0 \<and> kmem s3 = kmem s2"
proof -
  let ?n = "unat (ucast arg :: u32)"
  let ?v = "\<lparr>vm_start = mmap_ret env, vm_end = mmap_ret env + of_nat (page_align (ucast arg)),
      vm_private_data = alloc_ret env\<rparr>"
  define s1 where "s1 = s\<lparr>mm_size := ucast arg, kptr := alloc_ret env, uptr := mmap_ret env,
        live := (alloc_ret env, ucast arg, block_of get_order (do_kmalloc s) (ucast arg)) # live s,
        vmas := ?v # vmas s\<rparr>"
  have map: "mmap_ioctl get_order ua env IOCTL_DEMO_MAP arg s = Done (sint (mmap_ret env), s1)"
    using mmap_ioctl_map [OF ok] by (simp add: s1_def)
  have k: "kptr s1 = alloc_ret env" "kptr s1 \<noteq> 0" "mm_size s1 = ucast arg" "vmas s1 = ?v # vmas s"
    "process_mem s1 = process_mem s" "do_kmalloc s1 = do_kmalloc s"
    "live s1 = (alloc_ret env, ucast arg, block_of get_order (do_kmalloc s) (ucast arg)) # live s"
    using ok by (simp_all add: s1_def mm_env_ok_def)
  have "mm_inv get_order s1"
    by (simp add: mm_inv_def k)
  then have live: "live_bytes get_order s1 (kptr s1) (unat (mm_size s1))"
    using mm_inv_live_bytes [OF law(1)] k(2) by blast
  obtain s2 where s2: "mmap_ioctl get_order ua env' IOCTL_DEMO_WRITE c s1 = Done (0, s2)"
    "s2 = s1\<lparr>kmem := user_store (kmem s1) (kptr s1) (replicate (unat (mm_size s1)) (ucast c))\<rparr>"
    "user_bytes (kmem s2) (kptr s2) (unat (mm_size s2)) = replicate (unat (mm_size s1)) (ucast c)"
    "mmap_ioctl get_order ua env' IOCTL_DEMO_READ c s2 = Done (0, s2)"
    using mmap_write_read [OF live k(2)] by blast
  have k2: "kptr s2 = alloc_ret env" "kptr s2 \<noteq> 0" "mm_size s2 = ucast arg" "vmas s2 = ?v # vmas s"
    "process_mem s2 = process_mem s" "do_kmalloc s2 = do_kmalloc s" "live s2 = live s1"
    using k by (simp_all add: s2(2))
  have load: "user_load virt_to_page t (mmap_ret env + of_nat i) = Some (kmem t (alloc_ret env + of_nat i))"
    if "i < ?n" "vmas t = ?v # vmas s" for i and t :: mm_state
    using user_load_mapped [OF law(2) ok that] .
  have "\<forall>i<?n. user_load virt_to_page s2 (mmap_ret env + of_nat i) = Some (ucast c)"
    using load [OF _ k2(4)] user_bytes_replicateD [of "kmem s2" "kptr s2" ?n] s2(3) by (simp add: k k2)
  moreover have "live_bytes get_order s2 (kptr s2) (unat (mm_size s2))"
    using live by (simp add: live_bytes_def k k2)
  from mmap_copy_out [OF this k2(2) law(3) s2(3)]
  have "mmap_ioctl get_order ua env' IOCTL_DEMO_COPY dst s2 =
      Done (0, s2\<lparr>process_mem := user_store (process_mem s) dst (replicate ?n (ucast c))\<rparr>)"
    using copy by (simp add: k k2)
  moreover have "\<exists>s3. mmap_ioctl get_order ua env' IOCTL_DEMO_UNMAP 0 s2 = Done (0, s3) \<and>
      live s3 = live s \<and> kptr s3 = 0 \<and> kmem s3 = kmem s2"
    using mmap_unmap_last [OF um k2(2)] by (simp add: k k2)
  ultimately show ?thesis
    using map s2(1,4) load [OF _ k(4)] k(1) by auto
qed

text \<open>A buffer of 5000 bytes, at pages that the kernel chose.\<close>

definition mm_env1 :: mm_env where
  "mm_env1 = \<lparr>alloc_ret = 40960, mmap_ret = 8192, munmap_ret = 0\<rparr>"

definition order1 :: "u32 \<Rightarrow> nat" where
  "order1 sz = (if unat sz \<le> 4096 then 0 else 20)"

lemma mm_env1_ok: "mm_env_ok mm_env1 5000"
  by (simp add: mm_env_ok_def mm_env1_def is_err_value_def page_align_def PAGE_SIZE_def word_le_nat_alt)

lemma order1_law: "get_order_law order1"
  using unat_less_u32 by (simp add: get_order_law_def order1_def less_imp_le)

theorem mmap_to_user_safe_witness:
  "\<exists>s. mmap_run order1 flat_uaccess [(mm_env1, IOCTL_DEMO_MAP, 5000), (mm_env1, IOCTL_DEMO_UNMAP, 0)]
      (mm_init (\<lambda>_. 0) (\<lambda>_. 0)) = Done s \<and>
    (kptr s = 0 \<or> live_bytes order1 s (kptr s) (unat (mm_size s)))"
  by (rule mmap_to_user_safe [OF order1_law])

theorem mmap_to_user_shared_witness:
  "\<exists>s1 s2 s3. mmap_ioctl order1 flat_uaccess mm_env1 IOCTL_DEMO_MAP 5000 (mm_init (\<lambda>_. 0) (\<lambda>_. 0)) = Done (8192, s1)
    \<and> mmap_ioctl order1 flat_uaccess mm_env1 IOCTL_DEMO_WRITE 65 s1 = Done (0, s2)
    \<and> user_load (\<lambda>a. Some (a - a mod PAGE_SIZE)) s2 (8192 + of_nat 4999) = Some 65
    \<and> mmap_ioctl order1 flat_uaccess mm_env1 IOCTL_DEMO_UNMAP 0 s2 = Done (0, s3) \<and> live s3 = []"
proof -
  have ok: "mm_env_ok mm_env1 (ucast (5000 :: u64))"
    using mm_env1_ok by simp
  have vtp: "virt_to_page_law (\<lambda>a. Some (a - a mod PAGE_SIZE))"
    by (simp add: virt_to_page_law_def)
  have copy: "copy_to_user_law flat_uaccess" "snd (copy_to_user flat_uaccess um a bs) = 0" for um a bs
    using flat_uaccess_facts by (simp_all add: uaccess_laws_def flat_uaccess_def)
  have c: "mmap_ret mm_env1 = 8192" "munmap_ret mm_env1 = 0" "live (mm_init (\<lambda>_. 0) (\<lambda>_. 0)) = []"
    by (simp_all add: mm_env1_def mm_init_def)
  obtain s1 s2 s3 where s:
    "mmap_ioctl order1 flat_uaccess mm_env1 IOCTL_DEMO_MAP 5000 (mm_init (\<lambda>_. 0) (\<lambda>_. 0)) = Done (sint (mmap_ret mm_env1), s1)"
    "mmap_ioctl order1 flat_uaccess mm_env1 IOCTL_DEMO_WRITE 65 s1 = Done (0, s2)"
    "\<forall>i < unat (ucast (5000 :: u64) :: u32). user_load (\<lambda>a. Some (a - a mod PAGE_SIZE)) s2 (mmap_ret mm_env1 + of_nat i)
       = Some (ucast (65 :: u64))"
    "mmap_ioctl order1 flat_uaccess mm_env1 IOCTL_DEMO_UNMAP 0 s2 = Done (0, s3)"
    "live s3 = live (mm_init (\<lambda>_. 0) (\<lambda>_. 0))"
    using mmap_to_user_shared [OF order1_law vtp copy(1) ok c(2) copy(2),
        of "mm_init (\<lambda>_. 0) (\<lambda>_. 0)" 65] by blast
  have "user_load (\<lambda>a. Some (a - a mod PAGE_SIZE)) s2 (8192 + of_nat 4999) = Some 65"
    using s(3) [rule_format, of 4999] by (simp add: c)
  with s show ?thesis
    by (simp add: c)
qed

end
