(* ===== verification/KernList.thy ===== *)
theory KernList
  imports RingFifo KernelApi
begin

text \<open>
  \<open>src/src/kernel/mod_list.c\<close> and \<open>list.inc\<close>: a circular, doubly linked list on the list nodes of the kernel,
  driven by an \<open>ioctl\<close>. The store is explicit: the two links and the payload of every address, and the
  addresses that are allocated. The node is the first field of an entry, so that an entry and its node
  have the same address. Reading or writing an address that is not allocated is a crash. The
  poison that \<open>list_del\<close> leaves in an entry, which is freed at once, is left out.
\<close>

section \<open>State\<close>

record list_state =
  lptr :: u64
  next_of :: "u64 \<Rightarrow> u64"
  prev_of :: "u64 \<Rightarrow> u64"
  payload :: "u64 \<Rightarrow> u64"
  nodes :: "u64 list"

definition list_start :: list_state where
  "list_start = \<lparr>lptr = 0, next_of = (\<lambda>_. 0), prev_of = (\<lambda>_. 0), payload = (\<lambda>_. 0), nodes = []\<rparr>"

definition access :: "list_state \<Rightarrow> u64 \<Rightarrow> 'a \<Rightarrow> 'a outcome" where
  "access s p x = (if p = 0 then Crash NullDeref else if p \<notin> set (nodes s) then Crash UseAfterFree else Done x)"

definition kfree_node :: "u64 \<Rightarrow> list_state \<Rightarrow> list_state outcome" where
  "kfree_node p s =
    (if p = 0 then Done s else access s p (s\<lparr>nodes := remove1 p (nodes s)\<rparr>))"

section \<open>list.inc\<close>

text \<open>\<open>a\<close> is the address that \<open>kmalloc\<close> returns.\<close>

definition api_list_create :: "u64 \<Rightarrow> list_state \<Rightarrow> (u64 \<times> list_state) outcome" where
  "api_list_create a s =
    (if a = 0 then Crash NullDeref
     else Done (a, s\<lparr>nodes := a # nodes s, next_of := (next_of s)(a := a), prev_of := (prev_of s)(a := a)\<rparr>))"

definition api_list_destroy :: "u64 \<Rightarrow> list_state \<Rightarrow> list_state outcome" where
  "api_list_destroy p s = (if p = 0 then Done s else kfree_node p s)"

definition api_list_isempty :: "u64 \<Rightarrow> list_state \<Rightarrow> int outcome" where
  "api_list_isempty p s =
    (if p = 0 then Done 0 else access s p (if next_of s p = p then 1 else 0))"

definition api_list_iter_init :: "u64 \<Rightarrow> list_state \<Rightarrow> u64 outcome" where
  "api_list_iter_init p s = (if p = 0 then Done 0 else access s p (next_of s p))"

definition api_list_iter_isover :: "u64 \<Rightarrow> u64 \<Rightarrow> bool" where
  "api_list_iter_isover p iter = (if p = 0 then False else iter = p)"

definition api_list_iter_getval :: "u64 \<Rightarrow> u64 \<Rightarrow> list_state \<Rightarrow> u64 outcome" where
  "api_list_iter_getval p iter s = (if p = 0 then Done 0 else access s iter (payload s iter))"

definition api_list_iter_next :: "u64 \<Rightarrow> u64 \<Rightarrow> list_state \<Rightarrow> u64 outcome" where
  "api_list_iter_next p iter s = (if p = 0 then Done 0 else access s iter (next_of s iter))"

definition api_list_iter_del :: "u64 \<Rightarrow> u64 \<Rightarrow> list_state \<Rightarrow> list_state outcome" where
  "api_list_iter_del p iter s = (if p = 0 then Done s else kfree_node iter s)"

text \<open>\<open>list_del\<close> of the kernel.\<close>

definition unlink :: "u64 \<Rightarrow> list_state \<Rightarrow> list_state outcome" where
  "unlink e s =
     outcome_bind (access s e (prev_of s e, next_of s e)) (\<lambda>(pr, nx).
     outcome_bind (access s nx (s\<lparr>prev_of := (prev_of s)(nx := pr)\<rparr>)) (\<lambda>s.
     access s pr (s\<lparr>next_of := (next_of s)(pr := nx)\<rparr>)))"

definition api_list_del :: "u64 \<Rightarrow> list_state \<Rightarrow> (u64 \<times> list_state) outcome" where
  "api_list_del p s =
    (if p = 0 then Done (0, s)
     else outcome_bind (access s p (prev_of s p)) (\<lambda>prev.
       if next_of s p = p then Done (0, s)
       else outcome_bind (access s prev (payload s prev)) (\<lambda>ret.
         outcome_bind (unlink prev s) (\<lambda>s.
         outcome_bind (kfree_node prev s) (\<lambda>s. Done (ret, s))))))"

text \<open>\<open>list_add\<close> of the kernel.\<close>

definition link_after :: "u64 \<Rightarrow> u64 \<Rightarrow> list_state \<Rightarrow> list_state outcome" where
  "link_after new head s =
     outcome_bind (access s head (next_of s head)) (\<lambda>nx.
     outcome_bind (access s nx (s\<lparr>prev_of := (prev_of s)(nx := new)\<rparr>)) (\<lambda>s.
     outcome_bind (access s new (s\<lparr>next_of := (next_of s)(new := nx), prev_of := (prev_of s)(new := head)\<rparr>)) (\<lambda>s.
     access s head (s\<lparr>next_of := (next_of s)(head := new)\<rparr>))))"

definition api_list_add :: "u64 \<Rightarrow> u64 \<Rightarrow> u64 \<Rightarrow> list_state \<Rightarrow> list_state outcome" where
  "api_list_add a p v s =
    (if p = 0 then Done s
     else if a = 0 then Crash NullDeref
     else link_after a p (s\<lparr>nodes := a # nodes s, payload := (payload s)(a := v)\<rparr>))"

text \<open>The loop of \<open>api_list_print\<close>: the values it prints, \<open>None\<close> when the rounds do not suffice.\<close>

fun print_loop :: "nat \<Rightarrow> u64 \<Rightarrow> u64 \<Rightarrow> list_state \<Rightarrow> u64 list outcome option" where
  "print_loop 0 p iter s = None"
| "print_loop (Suc n) p iter s =
    (if api_list_iter_isover p iter then Some (Done [])
     else case api_list_iter_getval p iter s of
       Crash c \<Rightarrow> Some (Crash c)
     | Done item \<Rightarrow>
         (case api_list_iter_next p iter s of
            Crash c \<Rightarrow> Some (Crash c)
          | Done iter \<Rightarrow>
              map_option (\<lambda>r. outcome_bind r (\<lambda>items. Done (item # items))) (print_loop n p iter s)))"

definition api_list_print :: "nat \<Rightarrow> u64 \<Rightarrow> list_state \<Rightarrow> u64 list outcome option" where
  "api_list_print n p s =
    (case api_list_iter_init p s of
       Crash c \<Rightarrow> Some (Crash c)
     | Done iter \<Rightarrow> if p = 0 then Some (Done []) else print_loop n p iter s)"

section \<open>mod\_list.c\<close>

definition IOCTL_LIST_CREATE :: u32 where "IOCTL_LIST_CREATE = 25614"
definition IOCTL_LIST_DESTROY :: u32 where "IOCTL_LIST_DESTROY = 25615"
definition IOCTL_LIST_ISEMPTY :: u32 where "IOCTL_LIST_ISEMPTY = 25616"
definition IOCTL_LIST_ADD :: u32 where "IOCTL_LIST_ADD = 25617"
definition IOCTL_LIST_DEL :: u32 where "IOCTL_LIST_DEL = 25618"
definition IOCTL_LIST_PRINT :: u32 where "IOCTL_LIST_PRINT = 25619"

text \<open>What a call prints, beside the result that it returns.\<close>

datatype list_out = OutNone | OutEmpty int | OutDel u64 | OutItems "u64 list"

definition list_ioctl ::
  "nat \<Rightarrow> u64 \<Rightarrow> u32 \<Rightarrow> u64 \<Rightarrow> list_state \<Rightarrow> (int \<times> list_out \<times> list_state) outcome option" where
  "list_ioctl n a cmd arg s =
    (if cmd = IOCTL_LIST_CREATE
     then Some (outcome_bind (api_list_create a s) (\<lambda>(p, s). Done (0, OutNone, s\<lparr>lptr := p\<rparr>)))
     else if cmd = IOCTL_LIST_DESTROY
     then Some (outcome_bind (api_list_destroy (lptr s) s) (\<lambda>s. Done (0, OutNone, s\<lparr>lptr := 0\<rparr>)))
     else if cmd = IOCTL_LIST_ISEMPTY
     then Some (outcome_bind (api_list_isempty (lptr s) s) (\<lambda>res. Done (0, OutEmpty res, s)))
     else if cmd = IOCTL_LIST_ADD
     then Some (outcome_bind (api_list_add a (lptr s) arg s) (\<lambda>s. Done (0, OutNone, s)))
     else if cmd = IOCTL_LIST_DEL
     then Some (outcome_bind (api_list_del (lptr s) s) (\<lambda>(p, s). Done (0, OutDel p, s)))
     else if cmd = IOCTL_LIST_PRINT
     then map_option (\<lambda>r. outcome_bind r (\<lambda>items. Done (0, OutItems items, s))) (api_list_print n (lptr s) s)
     else Some (Done (- EINVAL, OutNone, s)))"

text \<open>One call, with any address that \<open>kmalloc\<close> may return for it.\<close>

inductive list_step :: "list_state \<Rightarrow> u32 \<times> u64 \<times> int \<times> list_out \<Rightarrow> list_state \<Rightarrow> bool" where
  "a \<noteq> 0 \<Longrightarrow> a \<notin> set (nodes s) \<Longrightarrow> list_ioctl n a cmd arg s = Some (Done (ret, out, s')) \<Longrightarrow>
   list_step s (cmd, arg, ret, out) s'"

section \<open>The queue\<close>

text \<open>What the module promises: a queue of values, or no queue; the newest value first.\<close>

fun queue_call :: "u32 \<Rightarrow> u64 \<Rightarrow> u64 list option \<Rightarrow> int \<times> list_out \<times> u64 list option" where
  "queue_call cmd arg q =
    (if cmd = IOCTL_LIST_CREATE then (0, OutNone, Some [])
     else if cmd = IOCTL_LIST_DESTROY then (0, OutNone, None)
     else if cmd = IOCTL_LIST_ISEMPTY then (0, OutEmpty (if q = Some [] then 1 else 0), q)
     else if cmd = IOCTL_LIST_ADD then (0, OutNone, map_option ((#) arg) q)
     else if cmd = IOCTL_LIST_DEL
     then (case q of
             None \<Rightarrow> (0, OutDel 0, None)
           | Some vs \<Rightarrow> (0, OutDel (if vs = [] then 0 else last vs), Some (butlast vs)))
     else if cmd = IOCTL_LIST_PRINT then (0, OutItems (case q of None \<Rightarrow> [] | Some vs \<Rightarrow> vs), q)
     else (- EINVAL, OutNone, q))"

text \<open>The results of a sequence of calls agree with the queue.\<close>

fun queue_agrees :: "(u32 \<times> u64 \<times> int \<times> list_out) list \<Rightarrow> u64 list option \<Rightarrow> u64 list option \<Rightarrow> bool" where
  "queue_agrees [] q q' \<longleftrightarrow> q' = q"
| "queue_agrees ((cmd, arg, ret, out) # tr) q q' \<longleftrightarrow>
     (case queue_call cmd arg q of (ret', out', q'') \<Rightarrow> ret = ret' \<and> out = out' \<and> queue_agrees tr q'' q')"

section \<open>Linked segments\<close>

text \<open>From \<open>a\<close> along the entries to \<open>b\<close>, both links.\<close>

fun lseg :: "(u64 \<Rightarrow> u64) \<Rightarrow> (u64 \<Rightarrow> u64) \<Rightarrow> u64 \<Rightarrow> u64 list \<Rightarrow> u64 \<Rightarrow> bool" where
  "lseg nx pr a [] b \<longleftrightarrow> nx a = b \<and> pr b = a"
| "lseg nx pr a (x # xs) b \<longleftrightarrow> nx a = x \<and> pr x = a \<and> lseg nx pr x xs b"

lemma lseg_frame:
  "lseg nx pr a xs b \<Longrightarrow> (\<And>x. x \<in> insert a (set xs) \<Longrightarrow> nx' x = nx x) \<Longrightarrow>
    (\<And>x. x \<in> insert b (set xs) \<Longrightarrow> pr' x = pr x) \<Longrightarrow> lseg nx' pr' a xs b"
  by (induction xs arbitrary: a) auto

lemma lseg_append:
  "lseg nx pr a (xs @ y # ys) b \<longleftrightarrow> lseg nx pr a xs y \<and> lseg nx pr y ys b"
  by (induction xs arbitrary: a) auto

text \<open>A list: allocated, distinct nodes in a cycle through its head.\<close>

definition list_at :: "list_state \<Rightarrow> u64 list \<Rightarrow> bool" where
  "list_at s es \<longleftrightarrow> lptr s \<noteq> 0 \<and> 0 \<notin> set es \<and> distinct (lptr s # es) \<and> set (lptr s # es) \<subseteq> set (nodes s) \<and>
     lseg (next_of s) (prev_of s) (lptr s) es (lptr s)"

definition list_rep :: "list_state \<Rightarrow> u64 list option \<Rightarrow> bool" where
  "list_rep s q \<longleftrightarrow> distinct (nodes s) \<and> 0 \<notin> set (nodes s) \<and>
     (case q of None \<Rightarrow> lptr s = 0 | Some vs \<Rightarrow> \<exists>es. list_at s es \<and> vs = map (payload s) es)"

lemma access_Done: "p \<noteq> 0 \<Longrightarrow> p \<in> set (nodes s) \<Longrightarrow> access s p x = Done x"
  by (simp add: access_def)

lemma list_at_links:
  assumes "list_at s es"
  shows "next_of s (lptr s) = hd (es @ [lptr s])" and "prev_of s (lptr s) = last (lptr s # es)"
proof -
  have seg: "lseg (next_of s) (prev_of s) (lptr s) es (lptr s)"
    using assms by (simp add: list_at_def)
  show "next_of s (lptr s) = hd (es @ [lptr s])"
    using seg by (cases es) auto
  show "prev_of s (lptr s) = last (lptr s # es)"
    using seg by (cases es rule: rev_cases) (auto simp: lseg_append)
qed

lemma link_after_list:
  assumes at: "list_at s es" and a: "a \<noteq> 0" "a \<notin> set (nodes s)"
  shows "\<exists>s'. link_after a (lptr s) (s\<lparr>nodes := a # nodes s, payload := (payload s)(a := v)\<rparr>) = Done s' \<and>
    list_at s' (a # es) \<and> nodes s' = a # nodes s \<and> payload s' = (payload s)(a := v) \<and> lptr s' = lptr s"
proof -
  let ?h = "lptr s" and ?n = "next_of s (lptr s)"
  have h: "?h \<noteq> 0" "?h \<in> set (nodes s)" "?n \<noteq> 0" "?n \<in> set (nodes s)" "?n = hd (es @ [?h])"
    using at list_at_links(1) [OF at] by (cases es; auto simp: list_at_def)+
  have ne: "a \<noteq> ?h" "a \<noteq> ?n" "a \<notin> set es"
    using at a h by (auto simp: list_at_def)
  let ?nx = "(next_of s)(a := ?n, ?h := a)" and ?pr = "(prev_of s)(?n := a, a := ?h)"
  have "lseg ?nx ?pr a es ?h"
  proof (cases es)
    case Nil
    then show ?thesis
      using h(5) ne at by (auto simp: list_at_def)
  next
    case (Cons e es')
    then have g: "lseg (next_of s) (prev_of s) e es' ?h" and d: "e \<noteq> ?h" "e \<notin> set es'" "?h \<notin> set es'"
      using at by (auto simp: list_at_def)
    have "lseg ?nx ?pr e es' ?h"
      by (rule lseg_frame [OF g]) (use Cons h(5) ne d in auto)
    then show ?thesis
      using Cons h(5) ne by simp
  qed
  then have "lseg ?nx ?pr ?h (a # es) ?h"
    using ne by simp
  then show ?thesis
    using h ne a at by (simp add: link_after_def access_def list_at_def) auto
qed

lemma unlink_list:
  assumes at: "list_at s (es @ [z])"
  shows "\<exists>s'. unlink z s = Done s' \<and> lptr s' = lptr s \<and> payload s' = payload s \<and> nodes s' = nodes s \<and>
    lseg (next_of s') (prev_of s') (lptr s) es (lptr s)"
proof -
  let ?h = "lptr s" and ?p = "prev_of s z"
  have z: "z \<noteq> 0" "z \<in> set (nodes s)" "next_of s z = ?h" "z \<noteq> ?h" "?h \<noteq> 0" "?h \<in> set (nodes s)"
    and seg: "lseg (next_of s) (prev_of s) ?h es z"
    using at by (auto simp: list_at_def lseg_append)
  have p: "?p = last (?h # es)"
    using seg by (cases es rule: rev_cases) (auto simp: lseg_append)
  then have "?p \<in> set (?h # es)"
    using last_in_set [of "?h # es"] by (simp del: last.simps)
  then have pn: "?p \<noteq> 0" "?p \<in> set (nodes s)"
    using at by (auto simp: list_at_def)
  let ?nx = "(next_of s)(?p := ?h)" and ?pr = "(prev_of s)(?h := ?p)"
  have "lseg ?nx ?pr ?h es ?h"
  proof (cases es rule: rev_cases)
    case Nil
    then show ?thesis
      using p by simp
  next
    case (snoc ws w)
    then have g: "lseg (next_of s) (prev_of s) ?h ws w" and d: "?p = w" "w \<noteq> ?h" "w \<notin> set ws" "?h \<notin> set ws"
      using seg p at by (auto simp: lseg_append list_at_def)
    have "lseg ?nx ?pr ?h ws w"
      by (rule lseg_frame [OF g]) (use d in auto)
    then show ?thesis
      using snoc d by (simp add: lseg_append)
  qed
  then show ?thesis
    using z pn by (simp add: unlink_def access_def)
qed

lemma print_loop_list:
  assumes "lseg (next_of s) (prev_of s) a es p" and "p \<noteq> 0" and "p \<notin> set es" and "0 \<notin> set es"
    and "set es \<subseteq> set (nodes s)"
  shows "print_loop n p (next_of s a) s = (if length es < n then Some (Done (map (payload s) es)) else None)"
  using assms
proof (induction es arbitrary: a n)
  case Nil
  then show ?case
    by (cases n) (simp_all add: api_list_iter_isover_def)
next
  case (Cons e es)
  then have e: "next_of s a = e" "e \<noteq> p" "e \<noteq> 0" "e \<in> set (nodes s)" "lseg (next_of s) (prev_of s) e es p"
    by auto
  have "print_loop m p (next_of s e) s = (if length es < m then Some (Done (map (payload s) es)) else None)" for m
    using Cons.IH [OF e(5)] Cons.prems by auto
  then show ?case
    using e Cons.prems(2)
    by (cases n) (simp_all add: api_list_iter_isover_def api_list_iter_getval_def api_list_iter_next_def access_Done)
qed

lemma api_list_print_rep:
  assumes "list_rep s (Some vs)"
  shows "api_list_print n (lptr s) s = (if length vs < n then Some (Done vs) else None)"
proof -
  obtain es where es: "list_at s es" "vs = map (payload s) es"
    using assms by (auto simp: list_rep_def)
  then show ?thesis
    using print_loop_list [of s "lptr s" es "lptr s" n]
    by (auto simp: api_list_print_def api_list_iter_init_def access_def list_at_def)
qed

lemma api_list_add_rep:
  assumes "list_rep s (Some vs)" and "a \<noteq> 0" and "a \<notin> set (nodes s)"
  shows "\<exists>s'. api_list_add a (lptr s) v s = Done s' \<and> list_rep s' (Some (v # vs))"
proof -
  obtain es where es: "list_at s es" "vs = map (payload s) es"
    using assms by (auto simp: list_rep_def)
  obtain s' where s': "link_after a (lptr s) (s\<lparr>nodes := a # nodes s, payload := (payload s)(a := v)\<rparr>) = Done s'"
    "list_at s' (a # es)" "nodes s' = a # nodes s" "payload s' = (payload s)(a := v)"
    using link_after_list [OF es(1) assms(2,3)] by blast
  have "a \<notin> set es" "lptr s \<noteq> 0"
    using es(1) assms(3) by (auto simp: list_at_def)
  then have "v # vs = map (payload s') (a # es)"
    using es(2) by (auto simp: s'(4))
  then have "list_rep s' (Some (v # vs))"
    using s'(2,3) assms unfolding list_rep_def by auto
  then show ?thesis
    using s'(1) assms(2) \<open>lptr s \<noteq> 0\<close> by (simp add: api_list_add_def)
qed

lemma api_list_del_rep:
  assumes "list_rep s (Some vs)"
  shows "\<exists>s'. api_list_del (lptr s) s = Done (if vs = [] then 0 else last vs, s') \<and> list_rep s' (Some (butlast vs))"
proof -
  obtain es where es: "list_at s es" "vs = map (payload s) es"
    using assms by (auto simp: list_rep_def)
  note links = list_at_links [OF es(1)]
  have h: "lptr s \<noteq> 0" "lptr s \<in> set (nodes s)"
    using es(1) by (auto simp: list_at_def)
  show ?thesis
  proof (cases es rule: rev_cases)
    case Nil
    then show ?thesis
      using assms es h links by (simp add: api_list_del_def access_Done)
  next
    case (snoc ws z)
    obtain s' where s': "unlink z s = Done s'" "lptr s' = lptr s" "payload s' = payload s" "nodes s' = nodes s"
      "lseg (next_of s') (prev_of s') (lptr s) ws (lptr s)"
      using unlink_list es(1) snoc by blast
    have z: "z \<noteq> 0" "z \<in> set (nodes s)" "z \<noteq> lptr s" "z \<notin> set ws" "next_of s (lptr s) \<noteq> lptr s"
      "prev_of s (lptr s) = z" "lptr s \<notin> set ws" "distinct ws" "0 \<notin> set ws" "set ws \<subseteq> set (nodes s)"
      using es(1) links snoc by (cases ws; auto simp: list_at_def)+
    let ?s = "s'\<lparr>nodes := remove1 z (nodes s)\<rparr>"
    have "list_at ?s ws"
      using s' z h assms by (auto simp: list_at_def list_rep_def)
    then have "list_rep ?s (Some (map (payload s) ws))"
      using assms s'(3) by (auto simp: list_rep_def dest: notin_set_remove1)
    moreover have "api_list_del (lptr s) s = Done (payload s z, ?s)"
      using z h s'(1,4) by (simp add: api_list_del_def access_Done kfree_node_def)
    ultimately show ?thesis
      using es(2) snoc by simp
  qed
qed

lemmas list_cmd_defs = IOCTL_LIST_CREATE_def IOCTL_LIST_DESTROY_def IOCTL_LIST_ISEMPTY_def IOCTL_LIST_ADD_def
  IOCTL_LIST_DEL_def IOCTL_LIST_PRINT_def

lemma list_rep_lptr: "list_rep s None \<Longrightarrow> lptr s = 0" "list_rep s (Some vs) \<Longrightarrow> lptr s \<noteq> 0 \<and> lptr s \<in> set (nodes s)"
  by (auto simp: list_rep_def list_at_def)

lemma api_list_create_rep:
  assumes "list_rep s q" and "a \<noteq> 0" and "a \<notin> set (nodes s)"
  shows "\<exists>s'. api_list_create a s = Done (a, s') \<and> list_rep (s'\<lparr>lptr := a\<rparr>) (Some [])"
  using assms by (auto simp: api_list_create_def list_rep_def list_at_def)

lemma api_list_destroy_rep:
  assumes "list_rep s q"
  shows "\<exists>s'. api_list_destroy (lptr s) s = Done s' \<and> list_rep (s'\<lparr>lptr := 0\<rparr>) None"
proof (cases q)
  case None
  then show ?thesis
    using assms list_rep_lptr(1) by (auto simp: api_list_destroy_def list_rep_def)
next
  case (Some vs)
  then show ?thesis
    using assms list_rep_lptr(2) [of s vs]
    by (auto simp: api_list_destroy_def kfree_node_def access_Done list_rep_def dest: notin_set_remove1)
qed

lemma api_list_isempty_rep:
  assumes "list_rep s q"
  shows "api_list_isempty (lptr s) s = Done (if q = Some [] then 1 else 0)"
proof (cases q)
  case None
  then show ?thesis
    using assms list_rep_lptr(1) by (simp add: api_list_isempty_def)
next
  case (Some vs)
  then obtain es where es: "list_at s es" "vs = map (payload s) es"
    using assms by (auto simp: list_rep_def)
  have "next_of s (lptr s) = lptr s \<longleftrightarrow> es = []"
    using list_at_links(1) [OF es(1)] es(1) by (cases es) (auto simp: list_at_def)
  then show ?thesis
    using assms Some es(2) list_rep_lptr(2) [of s vs] by (simp add: api_list_isempty_def access_Done)
qed

text \<open>Each call does on the store what the queue does; only the printing loop needs enough rounds.\<close>

lemma list_ioctl_rep:
  assumes rep: "list_rep s q" and a: "a \<noteq> 0" "a \<notin> set (nodes s)" and call: "queue_call cmd arg q = (ret, out, q')"
  shows "\<exists>s'. list_rep s' q' \<and> list_ioctl n a cmd arg s =
    (if cmd = IOCTL_LIST_PRINT \<and> (\<exists>vs. q = Some vs \<and> n \<le> length vs) then None else Some (Done (ret, out, s')))"
proof -
  consider "cmd = IOCTL_LIST_CREATE" | "cmd = IOCTL_LIST_DESTROY" | "cmd = IOCTL_LIST_ISEMPTY"
    | "cmd = IOCTL_LIST_ADD" | "cmd = IOCTL_LIST_DEL" | "cmd = IOCTL_LIST_PRINT"
    | "cmd \<notin> {IOCTL_LIST_CREATE, IOCTL_LIST_DESTROY, IOCTL_LIST_ISEMPTY, IOCTL_LIST_ADD, IOCTL_LIST_DEL, IOCTL_LIST_PRINT}"
    by blast
  then show ?thesis
  proof cases
    case 1
    then show ?thesis
      using api_list_create_rep [OF rep a] call by (auto simp: list_ioctl_def list_cmd_defs)
  next
    case 2
    then show ?thesis
      using api_list_destroy_rep [OF rep] call by (auto simp: list_ioctl_def list_cmd_defs)
  next
    case 3
    then show ?thesis
      using api_list_isempty_rep [OF rep] call rep by (auto simp: list_ioctl_def list_cmd_defs)
  next
    case 4
    show ?thesis
    proof (cases q)
      case None
      then show ?thesis
        using 4 rep call list_rep_lptr(1) by (auto simp: list_ioctl_def list_cmd_defs api_list_add_def)
    next
      case (Some vs)
      then obtain s' where "api_list_add a (lptr s) arg s = Done s'" "list_rep s' (Some (arg # vs))"
        using api_list_add_rep [where v = arg, OF _ a] rep by blast
      then show ?thesis
        using 4 Some call by (auto simp: list_ioctl_def list_cmd_defs)
    qed
  next
    case 5
    show ?thesis
    proof (cases q)
      case None
      then show ?thesis
        using 5 rep call list_rep_lptr(1) by (auto simp: list_ioctl_def list_cmd_defs api_list_del_def)
    next
      case (Some vs)
      then obtain s' where "api_list_del (lptr s) s = Done (if vs = [] then 0 else last vs, s')"
        "list_rep s' (Some (butlast vs))"
        using api_list_del_rep rep by blast
      then show ?thesis
        using 5 Some call by (auto simp: list_ioctl_def list_cmd_defs)
    qed
  next
    case 6
    show ?thesis
    proof (cases q)
      case None
      then show ?thesis
        using 6 rep call list_rep_lptr(1)
        by (auto simp: list_ioctl_def list_cmd_defs api_list_print_def api_list_iter_init_def)
    next
      case (Some vs)
      then show ?thesis
        using 6 api_list_print_rep [of s vs n] rep call by (auto simp: list_ioctl_def list_cmd_defs)
    qed
  next
    case 7
    then show ?thesis
      using call rep by (auto simp: list_ioctl_def)
  qed
qed

inductive_cases list_stepE: "list_step s e s'"

lemma list_steps_rep:
  "steps list_step s tr s' \<Longrightarrow> list_rep s q \<Longrightarrow> \<exists>q'. queue_agrees tr q q' \<and> list_rep s' q'"
proof (induction arbitrary: q rule: steps.induct)
  case (steps_Cons s e s' tr s'')
  from steps_Cons.hyps(1) obtain a n cmd arg ret out where e: "e = (cmd, arg, ret, out)" "a \<noteq> 0"
    "a \<notin> set (nodes s)" "list_ioctl n a cmd arg s = Some (Done (ret, out, s'))"
    by (auto elim: list_stepE)
  obtain ret' out' q' where c: "queue_call cmd arg q = (ret', out', q')"
    by (rule prod_cases3)
  have "list_rep s' q' \<and> ret = ret' \<and> out = out'"
    using list_ioctl_rep [OF steps_Cons.prems e(2,3) c, of n] e(4) by (auto split: if_splits)
  then show ?case
    using steps_Cons.IH [of q'] c by (auto simp del: queue_call.simps simp add: e(1))
qed simp

section \<open>Properties\<close>


text \<open>A run that adds two values and takes one.\<close>

definition list_two :: list_state where
  "list_two = \<lparr>lptr = 16, next_of = (\<lambda>_. 0)(16 := 48, 32 := 16, 48 := 32),
     prev_of = (\<lambda>_. 0)(16 := 32, 32 := 48, 48 := 16), payload = (\<lambda>_. 0)(32 := 7, 48 := 8), nodes = [48, 32, 16]\<rparr>"

lemma list_two_run:
  "steps list_step list_start
    [(IOCTL_LIST_CREATE, 0, 0, OutNone), (IOCTL_LIST_ADD, 7, 0, OutNone), (IOCTL_LIST_ADD, 8, 0, OutNone)] list_two"
proof -
  note defs = list_ioctl_def list_cmd_defs api_list_create_def api_list_add_def link_after_def access_def
    list_start_def list_two_def fun_eq_iff
  define s1 where "s1 = list_start\<lparr>lptr := 16, nodes := [16], next_of := (\<lambda>_. 0)(16 := 16), prev_of := (\<lambda>_. 0)(16 := 16)\<rparr>"
  define s2 where "s2 = s1\<lparr>nodes := [32, 16], next_of := (\<lambda>_. 0)(16 := 32, 32 := 16),
    prev_of := (\<lambda>_. 0)(16 := 32, 32 := 16), payload := (\<lambda>_. 0)(32 := 7)\<rparr>"
  have "list_step list_start (IOCTL_LIST_CREATE, 0, 0, OutNone) s1"
    by (rule list_step.intros [of 16 _ 0]) (simp_all add: s1_def defs)
  moreover have "list_step s1 (IOCTL_LIST_ADD, 7, 0, OutNone) s2"
    by (rule list_step.intros [of 32 _ 0]) (simp_all add: s1_def s2_def defs)
  moreover have "list_step s2 (IOCTL_LIST_ADD, 8, 0, OutNone) list_two"
    by (rule list_step.intros [of 48 _ 0]) (simp_all add: s1_def s2_def defs)
  ultimately show ?thesis
    by (blast intro: steps.intros)
qed


end
