(* ===== verification/KernTiming.thy ===== *)
theory KernTiming
  imports KernelApi
begin

text \<open>
  \<open>src/src/kernel/mod_timing.c\<close>: an \<open>ioctl\<close> that measures a delay with the cycle counter and with the jiffies.
  What the counters and the frequency functions of the kernel return is an environment, and \<open>HZ\<close>, which
  the configuration of the kernel fixes, is a parameter. A report holds what a call prints.
\<close>

record timing_env =
  cycles1 :: u64
  cycles2 :: u64
  jiffies1 :: u64
  jiffies2 :: u64
  freq_quick :: u32
  freq_exact :: u32

datatype timing_report =
  NoReport
| ReportClock u64 u32 u32
| ReportTsc u32 u64 u64 u64 u64
| ReportJiffies u64 u64 u64 u64 u64 u64

definition IOCTL_TIMING_CLOCK :: u32 where "IOCTL_TIMING_CLOCK = 25610"
definition IOCTL_TIMING_TSC :: u32 where "IOCTL_TIMING_TSC = 25611"
definition IOCTL_TIMING_JIFFIES :: u32 where "IOCTL_TIMING_JIFFIES = 25612"
definition IOCTL_TIMING_EMPTY :: u32 where "IOCTL_TIMING_EMPTY = 25613"

definition timing_ioctl :: "u64 \<Rightarrow> timing_env \<Rightarrow> u32 \<Rightarrow> (int \<times> timing_report) outcome" where
  "timing_ioctl HZ env cmd =
    (if cmd = IOCTL_TIMING_CLOCK
     then Done (0, ReportClock (cycles1 env) (freq_quick env) (freq_exact env))
     else if cmd = IOCTL_TIMING_TSC
     then
       let freq = freq_quick env; cnt1 = cycles1 env; cnt2 = cycles2 env; cdiff = cnt2 - cnt1
       in if freq = 0 then Crash DivideByZero
          else let crmic = (cdiff * 1000) div ucast freq
               in Done (0, ReportTsc freq cnt1 cnt2 cdiff crmic)
     else if cmd = IOCTL_TIMING_JIFFIES
     then
       let j1 = jiffies1 env; j2 = jiffies2 env; jdiff = (j2 - j1) * 1000
       in if HZ = 0 then Crash DivideByZero
          else let jmil = jdiff div HZ; jmic = jmil * 1000
               in Done (0, ReportJiffies j1 j2 jdiff HZ jmil jmic)
     else if cmd = IOCTL_TIMING_EMPTY then Done (0, NoReport)
     else Done (- EINVAL, NoReport))"

lemmas timing_cmd_defs = IOCTL_TIMING_CLOCK_def IOCTL_TIMING_TSC_def IOCTL_TIMING_JIFFIES_def IOCTL_TIMING_EMPTY_def

lemma unat_times_1000: "unat (w :: u64) * 1000 < 2 ^ 64 \<Longrightarrow> unat (w * 1000) = unat w * 1000"
  by (simp add: unat_word_ariths)

section \<open>Properties\<close>

text \<open>The measurement with the cycle counter. When the kernel does not know the frequency of the
  processor, the call divides by zero; otherwise, for a delay of fewer than \<open>2 ^ 64 / 1000\<close> cycles, the
  microseconds reported are the cycles elapsed times 1000 divided by the frequency, even when the counter
  wraps around during the delay; a delay measured in jiffies is reported in whole milliseconds, times 1000.\<close>

theorem timing_measures:
  assumes "d * 1000 < 2 ^ 64" and "cycles2 env = cycles1 env + of_nat d" and "jiffies2 env = jiffies1 env + of_nat d"
    and "0 < HZ"
  shows "(case timing_ioctl HZ env IOCTL_TIMING_TSC of
       Crash c \<Rightarrow> freq_quick env = 0 \<and> c = DivideByZero
     | Done (ret, report) \<Rightarrow> freq_quick env \<noteq> 0 \<and> ret = 0 \<and>
         (\<exists>cdiff micros. report = ReportTsc (freq_quick env) (cycles1 env) (cycles2 env) cdiff micros \<and>
           unat cdiff = d \<and> unat micros = d * 1000 div unat (freq_quick env))) \<and>
    (\<exists>jdiff jmil jmic. timing_ioctl HZ env IOCTL_TIMING_JIFFIES =
         Done (0, ReportJiffies (jiffies1 env) (jiffies2 env) jdiff HZ jmil jmic) \<and>
       unat jmil = d * 1000 div unat HZ \<and> jmic = jmil * 1000)"
proof -
  have d: "unat (of_nat d :: u64) = d" "unat (of_nat d * 1000 :: u64) = d * 1000"
    using assms(1) unat_times_1000 [of "of_nat d"] by simp_all
  show ?thesis
    using assms(2-) d
    by (auto simp: timing_ioctl_def timing_cmd_defs Let_def unat_div unat_ucast_u64)
qed

theorem timing_measures_witness:
  "\<exists>cdiff micros jdiff jmil.
     timing_ioctl 250 \<lparr>cycles1 = - 1000, cycles2 = 2000, jiffies1 = - 1, jiffies2 = 2999, freq_quick = 2, freq_exact = 2\<rparr>
       IOCTL_TIMING_TSC = Done (0, ReportTsc 2 (- 1000) 2000 cdiff micros) \<and> unat micros = 1500000 \<and>
     timing_ioctl 250 \<lparr>cycles1 = - 1000, cycles2 = 2000, jiffies1 = - 1, jiffies2 = 2999, freq_quick = 2, freq_exact = 2\<rparr>
       IOCTL_TIMING_JIFFIES = Done (0, ReportJiffies (- 1) 2999 jdiff 250 jmil (jmil * 1000)) \<and> unat jmil = 12000"
  using timing_measures [of 3000 "\<lparr>cycles1 = - 1000, cycles2 = 2000, jiffies1 = - 1, jiffies2 = 2999,
      freq_quick = 2, freq_exact = 2\<rparr>" 250]
  by (auto split: outcome.splits)

end
