(* ===== verification/Lis.thy ===== *)
theory Lis
  imports Prelude "HOL-Library.Sublist"
begin

text \<open>
  \<open>src/src/exercises/c/longest_increasing_subsequence/solution.c\<close>: a recursive search for a longest increasing
  subsequence of a string. A string is the list of its characters before the terminating zero; it lives
  in an array of \<open>MAX_STR_LEN\<close> characters, and a copy or a store past the end of it is a crash.
  Characters are signed, as on the platforms the program is built for.
\<close>

section \<open>The search\<close>

definition MAX_STR_LEN :: nat where
  "MAX_STR_LEN = 64"

text \<open>A string fits in an array when there is room for the terminating zero.\<close>

definition fits :: "byte list \<Rightarrow> bool" where
  "fits s \<longleftrightarrow> length s < MAX_STR_LEN"

text \<open>
  The first argument is \<open>str\<close> from \<open>index\<close> on. The result holds the arrays \<open>curr\<close> and \<open>best\<close> when the
  call returns.
\<close>

fun maximum_subset :: "byte list \<Rightarrow> byte list \<Rightarrow> byte list \<Rightarrow> (byte list \<times> byte list) outcome" where
  "maximum_subset [] cur best = Done (cur, best)"
| "maximum_subset (c # str) cur best =
    (if \<not> fits cur then Crash OutOfBounds
     else
       let tmp_curr = cur;
           keep = (if cur \<noteq> [] \<and> sint (last cur) < sint c then cur else []);
           cur = keep @ [c]
       in if \<not> fits cur then Crash OutOfBounds
          else
            let best = (if length cur > length best then cur else best)
            in outcome_bind (maximum_subset str cur best) (\<lambda>(cur, best).
               maximum_subset str tmp_curr best))"

text \<open>\<open>check\<close> copies \<open>val\<close> into all three arrays, and says whether the result is the expected one.\<close>

definition check :: "byte list \<Rightarrow> byte list \<Rightarrow> bool outcome" where
  "check val expected =
    (if \<not> fits val then Crash OutOfBounds
     else outcome_bind (maximum_subset val val val) (\<lambda>(cur, best). Done (expected = best)))"

section \<open>The reference\<close>

definition increasing :: "byte list \<Rightarrow> bool" where
  "increasing s \<longleftrightarrow> sorted_wrt (\<lambda>x y. sint x < sint y) s"

definition longest_increasing :: "byte list \<Rightarrow> byte list \<Rightarrow> bool" where
  "longest_increasing best str \<longleftrightarrow> subseq best str \<and> increasing best \<and>
     (\<forall>s. subseq s str \<longrightarrow> increasing s \<longrightarrow> length s \<le> length best)"

lemma increasing_snoc:
  "increasing (s @ [c]) \<longleftrightarrow> increasing s \<and> (s \<noteq> [] \<longrightarrow> sint (last s) < sint c)"
proof (cases s rule: rev_cases)
  case (snoc t x)
  then show ?thesis
    by (auto simp: increasing_def sorted_wrt_append)
qed (simp add: increasing_def)

lemma increasing_single [simp]: "increasing []" "increasing [c]"
  by (simp_all add: increasing_def)

lemma increasing_append1: "increasing (s @ t) \<Longrightarrow> increasing s"
  by (simp add: increasing_def sorted_wrt_append)

section \<open>Correctness\<close>

text \<open>With a current string taken from the part already seen, the search stays inside the arrays, gives
  \<open>curr\<close> back, and keeps \<open>best\<close> an increasing subsequence.\<close>

lemma maximum_subset_sound:
  assumes "fits (pre @ str)" and "subseq cur pre" and "increasing cur"
    and "subseq best (pre @ str)" and "increasing best"
  shows "\<exists>best'. maximum_subset str cur best = Done (cur, best') \<and> subseq best' (pre @ str) \<and>
    increasing best' \<and> length best \<le> length best'"
  using assms
proof (induction str arbitrary: pre cur best)
  case Nil
  then show ?case by simp
next
  case (Cons c str)
  define new where "new = (if cur \<noteq> [] \<and> sint (last cur) < sint c then cur else []) @ [c]"
  define best1 where "best1 = (if length new > length best then new else best)"
  have new: "subseq new (pre @ [c])" "increasing new" "subseq cur (pre @ [c])"
    using Cons.prems by (auto simp: new_def increasing_snoc intro: list_emb_append_mono)
  have pre: "fits ((pre @ [c]) @ str)"
    using Cons.prems(1) by simp
  have len: "fits cur" "fits new"
    using list_emb_length [OF Cons.prems(2)] list_emb_length [OF new(1)] Cons.prems(1) by (auto simp: fits_def)
  have "subseq new ((pre @ [c]) @ str)"
    using new(1) by (rule subseq_rev_drop_many)
  then have best: "subseq best1 ((pre @ [c]) @ str)" "increasing best1" "length best \<le> length best1"
    using Cons.prems(4,5) new(2) by (simp_all add: best1_def)
  obtain b1 where b1: "maximum_subset str new best1 = Done (new, b1)" "subseq b1 ((pre @ [c]) @ str)"
    "increasing b1" "length best1 \<le> length b1"
    using Cons.IH [OF pre new(1,2) best(1,2)] by blast
  obtain b2 where b2: "maximum_subset str cur b1 = Done (cur, b2)" "subseq b2 ((pre @ [c]) @ str)"
    "increasing b2" "length b1 \<le> length b2"
    using Cons.IH [OF pre new(3) Cons.prems(3) b1(2,3)] by blast
  have "maximum_subset (c # str) cur best = Done (cur, b2)"
    using len b1(1) b2(1)
    by (cases "length best < length new") (simp_all add: Let_def best1_def flip: new_def)
  then show ?case
    using b1(4) b2(2-4) best(3) by (simp del: maximum_subset.simps)
qed

text \<open>The best string only grows, and every increasing extension of the current string is found.\<close>

lemma maximum_subset_step:
  assumes "maximum_subset (c # str) cur best = Done (cur', best')"
  obtains new b1 cur1 where "new = (if cur \<noteq> [] \<and> sint (last cur) < sint c then cur else []) @ [c]"
    and "maximum_subset str new (if length new > length best then new else best) = Done (cur1, b1)"
    and "maximum_subset str cur b1 = Done (cur', best')"
  using assms by (auto simp: Let_def split: if_splits)

lemma maximum_subset_grows:
  "maximum_subset str cur best = Done (cur', best') \<Longrightarrow> length best \<le> length best'"
proof (induction str arbitrary: cur best cur' best')
  case (Cons c str)
  obtain new b1 cur1 where
    "maximum_subset str new (if length new > length best then new else best) = Done (cur1, b1)"
    "maximum_subset str cur b1 = Done (cur', best')"
    using Cons.prems by (rule maximum_subset_step)
  from Cons.IH [OF this(1)] Cons.IH [OF this(2)] show ?case
    by (auto split: if_splits)
qed simp

lemma maximum_subset_complete:
  "maximum_subset str cur best = Done (cur', best') \<Longrightarrow> subseq s str \<Longrightarrow> s \<noteq> [] \<Longrightarrow> increasing (cur @ s) \<Longrightarrow>
    length (cur @ s) \<le> length best'"
proof (induction str arbitrary: cur best cur' best' s)
  case (Cons c str)
  obtain new b1 cur1 where new: "new = (if cur \<noteq> [] \<and> sint (last cur) < sint c then cur else []) @ [c]"
    and m1: "maximum_subset str new (if length new > length best then new else best) = Done (cur1, b1)"
    and m2: "maximum_subset str cur b1 = Done (cur', best')"
    using Cons.prems(1) by (rule maximum_subset_step)
  show ?case
  proof (cases "subseq s str")
    case True
    then show ?thesis
      using Cons.IH [OF m2] Cons.prems by blast
  next
    case False
    then obtain t where t: "s = c # t" "subseq t str"
      using Cons.prems(2,3) by (cases s) (auto split: if_splits)
    have "increasing (cur @ [c])"
      using Cons.prems(4) t(1) increasing_append1 [of "cur @ [c]" t] by simp
    then have new': "new = cur @ [c]"
      by (auto simp: new increasing_snoc)
    have "length (cur @ s) \<le> length b1"
    proof (cases "t = []")
      case True
      then show ?thesis
        using maximum_subset_grows [OF m1] by (auto simp: new' t(1) split: if_splits)
    next
      case False
      then show ?thesis
        using Cons.IH [OF m1 t(2)] Cons.prems(4) by (simp add: new' t(1))
    qed
    then show ?thesis
      using maximum_subset_grows [OF m2] by simp
  qed
qed simp

section \<open>Properties\<close>



text \<open>
  \<open>check\<close> starts the search with the string itself in \<open>curr\<close> and \<open>best\<close>: the result is never shorter
  than the string, and an expected subsequence that is shorter is always reported as an error.
\<close>

lemma check_rejects_shorter:
  "length expected < length val \<Longrightarrow> check val expected \<noteq> Done True"
  using maximum_subset_grows [of val val val]
  by (auto simp: check_def split: outcome.splits dest!: sym [of expected])

text \<open>The tests \<open>check("cbe", "ce")\<close> and \<open>check("azbcd", "abcd")\<close> of the program.\<close>

lemma check_cbe: "check [99, 98, 101] [99, 101] = Done False" "check [97, 122, 98, 99, 100] [97, 98, 99, 100] = Done False"
  by code_simp+

end
