(* ===== verification/Banking.thy ===== *)
theory Banking
  imports Main
begin

text \<open>
  \<open>src/src/exercises/design_patterns/banking/banking.h\<close>: accounts, decorators of accounts, a proxy that creates
  its account on first use, and a bank that makes them. The type of the amounts is a parameter: the
  program computes with \<open>double\<close>, and what is said of the proxy holds for any addition, subtraction and
  comparison, however they round. Every operation returns the lines that it prints.
\<close>

section \<open>Accounts\<close>

datatype 'a account =
  CheckingAccount (balance: 'a) (overdraft: 'a)
| SavingAccount (balance: 'a)
| TraceAccount "'a account"
| CommissionAccount "'a account" 'a
| SavingAccountProxy "'a option" 'a

text \<open>\<open>AccountBase\<close>: the new balance and what is printed.\<close>

definition base_withdraw :: "'a \<Rightarrow> 'a :: {minus, ord} \<Rightarrow> 'a \<times> string list" where
  "base_withdraw bal val =
    (if bal \<ge> val
     then (bal - val, [''Authenticate'', ''ConnectRemoteDB'', ''SaveChanges'', ''CloseConnection''])
     else (bal, [''Authenticate'', ''ConnectRemoteDB'', ''ReportError'', ''CloseConnection'']))"

definition base_deposit :: "'a \<Rightarrow> 'a :: plus \<Rightarrow> 'a" where
  "base_deposit bal val = bal + val"

text \<open>\<open>Load\<close> of the proxy: the balance of the account behind it.\<close>

definition proxy_load :: "'a option \<Rightarrow> 'a \<Rightarrow> 'a \<times> string list" where
  "proxy_load acc bal =
    (case acc of
       None \<Rightarrow> (bal, [''proxy loading real object''])
     | Some b \<Rightarrow> (b, []))"

fun withdraw :: "'a :: {plus, minus, ord} \<Rightarrow> 'a account \<Rightarrow> 'a account \<times> string list" where
  "withdraw val (CheckingAccount bal ovr) = (case base_withdraw bal val of (b, out) \<Rightarrow> (CheckingAccount b ovr, out))"
| "withdraw val (SavingAccount bal) = (case base_withdraw bal val of (b, out) \<Rightarrow> (SavingAccount b, out))"
| "withdraw val (TraceAccount acc) =
     (case withdraw val acc of (acc, out) \<Rightarrow> (TraceAccount acc, ''withdraw called'' # out))"
| "withdraw val (CommissionAccount acc amount) =
     (case withdraw (val + amount) acc of (acc, out) \<Rightarrow> (CommissionAccount acc amount, out))"
| "withdraw val (SavingAccountProxy acc bal) =
     (case proxy_load acc bal of (b, out) \<Rightarrow>
       case base_withdraw b val of (b, out') \<Rightarrow> (SavingAccountProxy (Some b) bal, out @ out'))"

fun deposit :: "'a :: {plus, minus, ord} \<Rightarrow> 'a account \<Rightarrow> 'a account \<times> string list" where
  "deposit val (CheckingAccount bal ovr) = (CheckingAccount (base_deposit bal val) ovr, [])"
| "deposit val (SavingAccount bal) = (SavingAccount (base_deposit bal val), [])"
| "deposit val (TraceAccount acc) =
     (case deposit val acc of (acc, out) \<Rightarrow> (TraceAccount acc, ''deposit called'' # out))"
| "deposit val (CommissionAccount acc amount) =
     (case deposit (val - amount) acc of (acc, out) \<Rightarrow> (CommissionAccount acc amount, out))"
| "deposit val (SavingAccountProxy acc bal) =
     (case proxy_load acc bal of (b, out) \<Rightarrow> (SavingAccountProxy (Some (base_deposit b val)) bal, out))"

text \<open>\<open>getBalance\<close>, which is \<open>const\<close> in the program but changes the account behind a commission or a proxy.\<close>

fun decorators :: "'a account \<Rightarrow> nat" where
  "decorators (TraceAccount acc) = Suc (decorators acc)"
| "decorators (CommissionAccount acc amount) = Suc (decorators acc)"
| "decorators _ = 0"

lemma decorators_withdraw: "(acc', out) = withdraw val acc \<Longrightarrow> decorators acc' = decorators acc"
  by (induction val acc arbitrary: acc' out rule: withdraw.induct) (auto split: prod.splits)

function getBalance :: "'a :: {plus, minus, ord} account \<Rightarrow> 'a \<times> 'a account \<times> string list" where
  "getBalance (CheckingAccount bal ovr) = (bal, CheckingAccount bal ovr, [])"
| "getBalance (SavingAccount bal) = (bal, SavingAccount bal, [])"
| "getBalance (TraceAccount acc) =
     (case getBalance acc of (b, acc, out) \<Rightarrow> (b, TraceAccount acc, ''get balance called'' # out))"
| "getBalance (CommissionAccount acc amount) =
     (case withdraw amount acc of (acc, out) \<Rightarrow>
       case getBalance acc of (b, acc, out') \<Rightarrow> (b, CommissionAccount acc amount, out @ out'))"
| "getBalance (SavingAccountProxy acc bal) =
     (case proxy_load acc bal of (b, out) \<Rightarrow> (b, SavingAccountProxy (Some b) bal, out))"
  by pat_completeness auto

termination
  by (relation "measure decorators") (auto dest: decorators_withdraw)

text \<open>\<open>Bank\<close>; \<open>debug\<close> says whether \<open>_DEBUG\<close> is defined.\<close>

definition createCheckingAccount :: "bool \<Rightarrow> 'a :: numeral \<Rightarrow> 'a \<Rightarrow> 'a account" where
  "createCheckingAccount debug bal ovr =
    (if debug then TraceAccount (CommissionAccount (CheckingAccount bal ovr) 10) else CheckingAccount bal ovr)"

definition createSavingAccount :: "'a \<Rightarrow> 'a account" where
  "createSavingAccount bal = SavingAccountProxy None bal"

section \<open>Sequences of calls\<close>

datatype 'a account_call = GetBalance | Withdraw 'a | Deposit 'a

definition account_call :: "'a :: {plus, minus, ord} account_call \<Rightarrow> 'a account \<Rightarrow> 'a option \<times> 'a account \<times> string list" where
  "account_call c acc =
    (case c of
       GetBalance \<Rightarrow> (case getBalance acc of (b, acc, out) \<Rightarrow> (Some b, acc, out))
     | Withdraw val \<Rightarrow> (case withdraw val acc of (acc, out) \<Rightarrow> (None, acc, out))
     | Deposit val \<Rightarrow> (case deposit val acc of (acc, out) \<Rightarrow> (None, acc, out)))"

text \<open>What a caller sees: the balances returned and the lines printed.\<close>

fun account_calls :: "'a :: {plus, minus, ord} account_call list \<Rightarrow> 'a account \<Rightarrow> 'a option list \<times> 'a account \<times> string list" where
  "account_calls [] acc = ([], acc, [])"
| "account_calls (c # cs) acc =
    (case account_call c acc of (b, acc, out) \<Rightarrow>
     case account_calls cs acc of (bs, acc, out') \<Rightarrow> (b # bs, acc, out @ out'))"

text \<open>The proxy with an account and the account behind it.\<close>

lemma proxy_call:
  "account_call c (SavingAccountProxy (Some b) bal) =
    (case account_call c (SavingAccount b) of (r, acc, out) \<Rightarrow> (r, SavingAccountProxy (Some (balance acc)) bal, out))"
  by (cases c) (auto simp: account_call_def proxy_load_def split: prod.split)

lemma saving_call: "\<exists>r b' out. account_call c (SavingAccount b) = (r, SavingAccount b', out)"
  by (cases c) (auto simp: account_call_def split: prod.split)

lemma proxy_calls:
  "account_calls cs (SavingAccountProxy (Some b) bal) =
    (case account_calls cs (SavingAccount b) of (rs, acc, out) \<Rightarrow> (rs, SavingAccountProxy (Some (balance acc)) bal, out))"
proof (induction cs arbitrary: b)
  case (Cons c cs)
  obtain r b' out where "account_call c (SavingAccount b) = (r, SavingAccount b', out)"
    using saving_call by blast
  then show ?case
    using Cons.IH [of b'] by (auto simp: proxy_call split: prod.split)
qed simp

lemma proxy_first_call:
  "account_call c (SavingAccountProxy None bal) =
    (case account_call c (SavingAccountProxy (Some bal) bal) of
       (r, acc, out) \<Rightarrow> (r, acc, ''proxy loading real object'' # out))"
  by (cases c) (auto simp: account_call_def proxy_load_def split: prod.split)

text \<open>A deposit below the commission takes money out, without the test of a withdrawal.\<close>

lemma commission_deposit_overdraws:
  "fst (deposit (5 :: int) (CommissionAccount (CheckingAccount 0 0) 10)) = CommissionAccount (CheckingAccount (- 5) 0) 10"
  by (simp add: base_deposit_def)

section \<open>Properties\<close>

text \<open>The account that the bank hands out for a saving account, which creates the real account on first
  use, is that account to its callers: over any sequence of calls, whatever the arithmetic of the amounts,
  the same balances are returned and the same lines printed, after one line that tells of the creation.\<close>

theorem saving_account_proxy:
  fixes bal :: "'a :: {plus, minus, ord}"
  shows "account_calls cs (createSavingAccount bal) =
    (case account_calls cs (SavingAccount bal) of (rs, acc, out) \<Rightarrow>
       if cs = [] then ([], SavingAccountProxy None bal, [])
       else (rs, SavingAccountProxy (Some (balance acc)) bal, ''proxy loading real object'' # out))"
proof (cases cs)
  case (Cons c cs')
  obtain r b' out where "account_call c (SavingAccount bal) = (r, SavingAccount b', out)"
    using saving_call by blast
  then show ?thesis
    using Cons proxy_calls [of cs' b' bal]
    by (auto simp: createSavingAccount_def proxy_first_call proxy_call split: prod.split)
qed (simp add: createSavingAccount_def)

end
