(* ===== verification/EventCond.thy ===== *)
theory EventCond
  imports RwLock
begin

text \<open>
  \<open>src/src/exercises/linux_api/condition_using_eventfd/mypthreadcond.h\<close>: a condition variable made of a hundred
  \<open>eventfd\<close> counters. A waiter takes the first slot that is not in use, and reads the counter of the slot after it has
  released the mutex; a signal adds one to the counter of the first slot in use. A wait is therefore three
  operations here: taking the slot, the read, which is possible once the counter is positive and
  resets it, and giving the slot back. An \<open>eventfd\<close> counter has 64 bits; each step of a thread adds at most one, and
  the runs of \<open>EventLock\<close> have fewer steps than that for every number of rounds of its type, so the counters are numbers here.
\<close>

definition MAX_FD :: nat where
  "MAX_FD = 100"

record mypthread_cond_t =
  efd :: "nat list"
  cwaiting :: "bool list"

definition mypthread_cond_init :: mypthread_cond_t where
  "mypthread_cond_init = \<lparr>efd = replicate MAX_FD 0, cwaiting = replicate MAX_FD False\<rparr>"

text \<open>The loops that search for the first slot with a given flag.\<close>

fun first_slot :: "bool \<Rightarrow> bool list \<Rightarrow> nat option" where
  "first_slot b [] = None"
| "first_slot b (w # ws) = (if w = b then Some 0 else map_option Suc (first_slot b ws))"

definition mypthread_cond_signal :: "mypthread_cond_t \<Rightarrow> mypthread_cond_t" where
  "mypthread_cond_signal c =
     (case first_slot True (cwaiting c) of
        Some i \<Rightarrow> c\<lparr>efd := (efd c)[i := efd c ! i + 1]\<rparr>
      | None \<Rightarrow> c)"

definition mypthread_cond_broadcast :: "mypthread_cond_t \<Rightarrow> mypthread_cond_t" where
  "mypthread_cond_broadcast c = c\<lparr>efd := map2 (\<lambda>w u. if w then u + 1 else u) (cwaiting c) (efd c)\<rparr>"

text \<open>\<open>None\<close> is the assertion that fails when no slot is left.\<close>

definition cond_wait_begin :: "mypthread_cond_t \<Rightarrow> (nat \<times> mypthread_cond_t) option" where
  "cond_wait_begin c =
     map_option (\<lambda>i. (i, c\<lparr>cwaiting := (cwaiting c)[i := True]\<rparr>)) (first_slot False (cwaiting c))"

definition cond_wait_read :: "nat \<Rightarrow> mypthread_cond_t \<Rightarrow> mypthread_cond_t option" where
  "cond_wait_read i c = (if efd c ! i > 0 then Some (c\<lparr>efd := (efd c)[i := 0]\<rparr>) else None)"

definition cond_wait_end :: "nat \<Rightarrow> mypthread_cond_t \<Rightarrow> mypthread_cond_t" where
  "cond_wait_end i c = c\<lparr>cwaiting := (cwaiting c)[i := False]\<rparr>"

section \<open>Slots\<close>

definition cond_ok :: "mypthread_cond_t \<Rightarrow> bool" where
  "cond_ok c \<longleftrightarrow> length (efd c) = MAX_FD \<and> length (cwaiting c) = MAX_FD"

lemma first_slot_SomeD: "first_slot b ws = Some i \<Longrightarrow> i < length ws \<and> ws ! i = b \<and> (\<forall>j < i. ws ! j \<noteq> b)"
proof (induction ws arbitrary: i)
  case (Cons w ws)
  show ?case
  proof (cases "w = b")
    case False
    then obtain k where "first_slot b ws = Some k" "i = Suc k"
      using Cons.prems by auto
    then show ?thesis
      using Cons.IH [of k] False by (auto simp: less_Suc_eq_0_disj)
  qed (use Cons.prems in simp)
qed simp

lemma first_slot_None: "first_slot b ws = None \<longleftrightarrow> b \<notin> set ws"
  by (induction ws) auto

lemma first_slot_ex: "i < length ws \<Longrightarrow> ws ! i = b \<Longrightarrow> \<exists>j. first_slot b ws = Some j"
  using first_slot_None [of b ws] by (cases "first_slot b ws") (auto simp: in_set_conv_nth)

lemma cond_ok_ops:
  "cond_ok mypthread_cond_init"
  "cond_ok c \<Longrightarrow> cond_ok (mypthread_cond_signal c)"
  "cond_ok c \<Longrightarrow> cond_ok (mypthread_cond_broadcast c)"
  "cond_ok c \<Longrightarrow> cond_wait_begin c = Some (i, c') \<Longrightarrow> cond_ok c'"
  "cond_ok c \<Longrightarrow> cond_wait_read i c = Some c' \<Longrightarrow> cond_ok c'"
  "cond_ok c \<Longrightarrow> cond_ok (cond_wait_end i c)"
  by (auto simp: cond_ok_def mypthread_cond_init_def mypthread_cond_signal_def mypthread_cond_broadcast_def
      cond_wait_begin_def cond_wait_read_def cond_wait_end_def split: option.splits if_splits)

lemma cond_waiting_same [simp]:
  "cwaiting (mypthread_cond_signal c) = cwaiting c"
  "cwaiting (mypthread_cond_broadcast c) = cwaiting c"
  "cwaiting (cond_wait_end i c) = (cwaiting c)[i := False]"
  "efd (cond_wait_end i c) = efd c"
  by (auto simp: mypthread_cond_signal_def mypthread_cond_broadcast_def cond_wait_end_def split: option.splits)

lemma cond_wait_beginD:
  assumes "cond_wait_begin c = Some (i, c')"
  shows "i < length (cwaiting c)" and "\<not> cwaiting c ! i" and "cwaiting c' = (cwaiting c)[i := True]" and "efd c' = efd c"
  using assms first_slot_SomeD [of False "cwaiting c"] by (auto simp: cond_wait_begin_def)

text \<open>A wait fails exactly when all slots are in use.\<close>

lemma cond_wait_begin_None: "cond_wait_begin c = None \<longleftrightarrow> (\<forall>i < length (cwaiting c). cwaiting c ! i)"
  using first_slot_None [of False "cwaiting c"] by (auto simp: cond_wait_begin_def in_set_conv_nth)

lemma cond_signal_efd:
  assumes "cond_ok c" and "first_slot True (cwaiting c) = Some i" and "j < MAX_FD"
  shows "efd (mypthread_cond_signal c) ! j = efd c ! j + (if j = i then 1 else 0)"
  using assms first_slot_SomeD [OF assms(2)] by (auto simp: mypthread_cond_signal_def cond_ok_def)

lemma cond_broadcast_efd:
  assumes "cond_ok c" and "j < MAX_FD"
  shows "efd (mypthread_cond_broadcast c) ! j = efd c ! j + (if cwaiting c ! j then 1 else 0)"
  using assms by (auto simp: mypthread_cond_broadcast_def cond_ok_def)

lemma cond_mono:
  assumes "cond_ok c" and "j < MAX_FD"
  shows "efd c ! j \<le> efd (mypthread_cond_signal c) ! j" and "efd c ! j \<le> efd (mypthread_cond_broadcast c) ! j"
proof -
  show "efd c ! j \<le> efd (mypthread_cond_signal c) ! j"
    using assms cond_signal_efd [OF assms(1) _ assms(2)]
    by (cases "first_slot True (cwaiting c)") (simp_all add: mypthread_cond_signal_def)
  show "efd c ! j \<le> efd (mypthread_cond_broadcast c) ! j"
    using cond_broadcast_efd [OF assms] by simp
qed

text \<open>How many tokens the operations add and take.\<close>

definition tokens :: "mypthread_cond_t \<Rightarrow> nat" where
  "tokens c = sum_list (efd c)"

definition in_use :: "mypthread_cond_t \<Rightarrow> nat" where
  "in_use c = length (filter id (cwaiting c))"

lemma sum_list_update_nat: "i < length xs \<Longrightarrow> sum_list (xs[i := v]) + xs ! i = sum_list xs + (v :: nat)"
proof (induction xs arbitrary: i)
  case (Cons x xs)
  then show ?case
    by (cases i) auto
qed simp

lemma tokens_signal: "cond_ok c \<Longrightarrow> tokens (mypthread_cond_signal c) \<le> tokens c + in_use c"
proof (cases "first_slot True (cwaiting c)")
  case (Some i)
  assume "cond_ok c"
  then have "i < length (efd c)" "cwaiting c ! i" "i < length (cwaiting c)"
    using first_slot_SomeD [OF Some] by (auto simp: cond_ok_def)
  moreover from this have "True \<in> set (cwaiting c)"
    by (metis (full_types) nth_mem)
  then have "filter id (cwaiting c) \<noteq> []"
    unfolding filter_empty_conv by force
  ultimately show ?thesis
    using Some sum_list_update_nat [of i "efd c" "efd c ! i + 1"]
    by (simp add: mypthread_cond_signal_def tokens_def in_use_def Suc_le_eq)
qed (simp add: mypthread_cond_signal_def)

lemma tokens_broadcast: "cond_ok c \<Longrightarrow> tokens (mypthread_cond_broadcast c) \<le> tokens c + in_use c"
proof -
  have "length ws = length us \<Longrightarrow>
      sum_list (map2 (\<lambda>w u. if w then u + 1 else u) ws us) = sum_list us + length (filter id ws)" for ws and us :: "nat list"
    by (induction ws us rule: list_induct2) auto
  then show "cond_ok c \<Longrightarrow> ?thesis"
    by (simp add: mypthread_cond_broadcast_def tokens_def in_use_def cond_ok_def)
qed

lemma tokens_read:
  "cond_ok c \<Longrightarrow> i < MAX_FD \<Longrightarrow> cond_wait_read i c = Some c' \<Longrightarrow> tokens c' < tokens c"
  using sum_list_update_nat [of i "efd c" 0]
  by (auto simp: cond_wait_read_def tokens_def cond_ok_def split: if_splits)

lemma tokens_same [simp]:
  "cond_wait_begin c = Some (i, c') \<Longrightarrow> tokens c' = tokens c"
  "tokens (cond_wait_end i c) = tokens c"
  by (auto simp: tokens_def cond_wait_end_def cond_wait_begin_def)

text \<open>Two signals before the first waiter runs go to the same slot: the second wakes nobody else.\<close>

lemma second_signal_lost:
  assumes "cond_ok c" and "first_slot True (cwaiting c) = Some i" and "j < MAX_FD" and "j \<noteq> i"
  shows "efd (mypthread_cond_signal (mypthread_cond_signal c)) ! j = efd c ! j"
  using cond_signal_efd [of c i j] cond_signal_efd [of "mypthread_cond_signal c" i j] cond_ok_ops(2) assms by simp

end
