(* ===== verification/EventLock.thy ===== *)
theory EventLock
  imports EventCond
begin

text \<open>
  \<open>src/src/exercises/linux_api/condition_using_eventfd/solution.cc\<close>: a readers-writer lock that prefers writers, on
  two of these condition variables, with its test program. As in \<open>RwLock\<close> a step of a worker is a whole section of the
  code that holds the mutex; the read from the \<open>eventfd\<close>, which is made without the mutex, is a step of its own.
  What a thread does next is determined by the state: here a wait never ends without a token.
\<close>

section \<open>The lock\<close>

record erwlock =
  mycond_readers :: mypthread_cond_t
  mycond_writers :: mypthread_cond_t
  ereaders :: nat
  ewriters :: nat
  ereaders_waiting :: nat
  ewriters_waiting :: nat

text \<open>
  \<open>EBlocked i\<close> is about to read the counter of slot \<open>i\<close>, \<open>EWoken i\<close> has read it and is about to lock the mutex again; the
  others are as in \<open>RwLock\<close>.
\<close>

datatype epc =
  EAtLoop
| EBlocked nat
| EWoken nat
| EEntered
| EHalfChecked
| EChecked
| EInside
| ELeaving
| EAssertFailed

definition event_rwlock_init :: erwlock where
  "event_rwlock_init = \<lparr>mycond_readers = mypthread_cond_init, mycond_writers = mypthread_cond_init,
     ereaders = 0, ewriters = 0, ereaders_waiting = 0, ewriters_waiting = 0\<rparr>"

text \<open>From the test of the loop to the lock or to the next wait.\<close>

definition event_rdlock_loop :: "erwlock \<Rightarrow> erwlock \<times> epc" where
  "event_rdlock_loop l =
     (if ewriters l > 0 \<or> ewriters_waiting l > 0
      then (case cond_wait_begin (mycond_readers l) of
              None \<Rightarrow> (l, EAssertFailed)
            | Some (i, c) \<Rightarrow> (l\<lparr>mycond_readers := c\<rparr>, EBlocked i))
      else (l\<lparr>ereaders := inc32 (ereaders l), ereaders_waiting := dec32 (ereaders_waiting l)\<rparr>, EEntered))"

definition event_rdlock :: "erwlock \<Rightarrow> erwlock \<times> epc" where
  "event_rdlock l = event_rdlock_loop (l\<lparr>ereaders_waiting := inc32 (ereaders_waiting l)\<rparr>)"

definition event_rdlock_resume :: "nat \<Rightarrow> erwlock \<Rightarrow> erwlock \<times> epc" where
  "event_rdlock_resume i l = event_rdlock_loop (l\<lparr>mycond_readers := cond_wait_end i (mycond_readers l)\<rparr>)"

definition event_wrlock_loop :: "erwlock \<Rightarrow> erwlock \<times> epc" where
  "event_wrlock_loop l =
     (if ereaders l > 0 \<or> ewriters l > 0
      then (case cond_wait_begin (mycond_writers l) of
              None \<Rightarrow> (l, EAssertFailed)
            | Some (i, c) \<Rightarrow> (l\<lparr>mycond_writers := c\<rparr>, EBlocked i))
      else (l\<lparr>ewriters := inc32 (ewriters l), ewriters_waiting := dec32 (ewriters_waiting l)\<rparr>, EEntered))"

definition event_wrlock :: "erwlock \<Rightarrow> erwlock \<times> epc" where
  "event_wrlock l = event_wrlock_loop (l\<lparr>ewriters_waiting := inc32 (ewriters_waiting l)\<rparr>)"

definition event_wrlock_resume :: "nat \<Rightarrow> erwlock \<Rightarrow> erwlock \<times> epc" where
  "event_wrlock_resume i l = event_wrlock_loop (l\<lparr>mycond_writers := cond_wait_end i (mycond_writers l)\<rparr>)"

definition event_unlock :: "erwlock \<Rightarrow> erwlock" where
  "event_unlock l =
     (if ereaders l \<noteq> 0
      then let l = l\<lparr>ereaders := dec32 (ereaders l)\<rparr>
           in if ewriters_waiting l > 0 \<and> ereaders l = 0
              then l\<lparr>mycond_writers := mypthread_cond_signal (mycond_writers l)\<rparr>
              else if ereaders_waiting l > 0 \<and> ewriters l = 0
              then l\<lparr>mycond_readers := mypthread_cond_broadcast (mycond_readers l)\<rparr>
              else l
      else let l = l\<lparr>ewriters := dec32 (ewriters l)\<rparr>
           in if ewriters_waiting l > 0 \<and> ereaders l = 0
              then l\<lparr>mycond_writers := mypthread_cond_signal (mycond_writers l)\<rparr>
              else if ereaders_waiting l > 0 \<and> ewriters l = 0
              then l\<lparr>mycond_readers := mypthread_cond_broadcast (mycond_readers l)\<rparr>
              else l)"

section \<open>The workers\<close>

record esys =
  elk :: erwlock
  epc_of :: "nat \<Rightarrow> epc"
  eleft :: "nat \<Rightarrow> nat"
  eg_readers :: nat
  eg_writers :: nat

definition e_goto :: "nat \<Rightarrow> erwlock \<times> epc \<Rightarrow> esys \<Rightarrow> esys" where
  "e_goto t r s = s\<lparr>elk := fst r, epc_of := (epc_of s)(t := snd r)\<rparr>"

definition e_read :: "nat \<Rightarrow> nat \<Rightarrow> erwlock \<Rightarrow> erwlock option" where
  "e_read t i l =
     (if is_reader t
      then map_option (\<lambda>c. l\<lparr>mycond_readers := c\<rparr>) (cond_wait_read i (mycond_readers l))
      else map_option (\<lambda>c. l\<lparr>mycond_writers := c\<rparr>) (cond_wait_read i (mycond_writers l)))"

definition event_worker :: "nat \<Rightarrow> esys \<Rightarrow> esys option" where
  "event_worker t s =
     (case epc_of s t of
        EAtLoop \<Rightarrow>
          if eleft s t = 0 then None
          else Some (e_goto t (if is_reader t then event_rdlock (elk s) else event_wrlock (elk s)) s)
      | EBlocked i \<Rightarrow> map_option (\<lambda>l. e_goto t (l, EWoken i) s) (e_read t i (elk s))
      | EWoken i \<Rightarrow>
          Some (e_goto t (if is_reader t then event_rdlock_resume i (elk s) else event_wrlock_resume i (elk s)) s)
      | EEntered \<Rightarrow>
          Some (e_goto t (elk s,
            if is_reader t then (if eg_writers s = 0 then EChecked else EAssertFailed)
            else (if eg_readers s = 0 then EHalfChecked else EAssertFailed)) s)
      | EHalfChecked \<Rightarrow> Some (e_goto t (elk s, if eg_writers s = 0 then EChecked else EAssertFailed) s)
      | EChecked \<Rightarrow>
          Some (e_goto t (elk s, EInside)
            (if is_reader t then s\<lparr>eg_readers := inc32 (eg_readers s)\<rparr> else s\<lparr>eg_writers := inc32 (eg_writers s)\<rparr>))
      | EInside \<Rightarrow>
          Some (e_goto t (elk s, ELeaving)
            (if is_reader t then s\<lparr>eg_readers := dec32 (eg_readers s)\<rparr> else s\<lparr>eg_writers := dec32 (eg_writers s)\<rparr>))
      | ELeaving \<Rightarrow> Some ((e_goto t (event_unlock (elk s), EAtLoop) s)\<lparr>eleft := (eleft s)(t := eleft s t - 1)\<rparr>)
      | EAssertFailed \<Rightarrow> None)"

inductive event_step :: "nat \<Rightarrow> esys \<Rightarrow> nat \<Rightarrow> esys \<Rightarrow> bool" for n where
  "t < n \<Longrightarrow> event_worker t s = Some s' \<Longrightarrow> event_step n s t s'"

definition event_start :: "nat \<Rightarrow> esys" where
  "event_start loops = \<lparr>elk = event_rwlock_init, epc_of = (\<lambda>_. EAtLoop), eleft = (\<lambda>_. loops), eg_readers = 0, eg_writers = 0\<rparr>"

section \<open>The invariant\<close>

definition e_holds :: "epc \<Rightarrow> bool" where
  "e_holds p \<longleftrightarrow> p \<in> {EEntered, EHalfChecked, EChecked, EInside, ELeaving}"

fun e_slot :: "epc \<Rightarrow> nat option" where
  "e_slot (EBlocked i) = Some i"
| "e_slot (EWoken i) = Some i"
| "e_slot _ = None"

definition e_waits :: "epc \<Rightarrow> bool" where
  "e_waits p \<longleftrightarrow> e_slot p \<noteq> None"

abbreviation erole :: "bool \<Rightarrow> (epc \<Rightarrow> bool) \<Rightarrow> nat \<Rightarrow> epc \<Rightarrow> bool" where
  "erole r Q \<equiv> \<lambda>t p. is_reader t = r \<and> Q p"

text \<open>The parts of the lock that belong to one role.\<close>

definition econd :: "bool \<Rightarrow> erwlock \<Rightarrow> mypthread_cond_t" where
  "econd r l = (if r then mycond_readers l else mycond_writers l)"

definition eholders :: "bool \<Rightarrow> erwlock \<Rightarrow> nat" where
  "eholders r l = (if r then ereaders l else ewriters l)"

definition ewaiters :: "bool \<Rightarrow> erwlock \<Rightarrow> nat" where
  "ewaiters r l = (if r then ereaders_waiting l else ewriters_waiting l)"

definition eguests :: "bool \<Rightarrow> esys \<Rightarrow> nat" where
  "eguests r s = (if r then eg_readers s else eg_writers s)"

definition e_counts :: "nat \<Rightarrow> esys \<Rightarrow> bool" where
  "e_counts n s \<longleftrightarrow> (\<forall>r.
     eholders r (elk s) = cnt n (erole r e_holds) (epc_of s) \<and>
     ewaiters r (elk s) = cnt n (erole r e_waits) (epc_of s) \<and>
     eguests r s = cnt n (erole r (\<lambda>p. p = EInside)) (epc_of s))"

definition e_slots :: "nat \<Rightarrow> erwlock \<Rightarrow> (nat \<Rightarrow> epc) \<Rightarrow> bool" where
  "e_slots n l p \<longleftrightarrow> (\<forall>r. cond_ok (econd r l)) \<and>
     (\<forall>r i. i < MAX_FD \<longrightarrow> (cwaiting (econd r l) ! i \<longleftrightarrow> (\<exists>t < n. is_reader t = r \<and> e_slot (p t) = Some i))) \<and>
     (\<forall>t i. t < n \<longrightarrow> e_slot (p t) = Some i \<longrightarrow> i < MAX_FD) \<and>
     (\<forall>t u i. t < n \<longrightarrow> u < n \<longrightarrow> is_reader t = is_reader u \<longrightarrow> e_slot (p t) = Some i \<longrightarrow> e_slot (p u) = Some i \<longrightarrow> t = u)"

definition e_exclusive :: "erwlock \<Rightarrow> bool" where
  "e_exclusive l \<longleftrightarrow> ewriters l = 0 \<or> ewriters l = 1 \<and> ereaders l = 0"

text \<open>A waiting thread that will go on by itself.\<close>

fun e_awake :: "mypthread_cond_t \<Rightarrow> epc \<Rightarrow> bool" where
  "e_awake c (EWoken i) \<longleftrightarrow> True"
| "e_awake c (EBlocked i) \<longleftrightarrow> efd c ! i > 0"
| "e_awake c _ \<longleftrightarrow> False"

definition e_wakes :: "nat \<Rightarrow> erwlock \<Rightarrow> (nat \<Rightarrow> epc) \<Rightarrow> bool" where
  "e_wakes n l p \<longleftrightarrow> (ereaders l = 0 \<and> ewriters l = 0 \<longrightarrow>
     (if ewriters_waiting l > 0 then \<exists>t < n. \<not> is_reader t \<and> e_awake (mycond_writers l) (p t)
      else \<forall>t < n. is_reader t \<and> e_waits (p t) \<longrightarrow> e_awake (mycond_readers l) (p t)))"

definition e_points :: "nat \<Rightarrow> esys \<Rightarrow> bool" where
  "e_points n s \<longleftrightarrow> (\<forall>t < n. epc_of s t \<noteq> EAssertFailed \<and> (epc_of s t = EHalfChecked \<longrightarrow> \<not> is_reader t) \<and>
     (epc_of s t \<noteq> EAtLoop \<longrightarrow> 0 < eleft s t))"

definition e_inv :: "nat \<Rightarrow> esys \<Rightarrow> bool" where
  "e_inv n s \<longleftrightarrow> e_counts n s \<and> e_slots n (elk s) (epc_of s) \<and> e_exclusive (elk s) \<and>
     e_wakes n (elk s) (epc_of s) \<and> e_points n s"

lemmas role_defs = econd_def eholders_def ewaiters_def eguests_def

lemma e_points_at [simp]:
  "\<not> e_holds EAtLoop" "\<not> e_holds (EBlocked i)" "\<not> e_holds (EWoken i)" "e_holds EEntered" "e_holds EHalfChecked" "e_holds EChecked"
  "e_holds EInside" "e_holds ELeaving" "\<not> e_waits EAtLoop" "e_waits (EBlocked i)" "e_waits (EWoken i)" "\<not> e_waits EEntered"
  "\<not> e_waits EHalfChecked" "\<not> e_waits EChecked" "\<not> e_waits EInside" "\<not> e_waits ELeaving"
  by (simp_all add: e_holds_def e_waits_def)

lemma e_counts_upd:
  assumes "t < n" and "e_counts n s" and "epc_of s' = (epc_of s)(t := v)"
  shows "e_counts n s' \<longleftrightarrow> (\<forall>r.
    eholders r (elk s') + of_bool (is_reader t = r \<and> e_holds (epc_of s t)) =
      eholders r (elk s) + of_bool (is_reader t = r \<and> e_holds v) \<and>
    ewaiters r (elk s') + of_bool (is_reader t = r \<and> e_waits (epc_of s t)) =
      ewaiters r (elk s) + of_bool (is_reader t = r \<and> e_waits v) \<and>
    eguests r s' + of_bool (is_reader t = r \<and> epc_of s t = EInside) =
      eguests r s + of_bool (is_reader t = r \<and> v = EInside))"
proof -
  have iff: "x = cnt n (erole r Q) ((epc_of s)(t := v)) \<longleftrightarrow>
      x + of_bool (is_reader t = r \<and> Q (epc_of s t)) = a + of_bool (is_reader t = r \<and> Q v)"
    if "a = cnt n (erole r Q) (epc_of s)" for x a r Q
    using that cnt_upd [OF assms(1), where P = "erole r Q" and p = "epc_of s" and v = v] by linarith
  show ?thesis
    using assms(2) unfolding e_counts_def assms(3) by (intro all_cong1 conj_cong iff) blast+
qed

lemma e_counts_thread:
  assumes "e_counts n s" and "t < n"
  shows "\<not> e_holds (epc_of s t) \<Longrightarrow> eholders (is_reader t) (elk s) < n"
    and "e_holds (epc_of s t) \<Longrightarrow> 0 < eholders (is_reader t) (elk s)"
    and "\<not> e_waits (epc_of s t) \<Longrightarrow> ewaiters (is_reader t) (elk s) < n"
    and "e_waits (epc_of s t) \<Longrightarrow> 0 < ewaiters (is_reader t) (elk s)"
    and "epc_of s t \<noteq> EInside \<Longrightarrow> eguests (is_reader t) s < n"
    and "epc_of s t = EInside \<Longrightarrow> 0 < eguests (is_reader t) s"
  using assms unfolding e_counts_def by (auto simp: cnt_pos intro!: cnt_less_n)

lemma e_counts_le:
  assumes "e_counts n s"
  shows "eholders r (elk s) \<le> n" "ewaiters r (elk s) \<le> n" "eguests r s \<le> n"
  using assms by (simp_all add: e_counts_def cnt_le)

section \<open>Slots\<close>

lemma e_slotsD:
  assumes "e_slots n l p"
  shows "cond_ok (econd r l)"
    and "i < MAX_FD \<Longrightarrow> cwaiting (econd r l) ! i \<longleftrightarrow> (\<exists>t < n. is_reader t = r \<and> e_slot (p t) = Some i)"
    and "t < n \<Longrightarrow> e_slot (p t) = Some i \<Longrightarrow> i < MAX_FD"
    and "t < n \<Longrightarrow> u < n \<Longrightarrow> is_reader t = is_reader u \<Longrightarrow> e_slot (p t) = Some i \<Longrightarrow> e_slot (p u) = Some i \<Longrightarrow> t = u"
proof -
  note s = assms [unfolded e_slots_def]
  note s1 = conjunct1 [OF s] and s' = conjunct2 [OF s]
  note s2 = conjunct1 [OF s'] and s34 = conjunct2 [OF s']
  note s3 = conjunct1 [OF s34] and s4 = conjunct2 [OF s34]
  show "cond_ok (econd r l)"
    by (rule s1 [rule_format])
  show "i < MAX_FD \<Longrightarrow> cwaiting (econd r l) ! i \<longleftrightarrow> (\<exists>t < n. is_reader t = r \<and> e_slot (p t) = Some i)"
    by (rule s2 [rule_format])
  show "t < n \<Longrightarrow> e_slot (p t) = Some i \<Longrightarrow> i < MAX_FD"
    by (rule s3 [rule_format])
  show "t < n \<Longrightarrow> u < n \<Longrightarrow> is_reader t = is_reader u \<Longrightarrow> e_slot (p t) = Some i \<Longrightarrow> e_slot (p u) = Some i \<Longrightarrow> t = u"
    by (rule s4 [rule_format])
qed

lemma e_slotsI:
  assumes "\<And>r. cond_ok (econd r l)"
    and "\<And>r i. i < MAX_FD \<Longrightarrow> cwaiting (econd r l) ! i \<longleftrightarrow> (\<exists>t < n. is_reader t = r \<and> e_slot (p t) = Some i)"
    and "\<And>t i. t < n \<Longrightarrow> e_slot (p t) = Some i \<Longrightarrow> i < MAX_FD"
    and "\<And>t u i. t < n \<Longrightarrow> u < n \<Longrightarrow> is_reader t = is_reader u \<Longrightarrow> e_slot (p t) = Some i \<Longrightarrow> e_slot (p u) = Some i \<Longrightarrow> t = u"
  shows "e_slots n l p"
  unfolding e_slots_def by (intro conjI allI impI) (rule assms(1), erule assms(2), erule (1) assms(3), erule (4) assms(4))

lemma e_slots_cong:
  assumes "e_slots n l p" and "\<And>u. e_slot (p' u) = e_slot (p u)"
    and "\<And>r. cond_ok (econd r l')" and "\<And>r. cwaiting (econd r l') = cwaiting (econd r l)"
  shows "e_slots n l' p'"
proof (rule e_slotsI)
  show "cond_ok (econd r l')" for r
    by (rule assms(3))
  show "cwaiting (econd r l') ! i \<longleftrightarrow> (\<exists>t < n. is_reader t = r \<and> e_slot (p' t) = Some i)" if "i < MAX_FD" for r i
    unfolding assms(2,4) by (rule e_slotsD(2) [OF assms(1) that])
  show "i < MAX_FD" if "t < n" "e_slot (p' t) = Some i" for t i
    using that unfolding assms(2) by (rule e_slotsD(3) [OF assms(1)])
  show "t = u" if "t < n" "u < n" "is_reader t = is_reader u" "e_slot (p' t) = Some i" "e_slot (p' u) = Some i" for t u i
    using that unfolding assms(2) by (rule e_slotsD(4) [OF assms(1)])
qed

lemma slot_upd:
  "t < n \<Longrightarrow> (\<exists>u < n. is_reader u = r \<and> e_slot ((p(t := v)) u) = Some j) \<longleftrightarrow>
    is_reader t = r \<and> e_slot v = Some j \<or> (\<exists>u < n. u \<noteq> t \<and> is_reader u = r \<and> e_slot (p u) = Some j)"
  by (rule iffI) (auto split: if_splits)

lemma nth_set_False: "j < length xs \<Longrightarrow> xs[i := False] ! j \<longleftrightarrow> j \<noteq> i \<and> xs ! j"
  by (cases "j = i") auto

lemma econd_other: "econd (\<not> r) l' = econd (\<not> r) l \<Longrightarrow> r' \<noteq> r \<Longrightarrow> econd r' l' = econd r' l"
  by (cases r; cases r') simp_all

lemma e_slots_take:
  assumes s: "e_slots n l p" and t: "t < n" "e_slot (p t) = None"
    and c: "cond_wait_begin (econd (is_reader t) l) = Some (i, c)"
    and l': "econd (is_reader t) l' = c" "econd (\<not> is_reader t) l' = econd (\<not> is_reader t) l"
  shows "e_slots n l' (p(t := EBlocked i))"
proof -
  note b = cond_wait_beginD [OF c]
  have i: "i < MAX_FD"
    using b(1) e_slotsD(1) [OF s] by (simp add: cond_ok_def)
  have free: "e_slot (p u) \<noteq> Some i" if "u < n" "is_reader u = is_reader t" for u
    using e_slotsD(2) [OF s i] b(2) that by blast
  show ?thesis
  proof (rule e_slotsI)
    fix r
    show "cond_ok (econd r l')"
      using cond_ok_ops(4) [OF e_slotsD(1) [OF s] c] e_slotsD(1) [OF s] l'(1) econd_other [OF l'(2), of r]
      by (cases "r = is_reader t") auto
  next
    fix r j
    assume j: "j < MAX_FD"
    have "cwaiting (econd r l') ! j \<longleftrightarrow> r = is_reader t \<and> j = i \<or> cwaiting (econd r l) ! j"
      using l'(1) b(1,3) econd_other [OF l'(2), of r] by (cases "r = is_reader t") (auto simp: nth_list_update)
    also have "\<dots> \<longleftrightarrow> (\<exists>u < n. is_reader u = r \<and> e_slot ((p(t := EBlocked i)) u) = Some j)"
    proof -
      have "u \<noteq> t" if "e_slot (p u) = Some j" for u
        using that t(2) by auto
      then show ?thesis
        unfolding e_slotsD(2) [OF s j] slot_upd [OF t(1)] e_slot.simps option.inject by blast
    qed
    finally show "cwaiting (econd r l') ! j \<longleftrightarrow> (\<exists>u < n. is_reader u = r \<and> e_slot ((p(t := EBlocked i)) u) = Some j)" .
  next
    fix u j
    assume "u < n" "e_slot ((p(t := EBlocked i)) u) = Some j"
    then show "j < MAX_FD"
      using e_slotsD(3) [OF s] i by (cases "u = t") auto
  next
    fix u v j
    assume "u < n" "v < n" "is_reader u = is_reader v" "e_slot ((p(t := EBlocked i)) u) = Some j"
      "e_slot ((p(t := EBlocked i)) v) = Some j"
    then show "u = v"
      using e_slotsD(4) [OF s, of u v j] free [of u] free [of v] by (cases "u = t"; cases "v = t") auto
  qed
qed

lemma e_slots_leave:
  assumes s: "e_slots n l p" and t: "t < n" "e_slot (p t) = Some i"
    and l': "econd (is_reader t) l' = cond_wait_end i (econd (is_reader t) l)" "econd (\<not> is_reader t) l' = econd (\<not> is_reader t) l"
  shows "e_slots n l' (p(t := EAtLoop))"
proof (rule e_slotsI)
  fix r
  show "cond_ok (econd r l')"
    using cond_ok_ops(6) [OF e_slotsD(1) [OF s]] e_slotsD(1) [OF s] l'(1) econd_other [OF l'(2), of r]
    by (cases "r = is_reader t") auto
next
  fix r j
  assume j: "j < MAX_FD"
  have "length (cwaiting (econd r l)) = MAX_FD"
    using e_slotsD(1) [OF s] by (simp add: cond_ok_def)
  then have "cwaiting (econd r l') ! j \<longleftrightarrow> \<not> (r = is_reader t \<and> j = i) \<and> cwaiting (econd r l) ! j"
    using l'(1) j econd_other [OF l'(2), of r]
    by (cases "r = is_reader t") (simp_all add: nth_set_False)
  also have "\<dots> \<longleftrightarrow> (\<exists>u < n. is_reader u = r \<and> e_slot ((p(t := EAtLoop)) u) = Some j)"
  proof -
    have "u \<noteq> t \<longleftrightarrow> \<not> (r = is_reader t \<and> j = i)" if "u < n" "is_reader u = r" "e_slot (p u) = Some j" for u
      using that t e_slotsD(4) [OF s that(1) t(1) _ _ t(2)] by auto
    then show ?thesis
      unfolding e_slotsD(2) [OF s j] slot_upd [OF t(1)] e_slot.simps by blast
  qed
  finally show "cwaiting (econd r l') ! j \<longleftrightarrow> (\<exists>u < n. is_reader u = r \<and> e_slot ((p(t := EAtLoop)) u) = Some j)" .
next
  fix u j
  assume "u < n" "e_slot ((p(t := EAtLoop)) u) = Some j"
  then show "j < MAX_FD"
    using e_slotsD(3) [OF s] by (cases "u = t") auto
next
  fix u v j
  assume "u < n" "v < n" "is_reader u = is_reader v" "e_slot ((p(t := EAtLoop)) u) = Some j"
    "e_slot ((p(t := EAtLoop)) v) = Some j"
  then show "u = v"
    using e_slotsD(4) [OF s, of u v j] by (cases "u = t"; cases "v = t") auto
qed

text \<open>With at most two hundred workers a slot is left for every one that wants to wait.\<close>

lemma role_card: "n \<le> 2 * MAX_FD \<Longrightarrow> card {t. t < n \<and> is_reader t = r} \<le> MAX_FD"
proof -
  assume n: "n \<le> 2 * MAX_FD"
  have "{t. t < n \<and> is_reader t = r} \<subseteq> (\<lambda>k. 2 * k + (if r then 0 else 1)) ` {..<MAX_FD}"
  proof
    fix t
    assume "t \<in> {t. t < n \<and> is_reader t = r}"
    then have "t = 2 * (t div 2) + (if r then 0 else 1)" "t div 2 < MAX_FD"
      using n by (auto simp: is_reader_def) presburger
    then show "t \<in> (\<lambda>k. 2 * k + (if r then 0 else 1)) ` {..<MAX_FD}"
      by blast
  qed
  then have "card {t. t < n \<and> is_reader t = r} \<le> card ((\<lambda>k. 2 * k + (if r then 0 else 1)) ` {..<MAX_FD})"
    by (intro card_mono) auto
  also have "\<dots> \<le> MAX_FD"
    by (rule order_trans [OF card_image_le]) auto
  finally show ?thesis .
qed

lemma slot_left:
  assumes "e_slots n l p" and "t < n" and "e_slot (p t) = None" and "n \<le> 2 * MAX_FD"
  shows "cond_wait_begin (econd (is_reader t) l) \<noteq> None"
proof
  let ?T = "{u. u < n \<and> is_reader u = is_reader t}"
  assume "cond_wait_begin (econd (is_reader t) l) = None"
  then have full: "cwaiting (econd (is_reader t) l) ! i" if "i < MAX_FD" for i
    using that e_slotsD(1) [OF assms(1)] by (simp add: cond_wait_begin_None cond_ok_def)
  have "\<exists>u \<in> ?T - {t}. Some i = e_slot (p u)" if i: "i < MAX_FD" for i
  proof -
    obtain u where u: "u < n" "is_reader u = is_reader t" "e_slot (p u) = Some i"
      using full [OF i] unfolding e_slotsD(2) [OF assms(1) i] by blast
    then have "u \<noteq> t"
      using assms(3) by auto
    then show ?thesis
      using u by (intro bexI [of _ u]) simp_all
  qed
  then have "Some ` {..<MAX_FD} \<subseteq> (\<lambda>u. e_slot (p u)) ` (?T - {t})"
    by (intro image_subsetI) (simp add: image_iff)
  then have "card (Some ` {..<MAX_FD}) \<le> card ((\<lambda>u. e_slot (p u)) ` (?T - {t}))"
    by (intro card_mono) auto
  also have "\<dots> \<le> card (?T - {t})"
    by (rule card_image_le) auto
  also have "\<dots> < card ?T"
    using assms(2) by (intro card_Diff1_less) auto
  finally show False
    using role_card [OF assms(4), of "is_reader t"] by (simp add: card_image)
qed

section \<open>Taking the lock\<close>

definition must_wait :: "bool \<Rightarrow> erwlock \<Rightarrow> bool" where
  "must_wait r l \<longleftrightarrow> 0 < ewriters l \<or> 0 < (if r then ewriters_waiting l else ereaders l)"

definition event_loop :: "bool \<Rightarrow> erwlock \<Rightarrow> erwlock \<times> epc" where
  "event_loop r l = (if r then event_rdlock_loop l else event_wrlock_loop l)"

lemma event_loop_waits:
  assumes "must_wait r l" and "cond_wait_begin (econd r l) = Some (i, c)"
  shows "snd (event_loop r l) = EBlocked i" and "econd r (fst (event_loop r l)) = c"
    and "econd (\<not> r) (fst (event_loop r l)) = econd (\<not> r) l"
    and "eholders q (fst (event_loop r l)) = eholders q l" and "ewaiters q (fst (event_loop r l)) = ewaiters q l"
  by (use assms in \<open>cases r; force simp: must_wait_def event_loop_def event_rdlock_loop_def event_wrlock_loop_def role_defs\<close>)+

lemma event_loop_enters:
  assumes "\<not> must_wait r l"
  shows "snd (event_loop r l) = EEntered" and "econd q (fst (event_loop r l)) = econd q l"
    and "eholders q (fst (event_loop r l)) = (if q = r then inc32 (eholders q l) else eholders q l)"
    and "ewaiters q (fst (event_loop r l)) = (if q = r then dec32 (ewaiters q l) else ewaiters q l)"
  by (use assms in \<open>cases r; force simp: must_wait_def event_loop_def event_rdlock_loop_def event_wrlock_loop_def role_defs\<close>)+

lemma lock_roles:
  "ereaders l = eholders True l" "ewriters l = eholders False l" "ereaders_waiting l = ewaiters True l"
  "ewriters_waiting l = ewaiters False l" "mycond_readers l = econd True l" "mycond_writers l = econd False l"
  by (simp_all add: role_defs)

lemma e_awake_cong: "efd c = efd c' \<Longrightarrow> e_awake c p \<longleftrightarrow> e_awake c' p"
  by (cases p) simp_all

lemma e_wakes_busy: "0 < eholders r l \<Longrightarrow> e_wakes n l p"
  by (cases r) (simp_all add: e_wakes_def role_defs)

lemma e_wakesD:
  assumes "e_wakes n l p" and "\<And>r. eholders r l = 0"
  shows "0 < ewaiters False l \<Longrightarrow> \<exists>t < n. \<not> is_reader t \<and> e_awake (econd False l) (p t)"
    and "ewaiters False l = 0 \<Longrightarrow> t < n \<Longrightarrow> is_reader t \<Longrightarrow> e_waits (p t) \<Longrightarrow> e_awake (econd True l) (p t)"
  using assms unfolding e_wakes_def lock_roles by auto

lemma e_wakes_writer: "u < n \<Longrightarrow> \<not> is_reader u \<Longrightarrow> e_awake (econd False l) (p u) \<Longrightarrow> 0 < ewaiters False l \<Longrightarrow> e_wakes n l p"
  unfolding e_wakes_def lock_roles by auto

text \<open>
  The state between the first action of a thread that wants the lock (count itself, or give its slot back) and the test of
  the loop.
\<close>

definition e_mid :: "nat \<Rightarrow> nat \<Rightarrow> erwlock \<Rightarrow> esys \<Rightarrow> bool" where
  "e_mid n t l s \<longleftrightarrow> e_slots n l ((epc_of s)(t := EAtLoop)) \<and> \<not> e_holds (epc_of s t) \<and> 0 < eleft s t \<and>
     (\<forall>q. eholders q l = eholders q (elk s) \<and> efd (econd q l) = efd (econd q (elk s)) \<and>
        ewaiters q l + of_bool (is_reader t = q \<and> e_waits (epc_of s t)) = ewaiters q (elk s) + of_bool (is_reader t = q))"

lemma e_midD:
  assumes "e_mid n t l s"
  shows "e_slots n l ((epc_of s)(t := EAtLoop))" "\<not> e_holds (epc_of s t)" "0 < eleft s t"
    and "eholders q l = eholders q (elk s)" "efd (econd q l) = efd (econd q (elk s))"
    and "ewaiters q l + of_bool (is_reader t = q \<and> e_waits (epc_of s t)) = ewaiters q (elk s) + of_bool (is_reader t = q)"
proof -
  note m = assms [unfolded e_mid_def]
  note q = conjunct2 [OF conjunct2 [OF conjunct2 [OF m]], THEN spec [of _ q]]
  show "e_slots n l ((epc_of s)(t := EAtLoop))" "\<not> e_holds (epc_of s t)" "0 < eleft s t"
    using m by blast+
  show "eholders q l = eholders q (elk s)" "efd (econd q l) = efd (econd q (elk s))"
    "ewaiters q l + of_bool (is_reader t = q \<and> e_waits (epc_of s t)) = ewaiters q (elk s) + of_bool (is_reader t = q)"
    using q by blast+
qed

lemma e_goto_simps [simp]:
  "elk (e_goto t r s) = fst r" "epc_of (e_goto t r s) = (epc_of s)(t := snd r)" "eleft (e_goto t r s) = eleft s"
  "eguests q (e_goto t r s) = eguests q s"
  by (simp_all add: e_goto_def eguests_def)

lemma e_points_upd:
  "e_points n s \<Longrightarrow> epc_of s' = (epc_of s)(t := v) \<Longrightarrow> eleft s' = eleft s \<Longrightarrow> v \<noteq> EAssertFailed \<Longrightarrow>
    (v = EHalfChecked \<longrightarrow> \<not> is_reader t) \<Longrightarrow> 0 < eleft s t \<Longrightarrow> e_points n s'"
  unfolding e_points_def by (auto split: if_splits)

lemma e_invD:
  assumes "e_inv n s"
  shows "e_counts n s" "e_slots n (elk s) (epc_of s)" "e_exclusive (elk s)" "e_wakes n (elk s) (epc_of s)" "e_points n s"
  using assms by (simp_all add: e_inv_def)

lemma e_wait_inv:
  assumes inv: "e_inv n s" and t: "t < n" and mid: "e_mid n t l s" and n: "n \<le> 2 * MAX_FD"
    and wait: "must_wait (is_reader t) l"
  shows "e_inv n (e_goto t (event_loop (is_reader t) l) s)"
proof -
  note m = e_midD [OF mid]
  obtain i c where c: "cond_wait_begin (econd (is_reader t) l) = Some (i, c)"
    using slot_left [OF m(1) t _ n] by auto
  note L = event_loop_waits [OF wait c]
  let ?s = "e_goto t (event_loop (is_reader t) l) s"
  have "e_counts n ?s"
    unfolding e_counts_upd [OF t e_invD(1) [OF inv] e_goto_simps(2)]
  proof (intro allI conjI)
    fix r
    show "ewaiters r (elk ?s) + of_bool (is_reader t = r \<and> e_waits (epc_of s t)) =
        ewaiters r (elk s) + of_bool (is_reader t = r \<and> e_waits (snd (event_loop (is_reader t) l)))"
      using m(6) [of r] by (simp add: L)
  qed (use m(2) in \<open>auto simp: L m(4) e_holds_def\<close>)
  moreover have "e_slots n (elk ?s) (epc_of ?s)"
    using e_slots_take [OF m(1) t _ c L(2,3)] by (simp add: L)
  moreover have "e_exclusive (elk ?s)"
    using e_invD(3) [OF inv] by (simp add: e_exclusive_def lock_roles L m(4))
  moreover have "e_points n ?s"
    by (rule e_points_upd [OF e_invD(5) [OF inv] e_goto_simps(2,3)]) (simp_all add: L m(3))
  moreover have "e_wakes n (elk ?s) (epc_of ?s)"
  proof (cases "\<exists>q. 0 < eholders q l")
    case True
    then obtain q where "0 < eholders q l" ..
    then show ?thesis
      by (intro e_wakes_busy [of q]) (simp add: L(4))
  next
    case False
    then have r: "is_reader t" and w: "0 < ewaiters False l"
      using wait by (auto simp: must_wait_def lock_roles split: if_splits)
    have "0 < ewaiters False (elk s)"
      using m(6) [of False] r w by simp
    then obtain u where u: "u < n" "\<not> is_reader u" "e_awake (econd False (elk s)) (epc_of s u)"
      using e_wakesD(1) [OF e_invD(4) [OF inv]] False m(4) by auto
    have "efd (econd False (elk ?s)) = efd (econd False (elk s))"
      using L(3) m(5) r by simp
    moreover have "u \<noteq> t"
      using u(2) r by blast
    ultimately have "e_awake (econd False (elk ?s)) (epc_of ?s u)"
      using u(3) e_awake_cong [of "econd False (elk ?s)" "econd False (elk s)" "epc_of s u"] by simp
    then show ?thesis
      by (rule e_wakes_writer [OF u(1,2)]) (simp add: L(5) w)
  qed
  ultimately show ?thesis
    by (simp add: e_inv_def)
qed

lemma e_enter_inv:
  assumes inv: "e_inv n s" and t: "t < n" and mid: "e_mid n t l s" and n: "n \<le> 2 * MAX_FD"
    and free: "\<not> must_wait (is_reader t) l"
  shows "e_inv n (e_goto t (event_loop (is_reader t) l) s)"
proof -
  note m = e_midD [OF mid]
  note L = event_loop_enters [OF free]
  let ?r = "is_reader t"
  let ?s = "e_goto t (event_loop ?r l) s"
  have small: "n < 2 ^ 32 - 1"
    using n by (simp add: MAX_FD_def)
  have "eholders ?r l < 2 ^ 32 - 1" "ewaiters ?r l < 2 ^ 32" "0 < ewaiters ?r l"
    using m(4,6) [of ?r] e_counts_le [OF e_invD(1) [OF inv], of ?r] e_counts_thread(4) [OF e_invD(1) [OF inv] t] small
    by (auto split: if_splits simp: of_bool_def)
  then have H: "eholders ?r (elk ?s) = Suc (eholders ?r l)" and W: "Suc (ewaiters ?r (elk ?s)) = ewaiters ?r l"
    using L(3,4) [of ?r] by simp_all
  have "e_counts n ?s"
    unfolding e_counts_upd [OF t e_invD(1) [OF inv] e_goto_simps(2)]
  proof (intro allI conjI)
    fix r
    show "eholders r (elk ?s) + of_bool (?r = r \<and> e_holds (epc_of s t)) =
        eholders r (elk s) + of_bool (?r = r \<and> e_holds (snd (event_loop ?r l)))"
      using H m(2,4) L(1,3) by (cases "?r = r") auto
    show "ewaiters r (elk ?s) + of_bool (?r = r \<and> e_waits (epc_of s t)) =
        ewaiters r (elk s) + of_bool (?r = r \<and> e_waits (snd (event_loop ?r l)))"
      using W m(6) [of r] L(1,4) by (cases "?r = r") auto
  qed (use m(2) L(1) in \<open>auto simp: e_holds_def\<close>)
  moreover have "e_slots n (elk ?s) (epc_of ?s)"
    by (rule e_slots_cong [OF m(1)]) (simp_all add: L e_slotsD(1) [OF m(1)])
  moreover have "e_exclusive (elk ?s)"
    using e_invD(3) [OF inv] free H L(3) m(4) by (cases ?r) (auto simp: e_exclusive_def lock_roles must_wait_def)
  moreover have "e_points n ?s"
    by (rule e_points_upd [OF e_invD(5) [OF inv] e_goto_simps(2,3)]) (simp_all add: L m(3))
  moreover have "e_wakes n (elk ?s) (epc_of ?s)"
    by (rule e_wakes_busy [of ?r]) (use H in linarith)
  ultimately show ?thesis
    by (simp add: e_inv_def)
qed

text \<open>The first action of a thread that comes for the lock, and of one that has read its token.\<close>

definition e_queue :: "bool \<Rightarrow> erwlock \<Rightarrow> erwlock" where
  "e_queue r l = (if r then l\<lparr>ereaders_waiting := inc32 (ereaders_waiting l)\<rparr> else l\<lparr>ewriters_waiting := inc32 (ewriters_waiting l)\<rparr>)"

definition e_return :: "bool \<Rightarrow> nat \<Rightarrow> erwlock \<Rightarrow> erwlock" where
  "e_return r i l = (if r then l\<lparr>mycond_readers := cond_wait_end i (mycond_readers l)\<rparr>
     else l\<lparr>mycond_writers := cond_wait_end i (mycond_writers l)\<rparr>)"

lemma event_lock_loop:
  "(if r then event_rdlock l else event_wrlock l) = event_loop r (e_queue r l)"
  "(if r then event_rdlock_resume i l else event_wrlock_resume i l) = event_loop r (e_return r i l)"
  by (simp_all add: event_loop_def e_queue_def e_return_def event_rdlock_def event_wrlock_def event_rdlock_resume_def
      event_wrlock_resume_def)

lemma e_queue_roles:
  "econd q (e_queue r l) = econd q l" "eholders q (e_queue r l) = eholders q l"
  "ewaiters q (e_queue r l) = (if q = r then inc32 (ewaiters q l) else ewaiters q l)"
  by (cases r; cases q; simp add: e_queue_def role_defs)+

lemma e_return_roles:
  "econd q (e_return r i l) = (if q = r then cond_wait_end i (econd q l) else econd q l)"
  "eholders q (e_return r i l) = eholders q l" "ewaiters q (e_return r i l) = ewaiters q l"
  by (cases r; cases q; simp add: e_return_def role_defs)+

lemma e_queue_mid:
  assumes inv: "e_inv n s" and t: "t < n" and n: "n \<le> 2 * MAX_FD" and at: "epc_of s t = EAtLoop" and l: "0 < eleft s t"
  shows "e_mid n t (e_queue (is_reader t) (elk s)) s"
  unfolding e_mid_def
proof (intro conjI allI)
  show "e_slots n (e_queue (is_reader t) (elk s)) ((epc_of s)(t := EAtLoop))"
    using at by (intro e_slots_cong [OF e_invD(2) [OF inv]])
      (simp_all add: e_queue_roles e_slotsD(1) [OF e_invD(2) [OF inv]])
next
  fix q
  have "ewaiters (is_reader t) (elk s) < 2 ^ 32 - 1"
    using e_counts_le(2) [OF e_invD(1) [OF inv], of "is_reader t"] n by (simp add: MAX_FD_def)
  then show "ewaiters q (e_queue (is_reader t) (elk s)) + of_bool (is_reader t = q \<and> e_waits (epc_of s t)) =
      ewaiters q (elk s) + of_bool (is_reader t = q)"
    using at by (cases "is_reader t = q") (simp_all add: e_queue_roles)
qed (simp_all add: e_queue_roles at l)

lemma e_points_left: "e_points n s \<Longrightarrow> t < n \<Longrightarrow> epc_of s t \<noteq> EAtLoop \<Longrightarrow> 0 < eleft s t"
  by (simp add: e_points_def)

lemma e_return_mid:
  assumes inv: "e_inv n s" and t: "t < n" and at: "epc_of s t = EWoken i"
  shows "e_mid n t (e_return (is_reader t) i (elk s)) s"
  unfolding e_mid_def
proof (intro conjI allI)
  show "e_slots n (e_return (is_reader t) i (elk s)) ((epc_of s)(t := EAtLoop))"
    by (rule e_slots_leave [OF e_invD(2) [OF inv] t]) (simp_all add: at e_return_roles)
  show "0 < eleft s t"
    using e_points_left [OF e_invD(5) [OF inv] t] at by simp
qed (simp_all add: e_return_roles at)

lemma e_loop_inv:
  "e_inv n s \<Longrightarrow> t < n \<Longrightarrow> e_mid n t l s \<Longrightarrow> n \<le> 2 * MAX_FD \<Longrightarrow> e_inv n (e_goto t (event_loop (is_reader t) l) s)"
  by (cases "must_wait (is_reader t) l") (blast intro: e_wait_inv e_enter_inv)+

section \<open>Waiting for a token\<close>

lemma e_wakes_mono:
  assumes "e_wakes n l p" and "\<And>r. eholders r l' = eholders r l" and "\<And>r. ewaiters r l' = ewaiters r l"
    and "\<And>u. u < n \<Longrightarrow> e_waits (p' u) \<Longrightarrow> e_waits (p u)"
    and "\<And>u. u < n \<Longrightarrow> e_awake (econd (is_reader u) l) (p u) \<Longrightarrow> e_awake (econd (is_reader u) l') (p' u)"
  shows "e_wakes n l' p'"
proof (cases "\<exists>r. 0 < eholders r l")
  case True
  then show ?thesis
    using assms(2) e_wakes_busy by metis
next
  case False
  then have free: "eholders r l = 0" for r
    by simp
  show ?thesis
  proof (cases "0 < ewaiters False l")
    case True
    then obtain u where u: "u < n" "\<not> is_reader u" "e_awake (econd False l) (p u)"
      using e_wakesD(1) [OF assms(1) free] by blast
    then have "e_awake (econd False l') (p' u)"
      using assms(5) [OF u(1)] by simp
    then show ?thesis
      by (rule e_wakes_writer [OF u(1,2)]) (simp add: assms(3) True)
  next
    case False
    then have "e_awake (econd True l') (p' u)" if "u < n" "is_reader u" "e_waits (p' u)" for u
      using that assms(4,5) [OF that(1)] e_wakesD(2) [OF assms(1) free, of u] by simp
    then show ?thesis
      using False unfolding e_wakes_def lock_roles assms(3) by simp
  qed
qed

lemma e_readD:
  assumes "e_read t i l = Some l'"
  shows "0 < efd (econd (is_reader t) l) ! i"
    and "econd (is_reader t) l' = (econd (is_reader t) l)\<lparr>efd := (efd (econd (is_reader t) l))[i := 0]\<rparr>"
    and "econd (\<not> is_reader t) l' = econd (\<not> is_reader t) l" and "eholders q l' = eholders q l" and "ewaiters q l' = ewaiters q l"
  by (use assms in \<open>force simp: e_read_def cond_wait_read_def role_defs split: if_splits\<close>)+

lemma e_read_inv:
  assumes inv: "e_inv n s" and t: "t < n" and at: "epc_of s t = EBlocked i" and l: "e_read t i (elk s) = Some l"
  shows "e_inv n (e_goto t (l, EWoken i) s)"
proof -
  let ?s = "e_goto t (l, EWoken i) s"
  note R = e_readD [OF l] and s = e_invD(2) [OF inv]
  have cond: "cwaiting (econd r l) = cwaiting (econd r (elk s)) \<and> length (efd (econd r l)) = length (efd (econd r (elk s)))" for r
    using R(2) econd_other [OF R(3), of r] by (cases "r = is_reader t") simp_all
  have "e_counts n ?s"
    unfolding e_counts_upd [OF t e_invD(1) [OF inv] e_goto_simps(2)] by (simp add: R at)
  moreover have "e_slots n (elk ?s) (epc_of ?s)"
    using cond e_slotsD(1) [OF s] by (intro e_slots_cong [OF s]) (simp_all add: at cond_ok_def)
  moreover have "e_exclusive (elk ?s)"
    using e_invD(3) [OF inv] by (simp add: e_exclusive_def lock_roles R)
  moreover have "e_points n ?s"
    using e_points_left [OF e_invD(5) [OF inv] t] at
    by (intro e_points_upd [OF e_invD(5) [OF inv] e_goto_simps(2,3)]) simp_all
  moreover have "e_wakes n (elk ?s) (epc_of ?s)"
  proof (rule e_wakes_mono [OF e_invD(4) [OF inv]])
    fix u
    assume u: "u < n" "e_awake (econd (is_reader u) (elk s)) (epc_of s u)"
    show "e_awake (econd (is_reader u) (elk ?s)) (epc_of ?s u)"
    proof (cases "u \<noteq> t \<and> is_reader u = is_reader t")
      case True
      then have "e_slot (epc_of s u) \<noteq> Some i"
        using e_slotsD(4) [OF s u(1) t] at by auto
      then show ?thesis
        using True u(2) by (cases "epc_of s u") (simp_all add: R(2))
    next
      case False
      then show ?thesis
        using u(2) econd_other [OF R(3), of "is_reader u"] by (cases "u = t") simp_all
    qed
  qed (use at in \<open>auto simp: R split: if_splits\<close>)
  ultimately show ?thesis
    by (simp add: e_inv_def)
qed

section \<open>Inside the lock\<close>

lemma e_wakes_hold:
  assumes "e_counts n s" and "t < n" and "e_holds (epc_of s t)"
  shows "e_wakes n (elk s) p"
  using e_wakes_busy [OF e_counts_thread(2) [OF assms]] .

lemma e_inner_inv:
  assumes inv: "e_inv n s" and t: "t < n" and at: "e_holds (epc_of s t)" and v: "e_holds v"
    and s': "elk s' = elk s" "epc_of s' = (epc_of s)(t := v)" "eleft s' = eleft s"
    and half: "v = EHalfChecked \<longrightarrow> \<not> is_reader t"
    and g: "\<And>r. eguests r s' + of_bool (is_reader t = r \<and> epc_of s t = EInside) = eguests r s + of_bool (is_reader t = r \<and> v = EInside)"
  shows "e_inv n s'"
proof -
  note c = e_invD(1) [OF inv]
  have nw: "\<not> e_waits (epc_of s t)" "\<not> e_waits v" "e_slot (epc_of s t) = None" "e_slot v = None" "epc_of s t \<noteq> EAtLoop"
      "v \<noteq> EAssertFailed"
    using at v by (auto simp: e_holds_def e_waits_def)
  have "e_counts n s'"
    unfolding e_counts_upd [OF t c s'(2)] s'(1) by (simp add: at v nw(1,2) g)
  moreover have "e_slots n (elk s') (epc_of s')"
    unfolding s' by (rule e_slots_cong [OF e_invD(2) [OF inv]]) (simp_all add: nw e_slotsD(1) [OF e_invD(2) [OF inv]])
  moreover have "e_points n s'"
    by (rule e_points_upd [OF e_invD(5) [OF inv] s'(2,3) nw(6) half e_points_left [OF e_invD(5) [OF inv] t nw(5)]])
  ultimately show ?thesis
    using e_invD(3) [OF inv] e_wakes_hold [OF c t at] by (simp add: e_inv_def s'(1))
qed

text \<open>What the assertions of a worker look at is zero.\<close>

lemma e_guests_holders:
  assumes "e_counts n s"
  shows "eguests r s \<le> eholders r (elk s)"
    and "t < n \<Longrightarrow> is_reader t = r \<Longrightarrow> e_holds (epc_of s t) \<Longrightarrow> epc_of s t \<noteq> EInside \<Longrightarrow> eguests r s < eholders r (elk s)"
proof -
  have *: "eguests r s = cnt n (erole r (\<lambda>p. p = EInside)) (epc_of s)" "eholders r (elk s) = cnt n (erole r e_holds) (epc_of s)"
    using assms unfolding e_counts_def by blast+
  show "eguests r s \<le> eholders r (elk s)"
    unfolding * by (rule cnt_mono) auto
  show "t < n \<Longrightarrow> is_reader t = r \<Longrightarrow> e_holds (epc_of s t) \<Longrightarrow> epc_of s t \<noteq> EInside \<Longrightarrow> eguests r s < eholders r (elk s)"
    unfolding * by (rule cnt_strict [of _ _ t]) auto
qed

lemma e_alone:
  assumes "e_inv n s" and "t < n" and "e_holds (epc_of s t)"
  shows "is_reader t \<Longrightarrow> eholders False (elk s) = 0"
    and "\<not> is_reader t \<Longrightarrow> eholders True (elk s) = 0 \<and> eholders False (elk s) = 1"
  using e_counts_thread(2) [OF e_invD(1) [OF assms(1)] assms(2,3)] e_invD(3) [OF assms(1)]
  by (auto simp: e_exclusive_def lock_roles)

lemma e_checks_hold:
  assumes "e_inv n s" and "t < n" and "e_holds (epc_of s t)"
  shows "is_reader t \<Longrightarrow> eg_writers s = 0" and "\<not> is_reader t \<Longrightarrow> eg_readers s = 0"
    and "\<not> is_reader t \<Longrightarrow> epc_of s t \<noteq> EInside \<Longrightarrow> eg_writers s = 0"
proof -
  note g = e_guests_holders [OF e_invD(1) [OF assms(1)]]
  show "is_reader t \<Longrightarrow> eg_writers s = 0"
    using e_alone(1) [OF assms] g(1) [of False] by (simp add: eguests_def)
  show "\<not> is_reader t \<Longrightarrow> eg_readers s = 0"
    using e_alone(2) [OF assms] g(1) [of True] by (simp add: eguests_def)
  show "\<not> is_reader t \<Longrightarrow> epc_of s t \<noteq> EInside \<Longrightarrow> eg_writers s = 0"
    using e_alone(2) [OF assms] g(2) [OF assms(2) _ assms(3), of False] by (simp add: eguests_def)
qed

section \<open>Leaving the lock\<close>

lemma event_unlock_roles:
  assumes "e_exclusive l" and "0 < eholders r l" and "eholders r l < 2 ^ 32"
  shows "eholders q (event_unlock l) = (if q = r then eholders q l - 1 else eholders q l)"
    and "ewaiters q (event_unlock l) = ewaiters q l"
    and "econd q (event_unlock l) = econd q l \<or> econd q (event_unlock l) = mypthread_cond_signal (econd q l) \<or>
      econd q (event_unlock l) = mypthread_cond_broadcast (econd q l)"
    and "0 < ewaiters False l \<Longrightarrow> eholders True (event_unlock l) = 0 \<Longrightarrow>
      econd False (event_unlock l) = mypthread_cond_signal (econd False l)"
    and "ewaiters False l = 0 \<Longrightarrow> 0 < ewaiters True l \<Longrightarrow> eholders False (event_unlock l) = 0 \<Longrightarrow>
      econd True (event_unlock l) = mypthread_cond_broadcast (econd True l)"
    and "econd q (event_unlock l) \<noteq> econd q l \<Longrightarrow> econd (\<not> q) (event_unlock l) = econd (\<not> q) l"
  by (use assms in \<open>cases r; cases q; force simp: event_unlock_def Let_def e_exclusive_def role_defs split: if_splits\<close>)+

lemma e_unlock_wakes:
  assumes inv: "e_inv n s" and t: "t < n" and at: "e_slot (epc_of s t) = None"
    and l: "\<And>r. eholders r l = 0" "\<And>r. ewaiters r l = ewaiters r (elk s)"
    and signal: "0 < ewaiters False (elk s) \<Longrightarrow> econd False l = mypthread_cond_signal (econd False (elk s))"
    and broadcast: "ewaiters False (elk s) = 0 \<Longrightarrow> 0 < ewaiters True (elk s) \<Longrightarrow>
      econd True l = mypthread_cond_broadcast (econd True (elk s))"
  shows "e_wakes n l ((epc_of s)(t := EAtLoop))"
proof -
  note s = e_invD(2) [OF inv]
  have waits: "ewaiters r (elk s) = cnt n (erole r e_waits) (epc_of s)" for r
    using e_invD(1) [OF inv] unfolding e_counts_def by blast
  have awake: "e_awake c p" if "e_slot p = Some j" "0 < efd c ! j" for c p j
    using that by (cases p) auto
  show ?thesis
  proof (cases "0 < ewaiters False (elk s)")
    case True
    then obtain u j where u: "u < n" "\<not> is_reader u" "e_slot (epc_of s u) = Some j"
      unfolding waits cnt_pos by (auto simp: e_waits_def)
    then have j: "j < MAX_FD" "cwaiting (econd False (elk s)) ! j"
      using e_slotsD(2,3) [OF s] by auto
    then obtain i where i: "first_slot True (cwaiting (econd False (elk s))) = Some i"
      using first_slot_ex [of j "cwaiting (econd False (elk s))" True] e_slotsD(1) [OF s, of False]
      unfolding cond_ok_def by auto
    note f = first_slot_SomeD [OF i]
    have "i < MAX_FD"
      using f e_slotsD(1) [OF s, of False] by (simp add: cond_ok_def)
    then obtain w where w: "w < n" "\<not> is_reader w" "e_slot (epc_of s w) = Some i"
      using f e_slotsD(2) [OF s, of i False] by auto
    have "0 < efd (econd False l) ! i"
      using cond_signal_efd [OF e_slotsD(1) [OF s] i \<open>i < MAX_FD\<close>] signal True by simp
    then have "e_awake (econd False l) (((epc_of s)(t := EAtLoop)) w)"
      using w(3) at awake by auto
    then show ?thesis
      by (rule e_wakes_writer [OF w(1,2)]) (simp add: l True)
  next
    case False
    have "e_awake (econd True l) (((epc_of s)(t := EAtLoop)) u)"
      if u: "u < n" "is_reader u" "e_waits (((epc_of s)(t := EAtLoop)) u)" for u
    proof -
      obtain j where j: "u \<noteq> t" "e_slot (epc_of s u) = Some j"
        using u(3) by (auto simp: e_waits_def split: if_splits)
      then have "j < MAX_FD" "cwaiting (econd True (elk s)) ! j"
        using e_slotsD(2,3) [OF s] u by auto
      moreover have "0 < ewaiters True (elk s)"
        unfolding waits cnt_pos using u j by (auto simp: e_waits_def)
      ultimately have "0 < efd (econd True l) ! j"
        using cond_broadcast_efd [OF e_slotsD(1) [OF s], of j] broadcast False by simp
      then show ?thesis
        using j awake by simp
    qed
    then show ?thesis
      using False unfolding e_wakes_def lock_roles l by simp
  qed
qed

lemma e_unlock_inv:
  assumes inv: "e_inv n s" and t: "t < n" and at: "epc_of s t = ELeaving" and n: "n \<le> 2 * MAX_FD"
  shows "e_inv n ((e_goto t (event_unlock (elk s), EAtLoop) s)\<lparr>eleft := (eleft s)(t := eleft s t - 1)\<rparr>)"
proof -
  let ?s = "(e_goto t (event_unlock (elk s), EAtLoop) s)\<lparr>eleft := (eleft s)(t := eleft s t - 1)\<rparr>"
  let ?r = "is_reader t"
  note c = e_invD(1) [OF inv] and s = e_invD(2) [OF inv]
  have pos: "0 < eholders ?r (elk s)"
    using e_counts_thread(2) [OF c t] at by simp
  have "eholders ?r (elk s) < 2 ^ 32"
    using e_counts_le(1) [OF c, of ?r] n by (simp add: MAX_FD_def)
  note U = event_unlock_roles [OF e_invD(3) [OF inv] pos this]
  have pc: "epc_of ?s = (epc_of s)(t := EAtLoop)"
    by simp
  have "e_counts n ?s"
    unfolding e_counts_upd [OF t c pc] using pos by (auto simp: U(1,2) at eguests_def e_goto_def)
  moreover have "e_slots n (elk ?s) (epc_of ?s)"
  proof (rule e_slots_cong [OF s])
    fix r
    show "cond_ok (econd r (elk ?s))"
      using U(3) [of r] e_slotsD(1) [OF s, of r] cond_ok_ops(2,3) by auto
    show "cwaiting (econd r (elk ?s)) = cwaiting (econd r (elk s))"
      using U(3) [of r] by auto
  qed (simp add: at)
  moreover have "e_exclusive (elk ?s)"
    using e_invD(3) [OF inv] U(1) by (cases ?r) (auto simp: e_exclusive_def lock_roles)
  moreover have "e_points n ?s"
    using e_invD(5) [OF inv] by (auto simp: e_points_def)
  moreover have "e_wakes n (elk ?s) (epc_of ?s)"
  proof (cases "\<exists>r. 0 < eholders r (elk ?s)")
    case False
    then show ?thesis
      using at U(2,4,5) by (simp add: e_unlock_wakes [OF inv t])
  qed (use e_wakes_busy in blast)
  ultimately show ?thesis
    by (simp add: e_inv_def)
qed

section \<open>Runs\<close>

lemma e_guest_upd:
  assumes inv: "e_inv n s" and t: "t < n" and n: "n \<le> 2 * MAX_FD"
  shows "epc_of s t = EChecked \<Longrightarrow> inc32 (eguests (is_reader t) s) = Suc (eguests (is_reader t) s)"
    and "epc_of s t = EInside \<Longrightarrow> Suc (dec32 (eguests (is_reader t) s)) = eguests (is_reader t) s"
  using e_counts_le(3) [OF e_invD(1) [OF inv], of "is_reader t"] e_counts_thread(6) [OF e_invD(1) [OF inv] t] n
  by (simp_all add: MAX_FD_def)

lemma e_check_inv:
  assumes inv: "e_inv n s" and t: "t < n" and at: "epc_of s t = EEntered \<or> epc_of s t = EHalfChecked"
    and w: "event_worker t s = Some s'"
  shows "e_inv n s'"
proof -
  have "e_holds (epc_of s t)" "epc_of s t \<noteq> EInside"
    using at by auto
  note z = e_checks_hold [OF inv t this(1)] and h = this
  have "s' = e_goto t (elk s, if \<not> is_reader t \<and> epc_of s t = EEntered then EHalfChecked else EChecked) s"
    using at w z h(2) by (cases "is_reader t") (auto simp: event_worker_def)
  then show ?thesis
    using h by (intro e_inner_inv [OF inv t h(1)]) (auto split: if_splits)
qed

lemma e_count_inv:
  assumes inv: "e_inv n s" and t: "t < n" and n: "n \<le> 2 * MAX_FD" and at: "epc_of s t = EChecked \<or> epc_of s t = EInside"
    and w: "event_worker t s = Some s'"
  shows "e_inv n s'"
proof -
  have h: "e_holds (epc_of s t)"
    using at by auto
  note G = e_guest_upd [OF inv t n]
  let ?v = "if epc_of s t = EChecked then EInside else ELeaving"
  have s': "elk s' = elk s" "epc_of s' = (epc_of s)(t := ?v)" "eleft s' = eleft s"
    using at w by (cases "is_reader t"; auto simp: event_worker_def e_goto_def)+
  have g: "eguests r s' = (if is_reader t = r then if epc_of s t = EChecked then inc32 (eguests r s) else dec32 (eguests r s)
      else eguests r s)" for r
    using at w by (cases r; cases "is_reader t") (auto simp: event_worker_def e_goto_def eguests_def)
  show ?thesis
  proof (rule e_inner_inv [OF inv t h _ s'])
    fix r
    show "eguests r s' + of_bool (is_reader t = r \<and> epc_of s t = EInside) = eguests r s + of_bool (is_reader t = r \<and> ?v = EInside)"
      using at G g by (cases "is_reader t = r") auto
  qed simp_all
qed

lemma e_inv_step:
  assumes "event_step n s t s'" and inv: "e_inv n s" and n: "n \<le> 2 * MAX_FD"
  shows "e_inv n s'"
proof -
  have t: "t < n" and w: "event_worker t s = Some s'"
    using assms(1) by (auto elim: event_step.cases)
  note loop = e_loop_inv [OF inv t _ n]
  show ?thesis
  proof (cases "epc_of s t")
    case EAtLoop
    then have "0 < eleft s t" "s' = e_goto t (event_loop (is_reader t) (e_queue (is_reader t) (elk s))) s"
      using w by (auto simp: event_worker_def event_lock_loop split: if_splits)
    then show ?thesis
      using loop [OF e_queue_mid [OF inv t n EAtLoop]] by simp
  next
    case (EBlocked i)
    then show ?thesis
      using w e_read_inv [OF inv t EBlocked] by (auto simp: event_worker_def)
  next
    case (EWoken i)
    then have "s' = e_goto t (event_loop (is_reader t) (e_return (is_reader t) i (elk s))) s"
      using w by (simp add: event_worker_def event_lock_loop)
    then show ?thesis
      using loop [OF e_return_mid [OF inv t EWoken]] by simp
  next
    case ELeaving
    then show ?thesis
      using w e_unlock_inv [OF inv t ELeaving n] by (simp add: event_worker_def)
  next
    case EAssertFailed
    then show ?thesis
      using w by (simp add: event_worker_def)
  qed (use e_check_inv [OF inv t _ w] e_count_inv [OF inv t n _ w] in simp_all)
qed

lemma e_inv_start: "e_inv n (event_start loops)"
proof -
  have "cwaiting (econd r event_rwlock_init) ! i \<longleftrightarrow> False" if "i < MAX_FD" for r i
    using that by (simp add: event_rwlock_init_def econd_def mypthread_cond_init_def)
  then have "e_slots n event_rwlock_init (\<lambda>_. EAtLoop)"
    by (intro e_slotsI) (auto simp: cond_ok_ops(1) event_rwlock_init_def econd_def)
  moreover have "cnt n (\<lambda>t p. is_reader t = r \<and> Q p) (\<lambda>_. EAtLoop) = 0" if "\<not> Q EAtLoop" for r Q
    using that by (simp add: cnt_0)
  ultimately show ?thesis
    by (simp add: e_inv_def e_counts_def event_start_def event_rwlock_init_def role_defs e_exclusive_def e_wakes_def e_points_def)
qed

lemma e_inv_steps: "steps (event_step n) (event_start loops) ts s \<Longrightarrow> n \<le> 2 * MAX_FD \<Longrightarrow> e_inv n s"
  using steps_invariant [of "event_step n" "event_start loops" ts s "e_inv n"] e_inv_step e_inv_start by blast

section \<open>Progress\<close>

lemma e_stuck_blocked:
  assumes "\<And>s'. \<not> event_step n s t s'" and "t < n" and "e_inv n s"
  shows "epc_of s t = EAtLoop \<and> eleft s t = 0 \<or> (\<exists>i. epc_of s t = EBlocked i \<and> \<not> 0 < efd (econd (is_reader t) (elk s)) ! i)"
proof -
  have "event_worker t s = None"
    using assms(1,2) by (cases "event_worker t s") (auto intro: event_step.intros)
  moreover have "epc_of s t \<noteq> EAssertFailed"
    using e_invD(5) [OF assms(3)] assms(2) by (simp add: e_points_def)
  ultimately show ?thesis
    by (auto simp: event_worker_def e_read_def cond_wait_read_def econd_def split: epc.splits if_splits)
qed

lemma e_stuck_finished:
  assumes inv: "e_inv n s" and stuck: "\<And>t s'. \<not> event_step n s t s'" and t: "t < n"
  shows "epc_of s t = EAtLoop \<and> eleft s t = 0"
proof -
  note st = e_stuck_blocked [OF stuck _ inv]
  have count: "eholders r (elk s) = cnt n (erole r e_holds) (epc_of s)" "ewaiters r (elk s) = cnt n (erole r e_waits) (epc_of s)" for r
    using e_invD(1) [OF inv] unfolding e_counts_def by blast+
  have "\<not> e_holds (epc_of s u)" if "u < n" for u
    using st [OF that] by auto
  then have free: "eholders r (elk s) = 0" for r
    unfolding count cnt_0 by blast
  have asleep: "\<not> e_awake (econd (is_reader u) (elk s)) (epc_of s u)" if "u < n" for u
    using st [OF that] by auto
  note W = e_wakesD [OF e_invD(4) [OF inv] free]
  have none: "ewaiters False (elk s) = 0"
    using W(1) asleep by (metis (full_types) not_gr_zero)
  have "\<not> e_waits (epc_of s t)"
  proof (cases "is_reader t")
    case True
    then show ?thesis
      using W(2) [OF none t] asleep [OF t] by auto
  next
    case False
    then show ?thesis
      using none t unfolding count cnt_0 by blast
  qed
  then show ?thesis
    using st [OF t] by auto
qed

text \<open>
  The work that is left: a round is worth \<open>2 * MAX_FD + 8\<close>, and a token in an \<open>eventfd\<close> is worth the two steps of the thread
  that it wakes for nothing.
\<close>

fun e_phase :: "epc \<Rightarrow> nat" where
  "e_phase (EWoken i) = 2 * MAX_FD + 7"
| "e_phase (EBlocked i) = 2 * MAX_FD + 6"
| "e_phase EEntered = 2 * MAX_FD + 5"
| "e_phase EHalfChecked = 2 * MAX_FD + 4"
| "e_phase EChecked = 2 * MAX_FD + 3"
| "e_phase EInside = 2 * MAX_FD + 2"
| "e_phase ELeaving = 2 * MAX_FD + 1"
| "e_phase _ = 0"

definition e_work :: "epc \<Rightarrow> nat \<Rightarrow> nat" where
  "e_work p k = (if p = EAtLoop then k else k - 1) * (2 * MAX_FD + 8) + e_phase p"

definition e_tokens :: "erwlock \<Rightarrow> nat" where
  "e_tokens l = tokens (econd True l) + tokens (econd False l)"

definition e_total :: "nat \<Rightarrow> esys \<Rightarrow> nat" where
  "e_total n s = (\<Sum>t<n. e_work (epc_of s t) (eleft s t)) + 2 * e_tokens (elk s)"

lemma e_total_less:
  assumes "t < n" and "epc_of s' = (epc_of s)(t := v)" and "eleft s' = (eleft s)(t := k)"
    and "e_work v k + 2 * e_tokens (elk s') < e_work (epc_of s t) (eleft s t) + 2 * e_tokens (elk s)"
  shows "e_total n s' < e_total n s"
proof -
  let ?f = "\<lambda>j. (epc_of s j, eleft s j)"
  have "(\<lambda>j. (epc_of s' j, eleft s' j)) = ?f(t := (v, k))"
    using assms(2,3) by auto
  then have "(\<Sum>j<n. e_work (epc_of s' j) (eleft s' j)) = (\<Sum>j<n. (\<lambda>j x. e_work (fst x) (snd x)) j ((?f(t := (v, k))) j))"
    by (intro sum.cong) (auto simp: assms(2,3))
  then show ?thesis
    using sum_fun_upd [OF assms(1), of "\<lambda>j x. e_work (fst x) (snd x)" ?f "(v, k)"] assms(4) by (simp add: e_total_def)
qed

lemma e_goto_less:
  assumes "t < n" and "e_phase (snd r) + 2 * e_tokens (fst r) < 2 * MAX_FD + 8 + 2 * e_tokens (elk s)" and "snd r \<noteq> EAtLoop"
    and "0 < eleft s t"
    and "epc_of s t \<noteq> EAtLoop \<Longrightarrow> e_phase (snd r) + 2 * e_tokens (fst r) < e_phase (epc_of s t) + 2 * e_tokens (elk s)"
  shows "e_total n (e_goto t r s) < e_total n s"
proof (rule e_total_less [OF assms(1)])
  show "e_work (snd r) (eleft s t) + 2 * e_tokens (elk (e_goto t r s)) < e_work (epc_of s t) (eleft s t) + 2 * e_tokens (elk s)"
    using assms(2-5) by (cases "eleft s t"; cases "epc_of s t = EAtLoop") (simp_all add: e_work_def)
qed simp_all

lemma e_loop_tokens:
  "e_tokens (fst (event_loop r l)) = e_tokens l" "e_phase (snd (event_loop r l)) \<le> 2 * MAX_FD + 6" "snd (event_loop r l) \<noteq> EAtLoop"
  by (cases r; auto simp: event_loop_def event_rdlock_loop_def event_wrlock_loop_def e_tokens_def econd_def split: option.split)+

lemma e_read_tokens:
  assumes "e_slots n l p" and "t < n" and "p t = EBlocked i" and "e_read t i l = Some l'"
  shows "e_tokens l' < e_tokens l"
proof -
  have "i < MAX_FD"
    using e_slotsD(3) [OF assms(1,2)] assms(3) by simp
  note less = tokens_read [OF e_slotsD(1) [OF assms(1)] this]
  show ?thesis
    using assms(4) less [of True] less [of False]
    by (cases "is_reader t") (auto simp: e_read_def e_tokens_def econd_def)
qed

lemma e_loop_less:
  assumes "t < n" and "e_tokens l = e_tokens (elk s)" and "0 < eleft s t" and "epc_of s t = EAtLoop \<or> (\<exists>i. epc_of s t = EWoken i)"
  shows "e_total n (e_goto t (event_loop r l) s) < e_total n s"
  by (rule e_goto_less [OF assms(1)]) (use assms(2-4) e_loop_tokens [of r l] in auto)

lemma e_unlock_tokens:
  assumes "e_slots n l p" and "e_exclusive l" and "0 < eholders r l" and "eholders r l < 2 ^ 32"
  shows "e_tokens (event_unlock l) \<le> e_tokens l + MAX_FD"
proof -
  note U = event_unlock_roles [OF assms(2-4)]
  have use: "in_use (econd q l) \<le> MAX_FD" for q
    using e_slotsD(1) [OF assms(1), of q] length_filter_le [of id "cwaiting (econd q l)"] by (simp add: in_use_def cond_ok_def)
  have tok: "tokens (econd q (event_unlock l)) \<le> tokens (econd q l) + MAX_FD" for q
    using U(3) [of q] tokens_signal [OF e_slotsD(1) [OF assms(1), of q]] tokens_broadcast [OF e_slotsD(1) [OF assms(1), of q]] use [of q]
    by auto
  have "econd True (event_unlock l) = econd True l \<or> econd False (event_unlock l) = econd False l"
    using U(6) [of True] by auto
  then show ?thesis
    using tok [of True] tok [of False] by (auto simp: e_tokens_def)
qed

lemma e_step_less:
  assumes "event_step n s t s'" and inv: "e_inv n s" and n: "n \<le> 2 * MAX_FD"
  shows "e_total n s' < e_total n s"
proof -
  have t: "t < n" and w: "event_worker t s = Some s'"
    using assms(1) by (auto elim: event_step.cases)
  have left: "0 < eleft s t" if "epc_of s t \<noteq> EAtLoop"
    using e_points_left [OF e_invD(5) [OF inv] t that] .
  show ?thesis
  proof (cases "epc_of s t")
    case EAtLoop
    then have "0 < eleft s t" "s' = e_goto t (event_loop (is_reader t) (e_queue (is_reader t) (elk s))) s"
      using w by (auto simp: event_worker_def event_lock_loop split: if_splits)
    moreover have "e_tokens (e_queue (is_reader t) (elk s)) = e_tokens (elk s)"
      by (simp add: e_tokens_def e_queue_roles)
    ultimately show ?thesis
      using e_loop_less [OF t] EAtLoop by simp
  next
    case (EBlocked i)
    then obtain l where l: "e_read t i (elk s) = Some l" "s' = e_goto t (l, EWoken i) s"
      using w by (auto simp: event_worker_def)
    then show ?thesis
      using e_read_tokens [OF e_invD(2) [OF inv] t EBlocked l(1)] left EBlocked by (simp, intro e_goto_less [OF t]) simp_all
  next
    case (EWoken i)
    then have "s' = e_goto t (event_loop (is_reader t) (e_return (is_reader t) i (elk s))) s"
      using w by (simp add: event_worker_def event_lock_loop)
    moreover have "e_tokens (e_return (is_reader t) i (elk s)) = e_tokens (elk s)"
      by (simp add: e_tokens_def e_return_roles)
    ultimately show ?thesis
      using e_loop_less [OF t] EWoken left by simp
  next
    case ELeaving
    have h: "e_holds (epc_of s t)"
      by (simp add: ELeaving)
    have "eholders (is_reader t) (elk s) < 2 ^ 32"
      using order_trans [OF e_counts_le(1) [OF e_invD(1) [OF inv]] n] by (rule le_less_trans) (simp add: MAX_FD_def)
    note e_unlock_tokens [OF e_invD(2,3) [OF inv] e_counts_thread(2) [OF e_invD(1) [OF inv] t h] this]
    then show ?thesis
      using w ELeaving by (intro e_total_less [OF t, where v = EAtLoop and k = "eleft s t - 1"])
        (auto simp: event_worker_def e_work_def)
  next
    case EAssertFailed
    then show ?thesis
      using w by (simp add: event_worker_def)
  qed (use w left in \<open>auto simp: event_worker_def e_goto_def e_work_def intro!: e_total_less [OF t, of _ s _ "eleft s t"]\<close>)
qed

section \<open>Properties\<close>

text \<open>C6: In the test program of the lock on \<open>eventfd\<close> condition variables, with at most two hundred workers (one hundred for
  each of the two conditions, which is what their arrays have room for), any number of rounds and any interleaving, no
  assertion fails, neither one of a worker nor that of a wait which finds no slot; while a writer has the lock no other
  thread has it.\<close>

theorem event_lock_safe:
  assumes "n \<le> 2 * MAX_FD" and "steps (event_step n) (event_start loops) ts s" and "t < n"
  shows "epc_of s t \<noteq> EAssertFailed \<and>
    (\<not> is_reader t \<and> e_holds (epc_of s t) \<longrightarrow> (\<forall>u < n. u \<noteq> t \<longrightarrow> \<not> e_holds (epc_of s u)))"
proof (intro conjI impI allI notI)
  note inv = e_inv_steps [OF assms(2,1)]
  show "epc_of s t = EAssertFailed \<Longrightarrow> False"
    using e_invD(5) [OF inv] assms(3) by (simp add: e_points_def)
  fix u
  assume t: "\<not> is_reader t \<and> e_holds (epc_of s t)" and u: "u < n" "u \<noteq> t" "e_holds (epc_of s u)"
  have one: "eholders False (elk s) = 1"
    using e_alone(2) [OF inv assms(3)] t by blast
  then have "\<not> is_reader u"
    using e_alone(1) [OF inv u(1,3)] by auto
  then have "1 < cnt n (erole False e_holds) (epc_of s)"
    using cnt_two [OF u(1) assms(3) u(2), of "erole False e_holds" "epc_of s"] t u(3) by simp
  then show False
    using one e_invD(1) [OF inv] unfolding e_counts_def by simp
qed

text \<open>The run of the witnesses: worker 1, a writer, takes the lock, worker 0, a reader, has to wait, and the writer looks
  at the counters.\<close>

definition event_taken :: esys where
  "event_taken = (let l = event_rwlock_init\<lparr>ewriters := 1, ereaders_waiting := 1,
       mycond_readers := mypthread_cond_init\<lparr>cwaiting := (replicate MAX_FD False)[0 := True]\<rparr>\<rparr>
     in (event_start 3)\<lparr>elk := l, epc_of := (\<lambda>_. EAtLoop)(1 := EEntered, 0 := EBlocked 0)\<rparr>)"

lemma event_taken_run: "steps (event_step 2) (event_start 3) [1, 0] event_taken"
proof -
  let ?s = "(event_start 3)\<lparr>elk := event_rwlock_init\<lparr>ewriters := 1\<rparr>, epc_of := (\<lambda>_. EAtLoop)(1 := EEntered)\<rparr>"
  have slot: "first_slot False (replicate MAX_FD False) = Some 0"
    by (simp add: MAX_FD_def numeral_eq_Suc)
  have "event_worker 1 (event_start 3) = Some ?s"
    by (simp add: event_worker_def event_start_def is_reader_def e_goto_def event_wrlock_def event_wrlock_loop_def
        event_rwlock_init_def inc32_def dec32_def)
  moreover have "event_worker 0 ?s = Some event_taken"
    using slot by (simp add: event_worker_def event_start_def is_reader_def e_goto_def event_rdlock_def event_rdlock_loop_def
        event_rwlock_init_def inc32_def event_taken_def cond_wait_begin_def mypthread_cond_init_def Let_def)
  ultimately have "event_step 2 (event_start 3) 1 ?s" "event_step 2 ?s 0 event_taken"
    by (auto intro: event_step.intros)
  then show ?thesis
    by (auto simp: steps_Cons_iff)
qed

theorem event_lock_safe_witness:
  "steps (event_step 2) (event_start 3) [1, 0] event_taken \<and> epc_of event_taken 1 = EEntered \<and>
   epc_of event_taken 0 = EBlocked 0 \<and> \<not> e_holds (epc_of event_taken 0)"
proof -
  have "epc_of event_taken 1 = EEntered" "epc_of event_taken 0 = EBlocked 0" "\<not> is_reader 1"
    by (simp_all add: event_taken_def is_reader_def Let_def)
  then show ?thesis
    using event_lock_safe [OF _ event_taken_run, of 1] event_taken_run by (simp add: MAX_FD_def)
qed

text \<open>C7: The test program of the lock on \<open>eventfd\<close> condition variables ends: with at most two hundred workers a run has at
  most \<open>n * loops * 208\<close> steps, whatever the schedule, and a state in which no worker can make a step is one in which every
  worker has done all its rounds. Although a signal goes to the first slot in use, whose thread may have been
  woken already, no wake-up is lost.\<close>

theorem event_lock_ends:
  assumes "n \<le> 2 * MAX_FD" and "steps (event_step n) (event_start loops) ts s"
  shows "length ts \<le> n * loops * 208 \<and>
    ((\<exists>t s'. event_step n s t s') \<or> (\<forall>t < n. epc_of s t = EAtLoop \<and> eleft s t = 0))"
proof
  have "e_total n (event_start loops) = n * loops * 208"
    by (simp add: e_total_def e_work_def e_tokens_def tokens_def event_start_def econd_def event_rwlock_init_def
        mypthread_cond_init_def sum_list_replicate MAX_FD_def)
  moreover have "length ts + e_total n s \<le> e_total n (event_start loops)"
    by (rule steps_bounded [OF assms(2), where P = "e_inv n"]) (use e_inv_step e_step_less e_inv_start assms(1) in blast)+
  ultimately show "length ts \<le> n * loops * 208"
    by simp
  show "(\<exists>t s'. event_step n s t s') \<or> (\<forall>t < n. epc_of s t = EAtLoop \<and> eleft s t = 0)"
    using e_stuck_finished [OF e_inv_steps [OF assms(2,1)]] by blast
qed

theorem event_lock_ends_witness: "\<exists>t s'. event_step 2 event_taken t s'"
proof -
  have "epc_of event_taken 1 \<noteq> EAtLoop"
    by (simp add: event_taken_def Let_def)
  then show ?thesis
    using event_lock_ends [OF _ event_taken_run] by (simp add: MAX_FD_def) force
qed

text \<open>The bound is sharp: with all slots of the readers in use the next reader that has to wait ends the process.\<close>

theorem event_rdlock_no_slot:
  assumes "length (cwaiting (mycond_readers l)) = MAX_FD" and "\<forall>i < MAX_FD. cwaiting (mycond_readers l) ! i" and "0 < ewriters l"
  shows "snd (event_rdlock l) = EAssertFailed"
proof -
  have "cond_wait_begin (mycond_readers l) = None"
    using assms(1,2) by (simp add: cond_wait_begin_None)
  then show ?thesis
    using assms(3) by (simp add: event_rdlock_def event_rdlock_loop_def)
qed

end
