(* ===== verification/OmpSort.thy ===== *)
theory OmpSort
  imports Prelude "HOL-Library.Multiset"
begin

text \<open>
  \<open>src/src/examples/openmp/merge_sort.cc\<close>: a merge sort on an array with a scratch array of the same size. The
  indices are unsigned 32-bit numbers, written as \<open>nat\<close> with the wrap-around of their sums. The two
  recursive calls are sections that run in parallel: the model takes a choice of which one runs first
  at every node. \<open>None\<close> is a recursion that has not come to its end within the given depth.
\<close>

section \<open>The program\<close>

definition run_bind :: "'a outcome option \<Rightarrow> ('a \<Rightarrow> 'b outcome option) \<Rightarrow> 'b outcome option" where
  "run_bind r f = (case r of None \<Rightarrow> None | Some (Crash c) \<Rightarrow> Some (Crash c) | Some (Done x) \<Rightarrow> f x)"

lemma run_bind_simps [simp]:
  "run_bind None f = None" "run_bind (Some (Crash c)) f = Some (Crash c)" "run_bind (Some (Done x)) f = f x"
  by (simp_all add: run_bind_def)

function merge_loop :: "nat \<Rightarrow> nat \<Rightarrow> nat \<Rightarrow> nat \<Rightarrow> nat \<Rightarrow> int list \<Rightarrow> int list \<Rightarrow> int list outcome" where
  "merge_loop i j mid to target scratch arr =
    (if target < to
     then
       if i < to \<and> j < mid
       then
         outcome_bind (get_at scratch i) (\<lambda>x.
         outcome_bind (get_at scratch j) (\<lambda>y.
         if x < y
         then outcome_bind (set_at arr target x) (\<lambda>arr. merge_loop (i + 1) j mid to (target + 1) scratch arr)
         else outcome_bind (set_at arr target y) (\<lambda>arr. merge_loop i (j + 1) mid to (target + 1) scratch arr)))
       else if i < to
       then
         outcome_bind (get_at scratch i) (\<lambda>x.
         outcome_bind (set_at arr target x) (\<lambda>arr. merge_loop (i + 1) j mid to (target + 1) scratch arr))
       else
         outcome_bind (get_at scratch j) (\<lambda>y.
         outcome_bind (set_at arr target y) (\<lambda>arr. merge_loop i (j + 1) mid to (target + 1) scratch arr))
     else Done arr)"
  by pat_completeness auto

termination
  by (relation "measure (\<lambda>(i, j, mid, to, target, scratch, arr). to - target)") auto

declare merge_loop.simps [simp del]

text \<open>The copy into the scratch array and the merge, after the two sections.\<close>

definition merge_halves :: "nat \<Rightarrow> nat \<Rightarrow> nat \<Rightarrow> int list \<times> int list \<Rightarrow> (int list \<times> int list) outcome" where
  "merge_halves from mid to st =
    (case st of (arr, scratch) \<Rightarrow>
       let len = (to + 2 ^ 32 - from) mod 2 ^ 32
       in if from + len \<le> length arr \<and> from + len \<le> length scratch
          then let scratch = blit scratch from (chunk arr from len)
               in outcome_bind (merge_loop mid from mid to from scratch arr) (\<lambda>arr. Done (arr, scratch))
          else Crash OutOfBounds)"

fun mergesort ::
  "(nat \<Rightarrow> nat \<Rightarrow> bool) \<Rightarrow> nat \<Rightarrow> nat \<Rightarrow> nat \<Rightarrow> int list \<times> int list \<Rightarrow> (int list \<times> int list) outcome option" where
  "mergesort left_first 0 from to st = None"
| "mergesort left_first (Suc n) from to st =
    (if (from + 1) mod 2 ^ 32 = to then Some (Done st)
     else
       let mid = ((from + to) mod 2 ^ 32) div 2
       in run_bind
         (if left_first from to
          then run_bind (mergesort left_first n from mid st) (mergesort left_first n mid to)
          else run_bind (mergesort left_first n mid to st) (mergesort left_first n from mid))
         (\<lambda>st. Some (merge_halves from mid to st)))"

text \<open>The overloaded \<open>mergesort\<close>; \<open>fresh\<close> is what the new scratch array holds.\<close>

definition mergesort_array :: "(nat \<Rightarrow> nat \<Rightarrow> bool) \<Rightarrow> nat \<Rightarrow> int list \<Rightarrow> int list \<Rightarrow> int list outcome option" where
  "mergesort_array left_first n fresh arr =
     run_bind (mergesort left_first n 0 (length arr) (arr, fresh)) (\<lambda>(arr, scratch). Some (Done arr))"

section \<open>The merge\<close>

text \<open>The left list goes first when the heads are equal.\<close>

fun merge2 :: "int list \<Rightarrow> int list \<Rightarrow> int list" where
  "merge2 [] ys = ys"
| "merge2 xs [] = xs"
| "merge2 (x # xs) (y # ys) = (if y < x then y # merge2 (x # xs) ys else x # merge2 xs (y # ys))"

lemma mset_merge2 [simp]: "mset (merge2 xs ys) = mset xs + mset ys"
  by (induction xs ys rule: merge2.induct) auto

lemma length_merge2 [simp]: "length (merge2 xs ys) = length xs + length ys"
  by (metis mset_merge2 size_mset size_union)

lemma set_merge2: "set (merge2 xs ys) = set xs \<union> set ys"
  by (metis mset_merge2 set_mset_mset set_mset_union)

lemma sorted_merge2: "sorted xs \<Longrightarrow> sorted ys \<Longrightarrow> sorted (merge2 xs ys)"
  by (induction xs ys rule: merge2.induct) (auto simp: set_merge2)

lemma merge2_sort: "merge2 (sort xs) (sort ys) = sort (xs @ ys)"
  by (rule properties_for_sort [symmetric]) (simp_all add: sorted_merge2)

lemma merge2_Nil2 [simp]: "merge2 xs [] = xs"
  by (cases xs) simp_all

lemma chunk_Cons: "i < j \<Longrightarrow> j \<le> length xs \<Longrightarrow> chunk xs i (j - i) = xs ! i # chunk xs (i + 1) (j - (i + 1))"
  by (simp add: chunk_def take_Cons' Suc_diff_Suc Cons_nth_drop_Suc [symmetric])

lemma blit_update: "i < length xs \<Longrightarrow> blit (xs[i := v]) (Suc i) vs = blit xs i (v # vs)"
  by (simp add: blit_def take_Suc_conv_app_nth)

text \<open>The loop writes the merge of what is left of the two halves.\<close>

lemma merge_loop_merge:
  assumes "mid \<le> to" and "to \<le> length scratch" and "to \<le> length arr"
    and "target + (mid - j) + (to - i) = to" and "j \<le> mid" and "i \<le> to"
  shows "merge_loop i j mid to target scratch arr =
    Done (blit arr target (merge2 (chunk scratch j (mid - j)) (chunk scratch i (to - i))))"
  using assms(3-)
proof (induction "to - target" arbitrary: i j target arr rule: less_induct)
  case less
  have right: "merge_loop (i + 1) j mid to (target + 1) scratch (arr[target := v]) =
      Done (blit arr target (v # merge2 (chunk scratch j (mid - j)) (chunk scratch (i + 1) (to - (i + 1)))))"
    if "i < to" for v
    using less.hyps [of "target + 1" "arr[target := v]" j "i + 1"] less.prems that assms(2)
    by (simp add: blit_update)
  have left: "merge_loop i (j + 1) mid to (target + 1) scratch (arr[target := v]) =
      Done (blit arr target (v # merge2 (chunk scratch (j + 1) (mid - (j + 1))) (chunk scratch i (to - i))))"
    if "j < mid" for v
    using less.hyps [of "target + 1" "arr[target := v]" "j + 1" i] less.prems that assms(1,2)
    by (simp add: blit_update)
  have R: "chunk scratch i (to - i) = scratch ! i # chunk scratch (i + 1) (to - (i + 1))" if "i < to"
    using chunk_Cons that assms(2) by blast
  have L: "chunk scratch j (mid - j) = scratch ! j # chunk scratch (j + 1) (mid - (j + 1))" if "j < mid"
    using chunk_Cons [of j mid scratch] that assms(1,2) by simp
  have t: "target < to" if "i < to \<or> j < mid"
    using that less.prems by linarith
  consider "i < to" "j < mid" | "i < to" "j = mid" | "i = to" "j < mid" | "i = to" "j = mid"
    using less.prems by linarith
  then show ?case
  proof cases
    case 1
    then show ?thesis
      using t less.prems assms(1,2) right [of "scratch ! i"] left [of "scratch ! j"] R L
      by (subst merge_loop.simps) (simp add: get_at_def set_at_def)
  next
    case 2
    then show ?thesis
      using t less.prems assms(1,2) right [of "scratch ! i"] R
      by (subst merge_loop.simps) (simp add: get_at_def set_at_def)
  next
    case 3
    then show ?thesis
      using t less.prems assms(1,2) left [of "scratch ! j"] L
      by (subst merge_loop.simps) (simp add: get_at_def set_at_def)
  next
    case 4
    then show ?thesis
      using less.prems by (subst merge_loop.simps) simp
  qed
qed

text \<open>A slice of the two arrays, sorted in place; the rest of both is as before.\<close>

definition sorted_slice :: "nat \<Rightarrow> nat \<Rightarrow> int list \<times> int list \<Rightarrow> int list \<times> int list \<Rightarrow> bool" where
  "sorted_slice from to st st' \<longleftrightarrow>
     fst st' = blit (fst st) from (sort (chunk (fst st) from (to - from))) \<and>
     length (snd st') = length (snd st) \<and>
     (\<forall>i < length (snd st). i < from \<or> to \<le> i \<longrightarrow> snd st' ! i = snd st ! i)"

lemma blit_twice:
  "length ys = length xs \<Longrightarrow> i + length xs \<le> length a \<Longrightarrow> blit (blit a i xs) i ys = blit a i ys"
  by (simp add: blit_def)

lemma blit_chunk: "i + n \<le> length a \<Longrightarrow> blit a i (chunk a i n) = a"
  by (simp add: blit_def chunk_def) (metis add.commute append_take_drop_id drop_drop)

lemma blit_commute:
  assumes "i + length xs \<le> j" and "j + length ys \<le> length a"
  shows "blit (blit a i xs) j ys = blit (blit a j ys) i xs"
  by (rule nth_equalityI) (use assms in \<open>auto simp: nth_blit\<close>)

text \<open>The two sections work on disjoint slices: both orders give the same array.\<close>

lemma two_slices:
  assumes "from \<le> mid" and "mid \<le> to" and "to \<le> length (fst st)"
    and "sorted_slice from mid st st1 \<and> sorted_slice mid to st1 st2 \<or>
      sorted_slice mid to st st1 \<and> sorted_slice from mid st1 st2"
  shows "fst st2 = blit (fst st) from (sort (chunk (fst st) from (mid - from)) @ sort (chunk (fst st) mid (to - mid)))"
    and "length (snd st2) = length (snd st)"
    and "i < length (snd st) \<Longrightarrow> i < from \<or> to \<le> i \<Longrightarrow> snd st2 ! i = snd st ! i"
proof -
  let ?a = "fst st"
  let ?L = "sort (chunk ?a from (mid - from))" and ?R = "sort (chunk ?a mid (to - mid))"
  have len: "length ?L = mid - from" "length ?R = to - mid"
    using assms(1-3) by simp_all
  have c1: "chunk (blit ?a from ?L) mid (to - mid) = chunk ?a mid (to - mid)"
    by (rule chunk_blit_disjoint) (use assms(1-3) len in auto)
  have c2: "chunk (blit ?a mid ?R) from (mid - from) = chunk ?a from (mid - from)"
    by (rule chunk_blit_disjoint) (use assms(1-3) len in auto)
  have both: "blit (blit ?a from ?L) mid ?R = blit ?a from (?L @ ?R)"
    using blit_blit_adjacent [of "from" ?L ?R ?a] assms(1-3) len by simp
  have swap: "blit (blit ?a mid ?R) from ?L = blit (blit ?a from ?L) mid ?R"
    by (rule blit_commute [symmetric]) (use assms(1-3) len in auto)
  show "fst st2 = blit ?a from (?L @ ?R)"
    using assms(4) c1 c2 both swap by (auto simp: sorted_slice_def)
  show "length (snd st2) = length (snd st)"
    "i < length (snd st) \<Longrightarrow> i < from \<or> to \<le> i \<Longrightarrow> snd st2 ! i = snd st ! i"
    using assms(1,2,4) by (auto simp: sorted_slice_def)
qed

lemma merge_halves_slice:
  assumes "from \<le> mid" and "mid \<le> to" and "to < 2 ^ 32" and "to \<le> length arr" and "to \<le> length scratch"
    and "chunk arr from (to - from) = sort xs @ sort ys" and "length xs = mid - from" and "length ys = to - mid"
  shows "merge_halves from mid to (arr, scratch) =
    Done (blit arr from (sort (xs @ ys)), blit scratch from (sort xs @ sort ys))"
proof -
  let ?s = "blit scratch from (sort xs @ sort ys)"
  have len: "(to + 2 ^ 32 - from) mod 2 ^ 32 = to - from" "length (sort xs @ sort ys) = to - from"
    using assms by (simp_all add: le_mod_geq)
  have s: "length ?s = length scratch"
    using assms len by simp
  have c: "chunk ?s from (to - from) = sort xs @ sort ys"
    using chunk_blit [of "from" "sort xs @ sort ys" scratch] assms len by simp
  have "chunk ?s from (mid - from) = take (mid - from) (chunk ?s from (to - from))"
    using assms by (simp add: chunk_def min_def)
  moreover have "chunk ?s mid (to - mid) = drop (mid - from) (chunk ?s from (to - from))"
    using assms by (simp add: chunk_def drop_take)
  ultimately have h: "chunk ?s from (mid - from) = sort xs" "chunk ?s mid (to - mid) = sort ys"
    using c assms by simp_all
  have "merge_loop mid from mid to from ?s arr = Done (blit arr from (sort (xs @ ys)))"
    using merge_loop_merge [of mid to ?s arr "from" "from" mid] assms s h by (simp add: merge2_sort)
  then show ?thesis
    using assms len by (simp add: merge_halves_def)
qed

lemma merge_two_slices:
  assumes "from < mid" and "mid < to" and "to < 2 ^ 32" and "to \<le> length (fst st)" and "to \<le> length (snd st)"
    and "sorted_slice from mid st st1 \<and> sorted_slice mid to st1 st2 \<or>
      sorted_slice mid to st st1 \<and> sorted_slice from mid st1 st2"
  shows "\<exists>st'. merge_halves from mid to st2 = Done st' \<and> sorted_slice from to st st'"
proof -
  let ?a = "fst st"
  let ?xs = "chunk ?a from (mid - from)" and ?ys = "chunk ?a mid (to - mid)"
  note two = two_slices [OF less_imp_le [OF assms(1)] less_imp_le [OF assms(2)] assms(4,6)]
  have xy: "?xs @ ?ys = chunk ?a from (to - from)" "length ?xs = mid - from" "length ?ys = to - mid"
    using chunk_append [of ?a "from" "mid - from" "to - mid"] assms(1,2,4) by simp_all
  have arr: "length (fst st2) = length ?a" "chunk (fst st2) from (to - from) = sort ?xs @ sort ?ys"
    using chunk_blit [of "from" "sort ?xs @ sort ?ys" ?a] assms(1,2,4) xy two(1) by simp_all
  have m: "merge_halves from mid to (fst st2, snd st2) =
      Done (blit (fst st2) from (sort (?xs @ ?ys)), blit (snd st2) from (sort ?xs @ sort ?ys))"
    using merge_halves_slice [of "from" mid to "fst st2" "snd st2" ?xs ?ys] assms(1-5) arr xy two(2) by simp
  have "blit (fst st2) from (sort (?xs @ ?ys)) = blit ?a from (sort (chunk ?a from (to - from)))"
    using blit_twice [of "sort (?xs @ ?ys)" "sort ?xs @ sort ?ys" "from" ?a] assms(1,2,4) two(1) xy by simp
  moreover have "blit (snd st2) from (sort ?xs @ sort ?ys) ! i = snd st ! i"
    if "i < length (snd st)" "i < from \<or> to \<le> i" for i
    using that two(2) two(3) [OF that] xy assms(1,2,5) by (subst nth_blit) auto
  ultimately show ?thesis
    using m two(2) xy assms(1,2,5) by (simp add: sorted_slice_def)
qed

lemma sorted_slice_length:
  "sorted_slice from to st st' \<Longrightarrow> from \<le> to \<Longrightarrow> to \<le> length (fst st) \<Longrightarrow>
    length (fst st') = length (fst st) \<and> length (snd st') = length (snd st)"
  by (simp add: sorted_slice_def)

lemma mergesort_slice:
  assumes "from < to" and "to \<le> 2 ^ 31" and "to - from \<le> n" and "to \<le> length (fst st)" and "to \<le> length (snd st)"
  shows "\<exists>st'. mergesort left_first n from to st = Some (Done st') \<and> sorted_slice from to st st'"
  using assms
proof (induction n arbitrary: "from" to st)
  case 0
  then show ?case by simp
next
  case (Suc n)
  show ?case
  proof (cases "from + 1 = to")
    case True
    then have "sort (chunk (fst st) from (to - from)) = chunk (fst st) from (to - from)"
      using Suc.prems by (intro sorted_sort_id sorted01) simp
    then have "sorted_slice from to st st"
      using Suc.prems True by (simp add: sorted_slice_def blit_chunk)
    then show ?thesis
      using True Suc.prems by (simp add: Let_def)
  next
    case False
    define mid where "mid = ((from + to) mod 2 ^ 32) div 2"
    have mid: "mid = (from + to) div 2" "from < mid" "mid < to" "(from + 1) mod 2 ^ 32 \<noteq> to"
      using Suc.prems False by (simp_all add: mid_def)
    have lens: "mid \<le> 2 ^ 31" "mid - from \<le> n" "to - mid \<le> n"
      using mid Suc.prems by linarith+
    have run: "\<exists>st1 st2. (if left_first from to
          then run_bind (mergesort left_first n from mid st) (mergesort left_first n mid to)
          else run_bind (mergesort left_first n mid to st) (mergesort left_first n from mid)) = Some (Done st2) \<and>
        (sorted_slice from mid st st1 \<and> sorted_slice mid to st1 st2 \<or>
         sorted_slice mid to st st1 \<and> sorted_slice from mid st1 st2)"
    proof (cases "left_first from to")
      case True
      obtain st1 where 1: "mergesort left_first n from mid st = Some (Done st1)" "sorted_slice from mid st st1"
        using Suc.IH [of "from" mid st] mid lens Suc.prems by auto
      obtain st2 where "mergesort left_first n mid to st1 = Some (Done st2)" "sorted_slice mid to st1 st2"
        using Suc.IH [of mid to st1] mid lens Suc.prems sorted_slice_length [OF 1(2)] by auto
      with 1 True show ?thesis
        by (intro exI [of _ st1] exI [of _ st2]) (simp add: run_bind_def)
    next
      case False
      obtain st1 where 1: "mergesort left_first n mid to st = Some (Done st1)" "sorted_slice mid to st st1"
        using Suc.IH [of mid to st] mid lens Suc.prems by auto
      obtain st2 where "mergesort left_first n from mid st1 = Some (Done st2)" "sorted_slice from mid st1 st2"
        using Suc.IH [of "from" mid st1] mid lens Suc.prems sorted_slice_length [OF 1(2)] by auto
      with 1 False show ?thesis
        by (intro exI [of _ st1] exI [of _ st2]) (simp add: run_bind_def)
    qed
    then obtain st1 st2 where run: "(if left_first from to
          then run_bind (mergesort left_first n from mid st) (mergesort left_first n mid to)
          else run_bind (mergesort left_first n mid to st) (mergesort left_first n from mid)) = Some (Done st2)"
      and sl: "sorted_slice from mid st st1 \<and> sorted_slice mid to st1 st2 \<or>
         sorted_slice mid to st st1 \<and> sorted_slice from mid st1 st2"
      by blast
    have "mergesort left_first (Suc n) from to st = Some (merge_halves from mid to st2)"
      using mid(4) by (simp only: mergesort.simps(2) Let_def mid_def [symmetric] run if_False run_bind_simps)
    moreover have "\<exists>st'. merge_halves from mid to st2 = Done st' \<and> sorted_slice from to st st'"
      using merge_two_slices [OF mid(2,3) _ Suc.prems(4,5) sl] Suc.prems by simp
    ultimately show ?thesis
      by auto
  qed
qed

section \<open>Properties\<close>

text \<open>C20: \<open>mergesort\<close> sorts. For every array that is not empty and has at most \<open>2 ^ 31\<close> elements, whatever the
  scratch array holds and in whatever order the parallel sections run, the recursion ends within a depth of
  the length of the array, no access leaves the arrays, and the array ends up sorted. For an empty array
  the recursion never ends, at whatever depth it is cut off.\<close>

theorem mergesort_sorts:
  assumes "length fresh = length arr" and "length arr \<le> 2 ^ 31"
  shows "if arr = [] then mergesort_array left_first n fresh arr = None
    else mergesort_array left_first (length arr) fresh arr = Some (Done (sort arr))"
proof (cases "arr = []")
  case True
  have "mergesort left_first n 0 0 st = None" for st
    by (induction n arbitrary: st) (simp_all add: Let_def)
  then show ?thesis
    using True by (simp add: mergesort_array_def run_bind_def)
next
  case False
  then obtain st' where "mergesort left_first (length arr) 0 (length arr) (arr, fresh) = Some (Done st')"
    "sorted_slice 0 (length arr) (arr, fresh) st'"
    using mergesort_slice [of 0 "length arr" "length arr" "(arr, fresh)" left_first] assms by auto
  then show ?thesis
    using False by (auto simp: mergesort_array_def run_bind_def sorted_slice_def blit_def chunk_def split: prod.split)
qed

theorem mergesort_sorts_witness:
  "mergesort_array (\<lambda>lo hi. lo = 0) 4 [0, 0, 0, 0] [4, 5, 7, 6] = Some (Done [4, 5, 6, 7])
   \<and> mergesort_array (\<lambda>lo hi. lo = 0) 3 [] [] = None"
proof -
  have four: "Suc (Suc (Suc (Suc 0))) = 4"
    by simp
  show ?thesis
    using mergesort_sorts [of "[0, 0, 0, 0]" "[4, 5, 7, 6]" "\<lambda>lo hi. lo = 0" 4]
      mergesort_sorts [of "[]" "[]" "\<lambda>lo hi. lo = 0" 3] by (simp add: four)
qed

end
