(* ===== verification/IPow.thy ===== *)
theory IPow
  imports Prelude
begin

text \<open>
  \<open>src/src/examples/arithmetic/ipow.c\<close>: an integer raised to a small power by repeated squaring, unrolled into a
  switch that falls through. The base is a signed 32-bit number, whose overflow is a crash; the result is
  accumulated in an unsigned 64-bit number, which wraps, and returned as a signed one.
\<close>

section \<open>The program\<close>

text \<open>The table, row by row where its rows differ: entry 63 already is the overflow marker.\<close>

definition highest_bit_set :: "nat list" where
  "highest_bit_set =
     [0, 1, 2, 2, 3, 3, 3, 3] @
     replicate 8 4 @
     replicate 16 5 @
     replicate 31 6 @ [255] @
     replicate 192 255"

definition square32 :: "int \<Rightarrow> int outcome" where
  "square32 base = (if base * base < 2 ^ 31 then Done (base * base) else Crash SignedOverflow)"

text \<open>
  \<open>cases k\<close> is the switch entered at \<open>case k\<close>, for \<open>k\<close> up to 6; the last case has no shift and no square,
  and case 0 is the default.
\<close>

fun ipow_cases :: "nat \<Rightarrow> int \<Rightarrow> nat \<Rightarrow> u64 \<Rightarrow> u64 outcome" where
  "ipow_cases 0 base exp result = Done result"
| "ipow_cases (Suc 0) base exp result =
     Done (if odd exp then result * word_of_int base else result)"
| "ipow_cases (Suc (Suc k)) base exp result =
     (let result = (if odd exp then result * word_of_int base else result);
          exp = exp div 2
      in outcome_bind (square32 base) (\<lambda>base. ipow_cases (Suc k) base exp result))"

definition ipow :: "int \<Rightarrow> byte \<Rightarrow> int outcome" where
  "ipow base exp =
    (let h = highest_bit_set ! unat exp
     in if h = 255
        then if base = 1 then Done 1
             else if base = - 1 then Done (1 - 2 * int (unat exp mod 2))
             else Done 0
        else outcome_bind (ipow_cases h base (unat exp) 1) (\<lambda>result. Done (sint result)))"

section \<open>Squaring\<close>

text \<open>The squares that \<open>k\<close> cases compute: the last is the largest.\<close>

lemma ipow_cases_power:
  assumes "exp < 2 ^ k"
  shows "ipow_cases k base exp result =
    (if k \<le> 1 \<or> \<bar>base\<bar> ^ (2 ^ (k - 1)) < 2 ^ 31 then Done (result * word_of_int (base ^ exp)) else Crash SignedOverflow)"
  using assms
proof (induction k base exp result rule: ipow_cases.induct)
  case (1 base exp result)
  then show ?case by simp
next
  case (2 base exp result)
  then have "exp = 0 \<or> exp = 1" by auto
  then show ?case by auto
next
  case (3 k base exp result)
  define result' where "result' = (if odd exp then result * word_of_int base else result)"
  have ih: "ipow_cases (Suc k) (base * base) (exp div 2) result' =
    (if Suc k \<le> 1 \<or> \<bar>base * base\<bar> ^ (2 ^ k) < 2 ^ 31
     then Done (result' * word_of_int ((base * base) ^ (exp div 2))) else Crash SignedOverflow)"
    if "base * base < 2 ^ 31"
    using 3 that by (simp add: result'_def square32_def)
  have "\<bar>base * base\<bar> = \<bar>base\<bar> ^ 2"
    by (simp add: power2_eq_square abs_mult)
  then have sq: "\<bar>base * base\<bar> ^ (2 ^ k) = \<bar>base\<bar> ^ (2 ^ (Suc k))"
    by (simp only: power_mult [symmetric] power_Suc)
  have pw: "result' * word_of_int ((base * base) ^ (exp div 2)) = result * word_of_int (base ^ exp)"
  proof -
    have "base ^ exp = (if odd exp then base else 1) * (base * base) ^ (exp div 2)"
      by (cases "even exp") (auto elim!: evenE oddE simp: power_mult power2_eq_square)
    then show ?thesis
      by (simp add: result'_def)
  qed
  show ?case
  proof (cases "base * base < 2 ^ 31")
    case True
    have "\<bar>base\<bar> ^ (2 ^ Suc 0) < 2 ^ 31"
      using True by (simp add: power2_eq_square)
    then have c: "(Suc k \<le> 1 \<or> \<bar>base * base\<bar> ^ (2 ^ k) < 2 ^ 31) \<longleftrightarrow>
        (Suc (Suc k) \<le> 1 \<or> \<bar>base\<bar> ^ (2 ^ (Suc (Suc k) - 1)) < 2 ^ 31)"
      unfolding sq by (cases k) auto
    have "ipow_cases (Suc (Suc k)) base exp result = ipow_cases (Suc k) (base * base) (exp div 2) result'"
      using True by (simp add: square32_def result'_def)
    then show ?thesis
      unfolding ih [OF True] pw c .
  next
    case False
    then have "\<bar>base\<bar> \<noteq> 0"
      by auto
    then have "\<bar>base\<bar> ^ 2 \<le> \<bar>base\<bar> ^ (2 ^ Suc k)"
      by (intro power_increasing) simp_all
    then have "\<not> \<bar>base\<bar> ^ (2 ^ Suc k) < 2 ^ 31"
      using False by (simp add: power2_eq_square)
    then show ?thesis
      using False by (simp add: square32_def)
  qed
qed

text \<open>The table gives the number of bits of the exponent, or the marker.\<close>

lemma highest_bit_set_rows:
  shows "e < 8 \<Longrightarrow> highest_bit_set ! e = [0, 1, 2, 2, 3, 3, 3, 3] ! e"
    and "8 \<le> e \<Longrightarrow> e < 16 \<Longrightarrow> highest_bit_set ! e = 4"
    and "16 \<le> e \<Longrightarrow> e < 32 \<Longrightarrow> highest_bit_set ! e = 5"
    and "32 \<le> e \<Longrightarrow> e < 63 \<Longrightarrow> highest_bit_set ! e = 6"
    and "63 \<le> e \<Longrightarrow> e < 256 \<Longrightarrow> highest_bit_set ! e = 255"
  unfolding highest_bit_set_def by (simp_all add: nth_append nth_Cons' del: append_Cons append_Nil) linarith+

lemma highest_bit_set_bits:
  assumes "e < 63"
  shows "highest_bit_set ! e \<le> 6" and "e < 2 ^ (highest_bit_set ! e)"
    and "e \<noteq> 0 \<Longrightarrow> 2 ^ (highest_bit_set ! e - 1) \<le> e"
proof -
  consider "e < 8" | "8 \<le> e" "e < 16" | "16 \<le> e" "e < 32" | "32 \<le> e"
    by linarith
  then have "highest_bit_set ! e \<le> 6 \<and> e < 2 ^ (highest_bit_set ! e) \<and>
      (e \<noteq> 0 \<longrightarrow> 2 ^ (highest_bit_set ! e - 1) \<le> e)"
  proof cases
    case 1
    then show ?thesis
      by (simp add: highest_bit_set_rows(1) nth_Cons')
  qed (use assms in \<open>simp_all add: highest_bit_set_rows(2-4)\<close>)
  then show "highest_bit_set ! e \<le> 6" "e < 2 ^ (highest_bit_set ! e)"
    "e \<noteq> 0 \<Longrightarrow> 2 ^ (highest_bit_set ! e - 1) \<le> e"
    by blast+
qed

lemma unat_byte: "unat (e :: byte) < 256"
  using unsigned_less [of e] by simp

text \<open>The squares exceed 32 bits: the largest one is the base to the leading power of two of the exponent.\<close>

definition squares_overflow :: "int \<Rightarrow> nat \<Rightarrow> bool" where
  "squares_overflow base e \<longleftrightarrow> (\<exists>j. 1 \<le> j \<and> 2 ^ j \<le> e \<and> e < 2 ^ Suc j \<and> 2 ^ 31 \<le> \<bar>base\<bar> ^ (2 ^ j))"

definition fits64 :: "int \<Rightarrow> bool" where
  "fits64 x \<longleftrightarrow> - (2 ^ 63) \<le> x \<and> x < 2 ^ 63"

lemma leading_power_unique:
  assumes "2 ^ i \<le> e" and "e < 2 ^ Suc i" and "2 ^ j \<le> e" and "e < (2 :: nat) ^ Suc j"
  shows "i = j"
proof -
  have "(2 :: nat) ^ i < 2 ^ Suc j" "(2 :: nat) ^ j < 2 ^ Suc i"
    using assms by linarith+
  then have "i < Suc j" "j < Suc i"
    by (simp_all only: power_strict_increasing_iff one_less_numeral_iff semiring_norm(76))
  then show ?thesis
    by simp
qed

lemma squares_overflow_iff:
  assumes "e < 63"
  shows "squares_overflow base e \<longleftrightarrow>
    \<not> (highest_bit_set ! e \<le> 1 \<or> \<bar>base\<bar> ^ (2 ^ (highest_bit_set ! e - 1)) < 2 ^ 31)"
proof -
  let ?h = "highest_bit_set ! e"
  note bits = highest_bit_set_bits [OF assms]
  show ?thesis
  proof
    assume "squares_overflow base e"
    then obtain j where j: "1 \<le> j" "2 ^ j \<le> e" "e < 2 ^ Suc j" "2 ^ 31 \<le> \<bar>base\<bar> ^ (2 ^ j)"
      by (auto simp: squares_overflow_def)
    have "0 < e"
      using j(2) less_le_trans [of 0 "2 ^ j" e] by simp
    then have e: "e \<noteq> 0" "?h \<noteq> 0"
      using bits(2) by (auto intro: gr0I)
    then have "?h - 1 = j"
      using leading_power_unique [of "?h - 1" e j] bits j by simp
    then show "\<not> (?h \<le> 1 \<or> \<bar>base\<bar> ^ (2 ^ (?h - 1)) < 2 ^ 31)"
      using j by simp
  next
    assume h: "\<not> (?h \<le> 1 \<or> \<bar>base\<bar> ^ (2 ^ (?h - 1)) < 2 ^ 31)"
    have "highest_bit_set ! 0 = 0"
      by (simp add: highest_bit_set_rows)
    with h have "e \<noteq> 0"
      by (metis zero_le)
    with h show "squares_overflow base e"
      unfolding squares_overflow_def using bits by (intro exI [of _ "?h - 1"]) auto
  qed
qed

text \<open>Without overflow of the squares the power itself has room to spare in 64 bits.\<close>

lemma power_fits64:
  assumes "e < 2 ^ h" and "h \<le> 1 \<or> \<bar>base\<bar> ^ (2 ^ (h - 1)) < 2 ^ 31" and "\<bar>base\<bar> \<le> 2 ^ 31"
  shows "fits64 (base ^ e)"
proof -
  have "\<bar>base\<bar> ^ e < 2 ^ 63"
  proof (cases "h \<le> 1")
    case True
    then have "e = 0 \<or> e = 1"
      using assms(1) by (cases h) auto
    then show ?thesis
      using assms(3) by auto
  next
    case False
    then have h: "e \<le> 2 ^ (h - 1) + 2 ^ (h - 1)"
      using assms(1) by (cases h) (auto simp: mult_2)
    have "\<bar>base\<bar> ^ e \<le> max 1 (\<bar>base\<bar> ^ (2 ^ (h - 1) + 2 ^ (h - 1)))"
      using h by (cases "\<bar>base\<bar> = 0") (auto simp: max_def power_0_left intro!: power_increasing)
    also have "\<dots> \<le> max 1 ((2 ^ 31) * (2 ^ 31))"
      unfolding power_add using False assms(2) by (intro max.mono mult_mono) simp_all
    finally show ?thesis
      by simp
  qed
  then have "\<bar>base ^ e\<bar> < 2 ^ 63"
    by (simp add: power_abs)
  then show ?thesis
    unfolding fits64_def by linarith
qed

lemma large_power:
  assumes "63 \<le> e" and "2 \<le> \<bar>base\<bar>" and "fits64 (base ^ e)"
  shows "base = - 2 \<and> e = 63"
proof -
  have "\<bar>base ^ e\<bar> \<le> 2 ^ 63"
    using assms(3) unfolding fits64_def by linarith
  then have le: "\<bar>base\<bar> ^ e \<le> 2 ^ 63"
    by (simp add: power_abs)
  have "(2 :: int) ^ e \<le> \<bar>base\<bar> ^ e"
    using assms(2) by (intro power_mono) simp_all
  then have "(2 :: int) ^ e \<le> 2 ^ 63"
    using le by linarith
  then have e: "e = 63"
    using assms(1) power_le_imp_le_exp [of "2 :: int" e 63] by simp
  have "\<bar>base\<bar> ^ 63 \<le> 2 ^ 63"
    using le e by simp
  then have "\<bar>base\<bar> = 2"
    using assms(2) power_less_imp_less_base [of 2 63 "\<bar>base\<bar>"] power_mono_iff [of "\<bar>base\<bar>" 2 63] by simp
  moreover have "base \<noteq> 2"
    using assms(3) e by (auto simp: fits64_def)
  ultimately show ?thesis
    using e by linarith
qed

lemma ipow_small:
  assumes "\<bar>base\<bar> \<le> 2 ^ 31" and "unat exp < 63"
  shows "ipow base exp =
    (if squares_overflow base (unat exp) then Crash SignedOverflow else Done (base ^ unat exp))"
proof -
  let ?h = "highest_bit_set ! unat exp"
  note bits = highest_bit_set_bits [OF assms(2)]
  have "?h \<noteq> 255"
    using bits(1) by linarith
  then have *: "ipow base exp = outcome_bind (ipow_cases ?h base (unat exp) 1) (\<lambda>result. Done (sint result))"
    by (simp only: ipow_def Let_def if_False)
  show ?thesis
  proof (cases "squares_overflow base (unat exp)")
    case True
    then show ?thesis
      unfolding * ipow_cases_power [OF bits(2)] using squares_overflow_iff [OF assms(2), of base]
      by (simp only: if_True if_False simp_thms outcome_bind.simps)
  next
    case False
    then have h: "?h \<le> 1 \<or> \<bar>base\<bar> ^ (2 ^ (?h - 1)) < 2 ^ 31"
      using squares_overflow_iff [OF assms(2), of base] by blast
    then have "sint (word_of_int (base ^ unat exp) :: u64) = base ^ unat exp"
      using power_fits64 [OF bits(2) h assms(1)] unfolding fits64_def
      by (intro sint_word_of_int_u64) simp_all
    then show ?thesis
      unfolding * ipow_cases_power [OF bits(2)] using h False
      by (simp only: if_True if_False simp_thms outcome_bind.simps mult_1_left)
  qed
qed

lemma ipow_large:
  assumes "63 \<le> unat exp"
  shows "ipow base exp =
    (if fits64 (base ^ unat exp) \<and> \<not> (base = - 2 \<and> exp = 63) then Done (base ^ unat exp) else Done 0)"
proof -
  have h: "highest_bit_set ! unat exp = 255"
    using assms highest_bit_set_rows(5) unat_byte by simp
  have "unat exp \<noteq> 0"
    using assms by linarith
  then have zero: "(0 :: int) ^ unat exp = 0"
    by simp
  have e63: "exp = 63 \<longleftrightarrow> unat exp = 63"
    by (simp add: word_unat_eq_iff)
  have unit: "fits64 0" "fits64 1" "fits64 (- 1)"
    by (simp_all add: fits64_def)
  have alt: "(- 1 :: int) ^ unat exp = 1 - 2 * int (unat exp mod 2)"
    by (cases "even (unat exp)") (simp_all add: odd_iff_mod_2_eq_one)
  have fits: "fits64 ((- 1) ^ unat exp)"
    by (cases "even (unat exp)") (simp_all add: unit)
  consider "base = 1" | "base = - 1" | "base = 0" | "2 \<le> \<bar>base\<bar>"
    by linarith
  then show ?thesis
  proof cases
    case 4
    then have "base \<noteq> 1" "base \<noteq> - 1" "\<not> (fits64 (base ^ unat exp) \<and> \<not> (base = - 2 \<and> exp = 63))"
      using large_power [OF assms] e63 by auto
    then show ?thesis
      by (simp only: ipow_def Let_def h if_True if_False simp_thms)
  qed (simp_all add: ipow_def h zero unit fits flip: alt)
qed

section \<open>Properties\<close>

text \<open>C36: What \<open>ipow\<close> returns, for every base and every exponent. Below 63 the result is the power, unless the
  squares of the base exceed 32 bits, which is an overflow of signed arithmetic even where the power fits in
  the result. From 63 on the result is the power when that fits in 64 bits, with one exception, and 0
  otherwise; the exception is \<open>(-2) ^ 63\<close>, for which 0 is returned although it fits.\<close>

theorem ipow_power:
  assumes "\<bar>base\<bar> \<le> 2 ^ 31"
  shows "ipow base exp =
    (if unat exp < 63
     then if squares_overflow base (unat exp) then Crash SignedOverflow else Done (base ^ unat exp)
     else if fits64 (base ^ unat exp) \<and> \<not> (base = - 2 \<and> exp = 63) then Done (base ^ unat exp)
     else Done 0)"
  using ipow_small [OF assms, of exp] ipow_large [of exp base]
  by (cases "unat exp < 63") (simp_all only: if_True if_False not_less [symmetric] not_False_eq_True)

theorem ipow_power_witness:
  "ipow 3 20 = Done (3 ^ 20) \<and> ipow 2 32 = Crash SignedOverflow \<and> ipow (- 1) 101 = Done (- 1)"
proof -
  have entries: "highest_bit_set ! 20 = 5" "highest_bit_set ! 32 = 6"
    by (simp_all add: highest_bit_set_rows)
  have "\<not> squares_overflow 3 20"
    using squares_overflow_iff [of 20 3] entries(1) by simp
  moreover have "squares_overflow 2 32"
    using squares_overflow_iff [of 32 2] entries(2) by simp
  ultimately show ?thesis
    using ipow_power [of 3 20] ipow_power [of 2 32] ipow_power [of "- 1" 101] by (simp add: fits64_def)
qed

end
