(* ===== verification/CacheAlgo.thy ===== *)
theory CacheAlgo
  imports Prelude
begin

text \<open>
  \<open>src/src/exercises/optimization/cache_line_and_algo/solution.c\<close>: the same computation on an array in two passes
  over the whole of it, and in two passes over one block after the other. The elements are signed 32-bit
  numbers, whose overflow is a crash. The indices have 64 bits and stay below the number of elements plus
  the size of a block, which no array in memory comes near.
\<close>

section \<open>The program\<close>

text \<open>\<open>rands\<close> are the values \<open>rand\<close> returns, one for each element.\<close>

definition init_array :: "int list \<Rightarrow> int list" where
  "init_array rands = map (\<lambda>r. r mod 1000) rands"

text \<open>The remainder of C has the sign of the dividend: a negative odd number does not give 1.\<close>

definition rem2_is_1 :: "int \<Rightarrow> bool" where
  "rem2_is_1 x \<longleftrightarrow> (if 0 \<le> x then x mod 2 else - (- x mod 2)) = 1"

definition add_1 :: "nat \<Rightarrow> int list \<Rightarrow> int list outcome" where
  "add_1 i arr =
     outcome_bind (get_at arr i) (\<lambda>x.
     outcome_bind (signed32 (x + 1)) (\<lambda>x. set_at arr i x))"

definition double_if_odd :: "nat \<Rightarrow> int list \<Rightarrow> int list outcome" where
  "double_if_odd i arr =
     outcome_bind (get_at arr (i - 1)) (\<lambda>prev.
     if rem2_is_1 prev
     then outcome_bind (get_at arr i) (\<lambda>x.
          outcome_bind (signed32 (x * 2)) (\<lambda>x. set_at arr i x))
     else Done arr)"

definition process_cache_unfriendly :: "int list \<Rightarrow> nat \<Rightarrow> int list outcome" where
  "process_cache_unfriendly arr sz =
     outcome_bind (for_each add_1 [0..<sz] arr) (for_each double_if_odd [1..<sz])"

definition chunk_size :: nat where
  "chunk_size = 64 * 1024 div 4"

function process_chunks :: "nat \<Rightarrow> nat \<Rightarrow> int list \<Rightarrow> int list outcome" where
  "process_chunks start sz arr =
    (if start < sz
     then let end = (if start + chunk_size > sz then sz else start + chunk_size)
          in outcome_bind (for_each add_1 [start..<end] arr) (\<lambda>arr.
             let loop_start = (if start = 0 then 1 else start)
             in outcome_bind (for_each double_if_odd [loop_start..<end] arr)
                  (process_chunks (start + chunk_size) sz))
     else Done arr)"
  by pat_completeness auto

termination
  by (relation "measure (\<lambda>(start, sz, arr). sz - start)") (auto simp: chunk_size_def)

declare process_chunks.simps [simp del]

definition process_cache_friendly :: "int list \<Rightarrow> nat \<Rightarrow> int list outcome" where
  "process_cache_friendly arr sz = process_chunks 0 sz arr"

fun verify_results :: "int list \<Rightarrow> int list \<Rightarrow> nat list \<Rightarrow> bool outcome" where
  "verify_results arr1 arr2 [] = Done True"
| "verify_results arr1 arr2 (i # is) =
     outcome_bind (get_at arr1 i) (\<lambda>x.
     outcome_bind (get_at arr2 i) (\<lambda>y.
     if x \<noteq> y then Done False else verify_results arr1 arr2 is))"

text \<open>The program, up to what it prints: whether the two results match.\<close>

definition cache_main :: "int list \<Rightarrow> bool outcome" where
  "cache_main rands =
    (let arr1 = init_array rands; arr2 = arr1; sz = length rands
     in outcome_bind (process_cache_unfriendly arr1 sz) (\<lambda>arr1.
        outcome_bind (process_cache_friendly arr2 sz) (\<lambda>arr2.
        verify_results arr1 arr2 [0..<sz])))"

section \<open>One pass as a function on lists\<close>

text \<open>\<open>None\<close> is an overflow.\<close>

definition in32 :: "int \<Rightarrow> int option" where
  "in32 x = (if - (2 ^ 31) \<le> x \<and> x < 2 ^ 31 then Some x else None)"

fun incremented :: "int list \<Rightarrow> int list option" where
  "incremented [] = Some []"
| "incremented (x # xs) =
     Option.bind (in32 (x + 1)) (\<lambda>y. Option.bind (incremented xs) (\<lambda>ys. Some (y # ys)))"

fun doubled :: "bool \<Rightarrow> int list \<Rightarrow> int list option" where
  "doubled odd_before [] = Some []"
| "doubled odd_before (x # xs) =
     Option.bind (if odd_before then in32 (x * 2) else Some x)
       (\<lambda>y. Option.bind (doubled (rem2_is_1 y) xs) (\<lambda>ys. Some (y # ys)))"

definition checked_result :: "('a \<Rightarrow> 'b) \<Rightarrow> 'a option \<Rightarrow> 'b outcome" where
  "checked_result f r = (case r of None \<Rightarrow> Crash SignedOverflow | Some x \<Rightarrow> Done (f x))"

definition last_odd :: "bool \<Rightarrow> int list \<Rightarrow> bool" where
  "last_odd odd_before ys = (if ys = [] then odd_before else rem2_is_1 (last ys))"

lemma signed32_in32: "signed32 x = checked_result (\<lambda>x. x) (in32 x)"
  by (simp add: signed32_def in32_def checked_result_def)

lemma length_incremented: "incremented xs = Some ys \<Longrightarrow> length ys = length xs"
  by (induction xs arbitrary: ys) (auto simp: bind_eq_Some_conv)

lemma length_doubled: "doubled b xs = Some ys \<Longrightarrow> length ys = length xs"
  by (induction b xs arbitrary: ys rule: doubled.induct) (auto simp: bind_eq_Some_conv)

lemma incremented_append:
  "incremented (xs @ ys) =
    Option.bind (incremented xs) (\<lambda>us. Option.bind (incremented ys) (\<lambda>vs. Some (us @ vs)))"
proof (induction xs)
  case (Cons x xs)
  then show ?case
    by (cases "in32 (x + 1)"; cases "incremented xs"; cases "incremented ys") simp_all
qed simp

lemma doubled_append:
  "doubled b (xs @ ys) =
    Option.bind (doubled b xs) (\<lambda>us. Option.bind (doubled (last_odd b us) ys) (\<lambda>vs. Some (us @ vs)))"
proof (induction xs arbitrary: b)
  case (Cons x xs)
  let ?r = "if b then in32 (x * 2) else Some x"
  show ?case
  proof (cases ?r)
    case (Some y)
    have "last_odd b (y # us) = last_odd (rem2_is_1 y) us" for us
      by (simp add: last_odd_def)
    then show ?thesis
      using Some Cons.IH [of "rem2_is_1 y"] by (cases "doubled (rem2_is_1 y) xs") simp_all
  qed simp
qed (simp add: last_odd_def)

text \<open>The array is written as what lies before the pass, what it covers, and what lies behind.\<close>

lemma add_1_at: "add_1 (length p) (p @ x # zs) = checked_result (\<lambda>y. p @ y # zs) (in32 (x + 1))"
  by (simp add: add_1_def get_at_def set_at_def signed32_in32 checked_result_def split: option.split)

lemma double_if_odd_at:
  assumes "p \<noteq> []"
  shows "double_if_odd (length p) (p @ x # zs) =
    checked_result (\<lambda>y. p @ y # zs) (if rem2_is_1 (last p) then in32 (x * 2) else Some x)"
proof -
  have "(p @ x # zs) ! (length p - 1) = last p" "length p - 1 < length (p @ x # zs)"
    using assms by (simp_all add: nth_append last_conv_nth)
  then show ?thesis
    by (simp add: double_if_odd_def get_at_def set_at_def signed32_in32 checked_result_def split: option.split)
qed

lemma upt_length_Cons:
  "[length p..<length p + length (x # xs)] = length p # [length (p @ [y])..<length (p @ [y]) + length xs]"
  by (simp add: upt_conv_Cons del: upt_Suc)

lemma add_pass:
  "for_each add_1 [length p..<length p + length xs] (p @ xs @ zs) =
    checked_result (\<lambda>ys. p @ ys @ zs) (incremented xs)"
proof (induction xs arbitrary: p)
  case (Cons x xs)
  have "for_each add_1 [length p..<length p + length (x # xs)] (p @ (x # xs) @ zs) =
      outcome_bind (checked_result (\<lambda>y. p @ y # xs @ zs) (in32 (x + 1)))
        (for_each add_1 [length (p @ [x])..<length (p @ [x]) + length xs])"
    by (simp only: upt_length_Cons [of p x xs x] for_each.simps append_Cons add_1_at)
  also have "\<dots> = checked_result (\<lambda>ys. p @ ys @ zs) (incremented (x # xs))"
    using Cons.IH [of "p @ [the (in32 (x + 1))]"]
    by (cases "in32 (x + 1)"; cases "incremented xs") (simp_all add: checked_result_def del: upt_Suc)
  finally show ?case .
qed (simp add: checked_result_def)

lemma double_pass:
  "p \<noteq> [] \<Longrightarrow> for_each double_if_odd [length p..<length p + length xs] (p @ xs @ zs) =
    checked_result (\<lambda>ys. p @ ys @ zs) (doubled (rem2_is_1 (last p)) xs)"
proof (induction xs arbitrary: p)
  case (Cons x xs)
  let ?r = "if rem2_is_1 (last p) then in32 (x * 2) else Some x"
  have "for_each double_if_odd [length p..<length p + length (x # xs)] (p @ (x # xs) @ zs) =
      outcome_bind (checked_result (\<lambda>y. p @ y # xs @ zs) ?r)
        (for_each double_if_odd [length (p @ [x])..<length (p @ [x]) + length xs])"
    by (simp only: upt_length_Cons [of p x xs x] for_each.simps append_Cons double_if_odd_at [OF Cons.prems])
  also have "\<dots> = checked_result (\<lambda>ys. p @ ys @ zs) (doubled (rem2_is_1 (last p)) (x # xs))"
  proof (cases ?r)
    case (Some y)
    then show ?thesis
      using Cons.IH [of "p @ [y]"]
      by (cases "doubled (rem2_is_1 y) xs") (simp_all add: checked_result_def del: upt_Suc)
  qed (simp add: checked_result_def)
  finally show ?case .
qed (simp add: checked_result_def)

text \<open>Both passes over one part of the array, given whether the element before it is odd by now.\<close>

definition both_passes :: "bool \<Rightarrow> int list \<Rightarrow> int list option" where
  "both_passes b xs = Option.bind (incremented xs) (doubled b)"

lemma length_both_passes: "both_passes b xs = Some ys \<Longrightarrow> length ys = length xs"
  by (metis bind_eq_Some_conv both_passes_def length_doubled length_incremented)

lemma both_passes_append:
  "both_passes b (xs @ ys) =
    Option.bind (both_passes b xs) (\<lambda>us. Option.bind (both_passes (last_odd b us) ys) (\<lambda>vs. Some (us @ vs)))"
  by (cases "incremented xs"; cases "incremented ys")
    (simp_all add: both_passes_def incremented_append doubled_append)

lemma passes_on_part:
  assumes "p = [] \<longrightarrow> \<not> b" and "p \<noteq> [] \<longrightarrow> b = rem2_is_1 (last p)"
  shows "outcome_bind (for_each add_1 [length p..<length p + length xs] (p @ xs @ zs))
      (for_each double_if_odd [(if length p = 0 then 1 else length p)..<length p + length xs]) =
    checked_result (\<lambda>ys. p @ ys @ zs) (both_passes b xs)"
proof (cases "incremented xs")
  case (Some ys)
  note len = length_incremented [OF Some]
  show ?thesis
  proof (cases "p = []")
    case False
    then show ?thesis
      using double_pass [OF False, of ys zs] Some len assms
      unfolding add_pass both_passes_def by (simp add: checked_result_def)
  next
    case True
    show ?thesis
    proof (cases ys)
      case Nil
      then show ?thesis
        using True Some len unfolding add_pass both_passes_def by (simp add: checked_result_def)
    next
      case (Cons y ys')
      then show ?thesis
        using double_pass [of "[y]" ys' zs] True Some len assms unfolding add_pass both_passes_def
        by (cases "doubled (rem2_is_1 y) ys'") (simp_all add: checked_result_def del: upt_Suc)
    qed
  qed
qed (simp add: add_pass both_passes_def checked_result_def)

text \<open>Block after block, what has been processed grows at the front of the array.\<close>

lemma process_chunks_passes:
  "p = [] \<longrightarrow> \<not> b \<Longrightarrow> p \<noteq> [] \<longrightarrow> b = rem2_is_1 (last p) \<Longrightarrow>
    process_chunks (length p) (length p + length xs) (p @ xs @ zs) =
    checked_result (\<lambda>ys. p @ ys @ zs) (both_passes b xs)"
proof (induction "length xs" arbitrary: p b xs rule: less_induct)
  case less
  show ?case
  proof (cases "xs = []")
    case True
    then show ?thesis
      by (simp add: process_chunks.simps both_passes_def checked_result_def)
  next
    case False
    define n where "n = min chunk_size (length xs)"
    define us where "us = take n xs"
    define vs where "vs = drop n xs"
    have xs: "xs = us @ vs" and n: "length us = n" and shorter: "length vs < length xs"
      using False by (auto simp: us_def vs_def n_def chunk_size_def)
    have "process_chunks (length p) (length p + length xs) (p @ xs @ zs) =
      outcome_bind (checked_result (\<lambda>ys. p @ ys @ vs @ zs) (both_passes b us))
        (process_chunks (length p + chunk_size) (length p + length xs))"
    proof -
      have "(if length p + length xs < length p + chunk_size then length p + length xs else length p + chunk_size) =
          length p + length us"
        by (simp add: n n_def min_def)
      then show ?thesis
        using False passes_on_part [OF less.prems, of us "vs @ zs"]
        by (subst process_chunks.simps) (simp add: xs Let_def outcome_bind_assoc [symmetric] del: upt_Suc)
    qed
    also have "\<dots> = checked_result (\<lambda>ys. p @ ys @ zs) (both_passes b xs)"
    proof (cases "both_passes b us")
      case None
      then show ?thesis
        by (simp add: xs both_passes_append checked_result_def)
    next
      case (Some ys)
      then have len: "length ys = n"
        using n by (simp add: length_both_passes)
      have "n \<noteq> 0"
        using False by (simp add: n_def chunk_size_def)
      then have "ys \<noteq> []"
        using len by auto
      have "process_chunks (length p + chunk_size) (length p + length xs) ((p @ ys) @ vs @ zs) =
          checked_result (\<lambda>zs'. (p @ ys) @ zs' @ zs) (both_passes (last_odd b ys) vs)"
      proof (cases "vs = []")
        case True
        then have "length xs \<le> chunk_size"
          by (simp add: vs_def n_def)
        then show ?thesis
          using True by (simp add: process_chunks.simps both_passes_def checked_result_def)
      next
        case False
        then have "length ys = chunk_size"
          by (auto simp: len n_def vs_def)
        moreover have "length xs = length ys + length vs"
          by (simp add: xs n len)
        ultimately show ?thesis
          using less.hyps [OF shorter, of "p @ ys" "last_odd b ys"] \<open>ys \<noteq> []\<close>
          by (simp add: last_odd_def add.assoc)
      qed
      then show ?thesis
        using Some by (cases "both_passes (last_odd b ys) vs") (simp_all add: xs both_passes_append checked_result_def)
    qed
    finally show ?thesis .
  qed
qed

lemma process_whole:
  assumes "sz \<le> length arr"
  shows "process_cache_unfriendly arr sz = checked_result (\<lambda>ys. ys @ drop sz arr) (both_passes False (take sz arr))"
    and "process_cache_friendly arr sz = checked_result (\<lambda>ys. ys @ drop sz arr) (both_passes False (take sz arr))"
  using passes_on_part [of "[]" False "take sz arr" "drop sz arr"]
    process_chunks_passes [of "[]" False "take sz arr" "drop sz arr"] assms
  by (simp_all add: process_cache_unfriendly_def process_cache_friendly_def min_absorb2)

text \<open>The numbers that \<open>main\<close> puts into the array leave room for both passes.\<close>

lemma both_passes_small:
  assumes "\<forall>x \<in> set xs. 0 \<le> x \<and> x < 1000"
  shows "both_passes b xs \<noteq> None"
proof -
  have "\<exists>ys. incremented xs = Some ys \<and> (\<forall>y \<in> set ys. 0 \<le> y \<and> y \<le> 1000)"
    using assms by (induction xs) (auto simp: in32_def)
  moreover have "\<forall>y \<in> set ys. 0 \<le> y \<and> y \<le> 1000 \<Longrightarrow> doubled b ys \<noteq> None" for ys
    by (induction b ys rule: doubled.induct) (auto simp: in32_def)
  ultimately show ?thesis
    by (auto simp: both_passes_def)
qed

lemma verify_results_same:
  "\<forall>i \<in> set is. i < length arr \<Longrightarrow> verify_results arr arr is = Done True"
  by (induction "is") (auto simp: get_at_def)

section \<open>Properties\<close>

text \<open>C37: The blockwise computation does what the computation in two passes does: on every array, for every number of
  elements that the array has, the two leave the same array behind, or both overflow.\<close>

theorem cache_friendly_same:
  assumes "sz \<le> length arr"
  shows "process_cache_friendly arr sz = process_cache_unfriendly arr sz"
  using process_whole [OF assms] by simp

theorem cache_friendly_same_witness:
  "process_cache_friendly [3, 4, 6, - 1] 3 = process_cache_unfriendly [3, 4, 6, - 1] 3 \<and>
    process_cache_unfriendly [3, 4, 6, - 1] 3 = Done [4, 5, 14, - 1]"
proof
  show "process_cache_unfriendly [3, 4, 6, - 1] 3 = Done [4, 5, 14, - 1]"
    by code_simp
qed (simp add: cache_friendly_same)

text \<open>The program finds that its two results match, whatever non-negative numbers \<open>rand\<close> returns.\<close>

lemma cache_main_matches:
  "cache_main rands = Done True"
proof -
  let ?arr = "init_array rands"
  have "\<forall>x \<in> set ?arr. 0 \<le> x \<and> x < 1000"
    by (simp add: init_array_def)
  then obtain ys where ys: "both_passes False ?arr = Some ys"
    using both_passes_small by blast
  then have "length ys = length rands"
    by (simp add: length_both_passes init_array_def)
  then show ?thesis
    using process_whole [of "length rands" ?arr] ys
    by (simp add: cache_main_def verify_results_same checked_result_def init_array_def)
qed

end
