(* ===== verification/SpinLock.thy ===== *)
theory SpinLock
  imports RingFifo
begin

text \<open>
  \<open>src/src/exercises/c/spinlock/solution.c\<close>: a spin lock made of a compare-and-swap, and the workers that take
  turns under it. There is one worker for each of the \<open>cpu_num\<close> processors. A step is one access to shared
  memory; the load and the store of \<open>counter++\<close> are two, so that it is the lock that keeps them together.
\<close>

section \<open>The program\<close>

definition spin_loops :: nat where
  "spin_loops = 3"

text \<open>
  Where a worker is: at the compare-and-swap, at the test of \<open>counter\<close> with the lock taken, at the store of
  \<open>counter++\<close> with the value it has loaded, at the release, or at its end.
\<close>

datatype spin_pc = Spinning | Testing | Counting nat | Leaving | Ended

record spin =
  lock_val :: nat
  turn_counter :: nat
  spin_at :: "nat \<Rightarrow> spin_pc"
  success :: "nat \<Rightarrow> nat"

definition mypthread_spin_init :: "spin \<Rightarrow> spin" where
  "mypthread_spin_init s = s\<lparr>lock_val := 0\<rparr>"

definition spin_start :: spin where
  "spin_start = mypthread_spin_init \<lparr>lock_val = 0, turn_counter = 0, spin_at = (\<lambda>_. Spinning), success = (\<lambda>_. 0)\<rparr>"

text \<open>One attempt to swap 0 for 1: whether it succeeds, and the lock after it.\<close>

definition compare_and_swap_lock :: "spin \<Rightarrow> bool \<times> spin" where
  "compare_and_swap_lock s = (if lock_val s = 0 then (True, s\<lparr>lock_val := 1\<rparr>) else (False, s))"

definition mypthread_spin_lock_once :: "nat \<Rightarrow> spin \<Rightarrow> spin" where
  "mypthread_spin_lock_once num s =
    (case compare_and_swap_lock s of
       (True, s) \<Rightarrow> s\<lparr>spin_at := (spin_at s)(num := Testing)\<rparr>
     | (False, s) \<Rightarrow> s)"

definition spin_test :: "nat \<Rightarrow> nat \<Rightarrow> spin \<Rightarrow> spin" where
  "spin_test cpu_num num s =
    s\<lparr>spin_at := (spin_at s)(num :=
      (if turn_counter s mod cpu_num = num then Counting (turn_counter s) else Leaving))\<rparr>"

definition spin_count :: "nat \<Rightarrow> nat \<Rightarrow> spin \<Rightarrow> spin" where
  "spin_count num loaded s =
    s\<lparr>turn_counter := loaded + 1, success := (success s)(num := success s num + 1),
      spin_at := (spin_at s)(num := Leaving)\<rparr>"

text \<open>The release, and the condition of the loop behind it.\<close>

definition mypthread_spin_unlock :: "nat \<Rightarrow> spin \<Rightarrow> spin" where
  "mypthread_spin_unlock num s =
    s\<lparr>lock_val := 0,
      spin_at := (spin_at s)(num := (if success s num < spin_loops then Spinning else Ended))\<rparr>"

fun spin_worker_step :: "nat \<Rightarrow> nat \<Rightarrow> spin \<Rightarrow> spin option" where
  "spin_worker_step cpu_num num s =
    (case spin_at s num of
       Spinning \<Rightarrow> Some (mypthread_spin_lock_once num s)
     | Testing \<Rightarrow> Some (spin_test cpu_num num s)
     | Counting loaded \<Rightarrow> Some (spin_count num loaded s)
     | Leaving \<Rightarrow> Some (mypthread_spin_unlock num s)
     | Ended \<Rightarrow> None)"

inductive spin_step :: "nat \<Rightarrow> spin \<Rightarrow> nat \<Rightarrow> spin \<Rightarrow> bool" for cpu_num where
  spin_step: "num < cpu_num \<Longrightarrow> spin_worker_step cpu_num num s = Some s' \<Longrightarrow> spin_step cpu_num s num s'"

definition has_lock :: "spin \<Rightarrow> nat \<Rightarrow> bool" where
  "has_lock s num \<longleftrightarrow> spin_at s num \<noteq> Spinning \<and> spin_at s num \<noteq> Ended"

section \<open>Invariant\<close>

text \<open>The number of turns worker \<open>num\<close> has had when the counter is \<open>c\<close>.\<close>

definition turns :: "nat \<Rightarrow> nat \<Rightarrow> nat \<Rightarrow> nat" where
  "turns cpu_num c num = c div cpu_num + (if num < c mod cpu_num then 1 else 0)"

lemma turns_Suc:
  assumes "num < cpu_num"
  shows "turns cpu_num (Suc c) num = turns cpu_num c num + (if num = c mod cpu_num then 1 else 0)"
proof (cases "Suc (c mod cpu_num) = cpu_num")
  case True
  then have "Suc c mod cpu_num = 0" "Suc c div cpu_num = Suc (c div cpu_num)"
    by (simp_all add: mod_Suc div_Suc)
  then show ?thesis
    using True assms by (auto simp: turns_def)
next
  case False
  then have "Suc c mod cpu_num = Suc (c mod cpu_num)" "Suc c div cpu_num = c div cpu_num"
    by (simp_all add: mod_Suc div_Suc)
  then show ?thesis
    by (auto simp: turns_def)
qed

fun worker_ok :: "nat \<Rightarrow> nat \<Rightarrow> nat \<Rightarrow> spin_pc \<Rightarrow> nat \<Rightarrow> bool" where
  "worker_ok cpu_num c i Spinning k \<longleftrightarrow> k < spin_loops"
| "worker_ok cpu_num c i Testing k \<longleftrightarrow> k < spin_loops"
| "worker_ok cpu_num c i (Counting d) k \<longleftrightarrow> d = c \<and> c mod cpu_num = i \<and> k < spin_loops"
| "worker_ok cpu_num c i Leaving k \<longleftrightarrow> k \<le> spin_loops"
| "worker_ok cpu_num c i Ended k \<longleftrightarrow> k = spin_loops"

definition spin_owner :: "nat \<Rightarrow> spin \<Rightarrow> nat option \<Rightarrow> bool" where
  "spin_owner cpu_num s owner \<longleftrightarrow>
     lock_val s = (if owner = None then 0 else 1) \<and> (\<forall>i. owner = Some i \<longrightarrow> i < cpu_num) \<and>
     (\<forall>i < cpu_num. has_lock s i \<longleftrightarrow> owner = Some i)"

definition spin_inv :: "nat \<Rightarrow> spin \<Rightarrow> bool" where
  "spin_inv cpu_num s \<longleftrightarrow>
     (\<exists>owner. spin_owner cpu_num s owner) \<and>
     (\<forall>i < cpu_num. success s i = turns cpu_num (turn_counter s) i \<and>
        worker_ok cpu_num (turn_counter s) i (spin_at s i) (success s i))"

lemma spin_owner_same:
  "spin_owner cpu_num s owner \<Longrightarrow> lock_val s' = lock_val s \<Longrightarrow> (\<And>i. has_lock s' i = has_lock s i) \<Longrightarrow>
    spin_owner cpu_num s' owner"
  by (simp add: spin_owner_def)

lemma spin_invD:
  assumes "spin_inv cpu_num s" and "i < cpu_num"
  shows "success s i = turns cpu_num (turn_counter s) i"
    and "worker_ok cpu_num (turn_counter s) i (spin_at s i) (success s i)"
    and "lock_val s = 0 \<Longrightarrow> \<not> has_lock s i"
  using assms unfolding spin_inv_def spin_owner_def by (blast, blast, auto split: if_splits)

lemma spin_inv_start: "spin_inv cpu_num spin_start"
  by (simp add: spin_inv_def spin_owner_def spin_start_def mypthread_spin_init_def has_lock_def turns_def spin_loops_def)

lemma worker_not_counting:
  "worker_ok cpu_num c i pc k \<Longrightarrow> (\<And>d. pc \<noteq> Counting d) \<Longrightarrow> worker_ok cpu_num c' i pc k"
  by (cases pc) auto

lemma spin_inv_step:
  assumes "spin_inv cpu_num s" and "spin_step cpu_num s num s'"
  shows "spin_inv cpu_num s'"
proof -
  from assms(2) have num: "num < cpu_num" and step: "spin_worker_step cpu_num num s = Some s'"
    by (auto elim: spin_step.cases)
  from assms(1) obtain owner where owner: "spin_owner cpu_num s owner"
    and ok: "\<And>i. i < cpu_num \<Longrightarrow> success s i = turns cpu_num (turn_counter s) i"
      "\<And>i. i < cpu_num \<Longrightarrow> worker_ok cpu_num (turn_counter s) i (spin_at s i) (success s i)"
    unfolding spin_inv_def by blast
  have mine: "owner = Some num" if "has_lock s num"
    using that owner num by (simp add: spin_owner_def)
  show ?thesis
  proof (cases "spin_at s num")
    case Spinning
    show ?thesis
    proof (cases "lock_val s = 0")
      case True
      then have "s' = s\<lparr>lock_val := 1, spin_at := (spin_at s)(num := Testing)\<rparr>"
        using Spinning step by (simp add: mypthread_spin_lock_once_def compare_and_swap_lock_def)
      moreover have "owner = None"
        using owner True by (auto simp: spin_owner_def split: if_splits)
      ultimately have "spin_owner cpu_num s' (Some num)"
        using owner num by (auto simp: spin_owner_def has_lock_def)
      then show ?thesis
        using ok num Spinning ok(2) [OF num] \<open>s' = _\<close> by (auto simp: spin_inv_def)
    next
      case False
      then show ?thesis
        using Spinning step assms(1) by (simp add: mypthread_spin_lock_once_def compare_and_swap_lock_def)
    qed
  next
    case Testing
    then have "spin_owner cpu_num s' owner"
      using owner step by (intro spin_owner_same [OF owner]) (auto simp: spin_test_def has_lock_def split: if_splits)
    then show ?thesis
      using ok ok(2) [OF num] num step Testing
      by (cases "turn_counter s mod cpu_num = num") (auto simp: spin_inv_def spin_test_def)
  next
    case (Counting c)
    then have c: "c = turn_counter s" "c mod cpu_num = num" "success s num < spin_loops"
      using ok(2) [OF num] by simp_all
    have s': "s' = spin_count num c s"
      using Counting step by simp
    then have "spin_owner cpu_num s' owner"
      using Counting by (intro spin_owner_same [OF owner]) (auto simp: spin_count_def has_lock_def)
    moreover have "spin_at s i \<noteq> Counting d" if "i < cpu_num" "i \<noteq> num" for i d
      using mine owner that Counting by (auto simp: spin_owner_def has_lock_def)
    ultimately show ?thesis
      using ok c s' num worker_not_counting [OF ok(2)]
      by (auto simp: spin_inv_def spin_count_def turns_Suc)
  next
    case Leaving
    then have "owner = Some num"
      by (intro mine) (simp add: has_lock_def)
    moreover have "has_lock s' i \<longleftrightarrow> has_lock s i \<and> i \<noteq> num" for i
      using step Leaving by (auto simp: mypthread_spin_unlock_def has_lock_def split: if_splits)
    moreover have "lock_val s' = 0"
      using step Leaving by (auto simp: mypthread_spin_unlock_def)
    ultimately have "spin_owner cpu_num s' None"
      using owner by (auto simp: spin_owner_def)
    then show ?thesis
      using ok ok(2) [OF num] num step Leaving by (auto simp: spin_inv_def mypthread_spin_unlock_def)
  next
    case Ended
    then show ?thesis
      using step by simp
  qed
qed

lemma spin_reachable:
  "steps (spin_step cpu_num) spin_start nums s \<Longrightarrow> spin_inv cpu_num s"
  using steps_invariant [where P = "spin_inv cpu_num"] spin_inv_step spin_inv_start by metis

section \<open>Progress\<close>

definition all_ended :: "nat \<Rightarrow> spin \<Rightarrow> bool" where
  "all_ended cpu_num s \<longleftrightarrow> (\<forall>i < cpu_num. spin_at s i = Ended)"

text \<open>The worker that has the lock can go on to the release by itself.\<close>

lemma spin_worker_on:
  assumes "num < cpu_num" and "spin_worker_step cpu_num num s = Some s'" and "can_reach (spin_step cpu_num) s' P"
  shows "can_reach (spin_step cpu_num) s P"
  using can_reach_step [of "spin_step cpu_num" s num s' P] assms by (simp add: spin_step.intros)

lemma spin_reach_inv:
  assumes "can_reach (spin_step cpu_num) s P" and "spin_inv cpu_num s"
    and "\<And>s'. P s' \<Longrightarrow> spin_inv cpu_num s' \<Longrightarrow> can_reach (spin_step cpu_num) s' Q"
  shows "can_reach (spin_step cpu_num) s Q"
  using can_reach_invariant [of "spin_step cpu_num" s P "spin_inv cpu_num"] assms spin_inv_step can_reach_trans
  by (metis (no_types, lifting))

lemma spin_leave:
  assumes "num < cpu_num" and "spin_at s num = Leaving"
  shows "can_reach (spin_step cpu_num) s (\<lambda>s'. lock_val s' = 0 \<and> turn_counter s' = turn_counter s)"
  by (rule spin_worker_on [OF assms(1) _ can_reach_now, of _ "mypthread_spin_unlock num s"])
    (use assms(2) in \<open>simp_all add: mypthread_spin_unlock_def\<close>)

lemma spin_turn:
  assumes "num < cpu_num" and "spin_at s num = Counting (turn_counter s)"
  shows "can_reach (spin_step cpu_num) s (\<lambda>s'. lock_val s' = 0 \<and> turn_counter s' = Suc (turn_counter s))"
proof (rule spin_worker_on [OF assms(1)])
  show "spin_worker_step cpu_num num s = Some (spin_count num (turn_counter s) s)"
    using assms(2) by simp
  show "can_reach (spin_step cpu_num) (spin_count num (turn_counter s) s)
      (\<lambda>s'. lock_val s' = 0 \<and> turn_counter s' = Suc (turn_counter s))"
    using spin_leave [OF assms(1), of "spin_count num (turn_counter s) s"] by (simp add: spin_count_def)
qed

lemma spin_release:
  assumes "spin_inv cpu_num s"
  shows "can_reach (spin_step cpu_num) s (\<lambda>s'. lock_val s' = 0)"
proof (cases "lock_val s = 0")
  case True
  then show ?thesis
    by (rule can_reach_now)
next
  case False
  obtain owner where owner: "spin_owner cpu_num s owner"
    using assms unfolding spin_inv_def by blast
  with False obtain num where num: "num < cpu_num" "has_lock s num"
    by (cases owner) (auto simp: spin_owner_def)
  show ?thesis
  proof (cases "spin_at s num")
    case Testing
    have "can_reach (spin_step cpu_num) (spin_test cpu_num num s) (\<lambda>s'. lock_val s' = 0)"
      using spin_leave [OF num(1), of "spin_test cpu_num num s"] spin_turn [OF num(1), of "spin_test cpu_num num s"]
      by (cases "turn_counter s mod cpu_num = num") (auto simp: spin_test_def elim: can_reach_mono)
    then show ?thesis
      using Testing by (intro spin_worker_on [OF num(1), of s "spin_test cpu_num num s"]) simp_all
  next
    case (Counting c)
    then have "c = turn_counter s"
      using spin_invD(2) [OF assms num(1)] by simp
    then show ?thesis
      using spin_turn [OF num(1), of s] Counting by (auto elim: can_reach_mono)
  next
    case Leaving
    then show ?thesis
      using spin_leave [OF num(1), of s] by (auto elim: can_reach_mono)
  qed (use num in \<open>simp_all add: has_lock_def\<close>)
qed

text \<open>When the lock is free, the worker whose turn it is can take it and count.\<close>

lemma spin_next:
  assumes "spin_inv cpu_num s" and "lock_val s = 0" and "turn_counter s < spin_loops * cpu_num"
  shows "can_reach (spin_step cpu_num) s (\<lambda>s'. lock_val s' = 0 \<and> turn_counter s' = Suc (turn_counter s))"
proof -
  define num where "num = turn_counter s mod cpu_num"
  have "cpu_num \<noteq> 0"
    using assms(3) by (cases cpu_num) auto
  then have num: "num < cpu_num"
    by (simp add: num_def)
  have "turn_counter s div cpu_num < spin_loops"
    using assms(3) by (simp add: less_mult_imp_div_less)
  then have "success s num < spin_loops"
    using spin_invD(1) [OF assms(1) num] by (simp add: turns_def num_def)
  moreover note spin_invD(2,3) [OF assms(1) num]
  ultimately have at: "spin_at s num = Spinning"
    using assms(2) by (auto simp: has_lock_def)
  define s1 where "s1 = mypthread_spin_lock_once num s"
  define s2 where "s2 = spin_test cpu_num num s1"
  have s1: "spin_at s1 num = Testing" "turn_counter s1 = turn_counter s"
    using assms(2) by (simp_all add: s1_def mypthread_spin_lock_once_def compare_and_swap_lock_def)
  have s2: "spin_at s2 num = Counting (turn_counter s2)" "turn_counter s2 = turn_counter s"
    using s1 by (simp_all add: s2_def spin_test_def num_def)
  have "can_reach (spin_step cpu_num) s2 (\<lambda>s'. lock_val s' = 0 \<and> turn_counter s' = Suc (turn_counter s))"
    using spin_turn [OF num s2(1)] s2(2) by simp
  then have "can_reach (spin_step cpu_num) s1 (\<lambda>s'. lock_val s' = 0 \<and> turn_counter s' = Suc (turn_counter s))"
    using s1 by (intro spin_worker_on [OF num, of s1 s2]) (simp_all add: s2_def)
  then show ?thesis
    using at by (intro spin_worker_on [OF num, of s s1]) (simp_all add: s1_def)
qed

text \<open>The counter never exceeds the number of turns there are, and at that number all workers have ended.\<close>

lemma spin_success_le:
  assumes "spin_inv cpu_num s" and "i < cpu_num"
  shows "success s i \<le> spin_loops"
  using spin_invD(2) [OF assms] by (cases "spin_at s i") simp_all

lemma spin_counter_le:
  assumes "spin_inv cpu_num s" and "0 < cpu_num"
  shows "turn_counter s \<le> spin_loops * cpu_num"
proof (rule ccontr)
  assume "\<not> ?thesis"
  then have c: "spin_loops * cpu_num < turn_counter s"
    by simp
  have le: "turns cpu_num (turn_counter s) 0 \<le> spin_loops"
    using spin_success_le [OF assms] spin_invD(1) [OF assms] by simp
  have "spin_loops \<le> turn_counter s div cpu_num"
    using c assms(2) by (simp add: less_eq_div_iff_mult_less_eq)
  with le have "turn_counter s div cpu_num = spin_loops" "turn_counter s mod cpu_num = 0"
    by (auto simp: turns_def split: if_splits)
  then show False
    using c div_mult_mod_eq [of "turn_counter s" cpu_num] by simp
qed

lemma spin_at_end:
  assumes "spin_inv cpu_num s" and "lock_val s = 0" and "turn_counter s = spin_loops * cpu_num"
  shows "all_ended cpu_num s"
  unfolding all_ended_def
proof (intro allI impI)
  fix i assume i: "i < cpu_num"
  then have "success s i = spin_loops"
    using spin_invD(1) [OF assms(1) i] assms(3) by (simp add: turns_def)
  then show "spin_at s i = Ended"
    using spin_invD(2,3) [OF assms(1) i] assms(2) by (cases "spin_at s i") (auto simp: has_lock_def)
qed

lemma spin_finish:
  assumes "spin_inv cpu_num s" and "lock_val s = 0" and "0 < cpu_num"
  shows "can_reach (spin_step cpu_num) s
    (\<lambda>s'. all_ended cpu_num s' \<and> lock_val s' = 0 \<and> turn_counter s' = spin_loops * cpu_num)"
  using assms
proof (induction "spin_loops * cpu_num - turn_counter s" arbitrary: s)
  case 0
  then have "turn_counter s = spin_loops * cpu_num"
    using spin_counter_le [of cpu_num s] by simp
  then show ?case
    using 0 spin_at_end [of cpu_num s] by (intro can_reach_now) simp
next
  case (Suc n)
  then have "turn_counter s < spin_loops * cpu_num"
    by simp
  from spin_next [OF Suc.prems(1,2) this] Suc.prems(1) show ?case
    by (rule spin_reach_inv) (use Suc in auto)
qed

section \<open>Properties\<close>

text \<open>C18: However the workers are interleaved, no two of them are between the lock and the unlock at the same time,
  no increment of the counter is lost, and the turns go round: the counter is what the workers have counted,
  and each of them has had as many turns as the order 0, 1, ..., \<open>cpu_num\<close> - 1, 0, 1, ... gives it.\<close>

theorem spin_mutual_exclusion:
  assumes "steps (spin_step cpu_num) spin_start nums s"
  shows "(\<forall>i < cpu_num. \<forall>j < cpu_num. has_lock s i \<and> has_lock s j \<longrightarrow> i = j) \<and>
    (\<forall>i < cpu_num. success s i = turns cpu_num (turn_counter s) i)"
  using spin_reachable [OF assms] by (auto simp: spin_inv_def spin_owner_def)

theorem spin_mutual_exclusion_witness:
  "\<exists>s. steps (spin_step 2) spin_start [1, 0, 1] s \<and> has_lock s 1 \<and> \<not> has_lock s 0 \<and>
    success s 1 = turns 2 (turn_counter s) 1"
proof -
  define s where "s = spin_test 2 1 (mypthread_spin_lock_once 1 spin_start)"
  have at: "spin_at s = (\<lambda>_. Spinning)(1 := Leaving)"
    by (simp add: s_def spin_test_def mypthread_spin_lock_once_def compare_and_swap_lock_def spin_start_def
        mypthread_spin_init_def)
  have "steps (spin_step 2) spin_start [1, 0, 1] s"
    by (auto simp: s_def steps_Cons_iff spin_step.simps spin_start_def mypthread_spin_init_def
        mypthread_spin_lock_once_def compare_and_swap_lock_def)
  with spin_mutual_exclusion [OF this] at show ?thesis
    by (auto simp: has_lock_def)
qed

text \<open>C19: The program never gets stuck: from every state that some interleaving leads to, the workers can all reach
  their ends, and they then leave the lock free and the counter at three turns for each of them.\<close>

theorem spin_workers_can_end:
  assumes "steps (spin_step cpu_num) spin_start nums s" and "0 < cpu_num"
  shows "can_reach (spin_step cpu_num) s
    (\<lambda>s'. all_ended cpu_num s' \<and> lock_val s' = 0 \<and> turn_counter s' = spin_loops * cpu_num)"
proof -
  note inv = spin_reachable [OF assms(1)]
  from spin_release [OF inv] inv show ?thesis
    by (rule spin_reach_inv) (rule spin_finish [OF _ _ assms(2)])
qed

theorem spin_workers_can_end_witness:
  "can_reach (spin_step 4) spin_start (\<lambda>s'. all_ended 4 s' \<and> lock_val s' = 0 \<and> turn_counter s' = spin_loops * 4)"
  using spin_workers_can_end [OF steps_Nil, of 4] by simp

end
