(* ===== verification/SyncQueue.thy ===== *)
theory SyncQueue
  imports Threads
begin

text \<open>
  \<open>src/src/exercises/cpp/multi_threading/synchronized_queue_cpp/solution.cc\<close>: a queue under a mutex and a condition
  variable, and the program that tests it. What a thread does from locking the mutex, or from waking up
  with it, to unlocking or to waiting is one step. A signal wakes one of the threads that wait, whichever;
  that a thread may also wake up without one is a step of its own. The number of threads is below \<open>2 ^ 32\<close>,
  so that \<open>waiters\<close> counts them.
\<close>

section \<open>The program\<close>

text \<open>A getter is outside of \<open>get\<close>, asleep in \<open>pthread_cond_wait\<close>, woken there, or at the end of its \<open>worker\<close>.\<close>

datatype getter = Outside | Asleep | Woken | Finished

record sq =
  mylist :: "nat list"
  waiters :: nat
  puts :: "nat \<Rightarrow> nat"
  getter :: "nat \<Rightarrow> getter"

definition sq_start :: sq where
  "sq_start = \<lparr>mylist = [], waiters = 0, puts = (\<lambda>_. 0), getter = (\<lambda>_. Outside)\<rparr>"

definition cond_signal :: "nat \<Rightarrow> sq \<Rightarrow> sq" where
  "cond_signal w s = (if getter s w = Asleep then s\<lparr>getter := (getter s)(w := Woken)\<rparr> else s)"

definition sq_put :: "nat \<Rightarrow> nat \<Rightarrow> sq \<Rightarrow> sq" where
  "sq_put w t s =
    (let s = s\<lparr>mylist := mylist s @ [t]\<rparr>
     in if waiters s > 0 then cond_signal w s else s)"

text \<open>
  \<open>get\<close> from the lock, or from the return of \<open>pthread_cond_wait\<close>, to the unlock (with the element taken) or
  to the next wait (\<open>None\<close>).
\<close>

definition sq_get_loop :: "nat \<Rightarrow> sq \<Rightarrow> nat option \<times> sq" where
  "sq_get_loop i s =
    (case mylist s of
       [] \<Rightarrow> (None, s\<lparr>getter := (getter s)(i := Asleep)\<rparr>)
     | t # ts \<Rightarrow> (Some t, s\<lparr>mylist := ts, waiters := waiters s - 1, getter := (getter s)(i := Outside)\<rparr>))"

definition sq_get :: "nat \<Rightarrow> sq \<Rightarrow> nat option \<times> sq" where
  "sq_get i s =
    (if getter s i = Outside then sq_get_loop i (s\<lparr>waiters := waiters s + 1\<rparr>) else sq_get_loop i s)"

text \<open>The threads with even numbers are the producers. \<open>rnd i k\<close> is what \<open>rand\<close> returns to producer \<open>i\<close> for message \<open>k\<close>.\<close>

definition sq_message :: "nat \<Rightarrow> nat \<Rightarrow> (nat \<Rightarrow> nat \<Rightarrow> nat) \<Rightarrow> nat \<Rightarrow> nat \<Rightarrow> nat" where
  "sq_message count max_msg rnd i k = (if k < count then rnd i k mod max_msg else max_msg)"

definition producer_step :: "nat \<Rightarrow> nat \<Rightarrow> (nat \<Rightarrow> nat \<Rightarrow> nat) \<Rightarrow> nat \<Rightarrow> nat \<Rightarrow> sq \<Rightarrow> sq" where
  "producer_step count max_msg rnd w i s =
    (let s' = sq_put w (sq_message count max_msg rnd i (puts s i)) s
     in s'\<lparr>puts := (puts s')(i := puts s' i + 1)\<rparr>)"

definition consumer_step :: "nat \<Rightarrow> nat \<Rightarrow> sq \<Rightarrow> nat option \<times> sq" where
  "consumer_step max_msg i s =
    (case sq_get i s of
       (None, s) \<Rightarrow> (None, s)
     | (Some t, s) \<Rightarrow> (Some t, if t = max_msg then s\<lparr>getter := (getter s)(i := Finished)\<rparr> else s))"

datatype sq_event = PutMsg nat nat | GotMsg nat nat | WentAsleep nat | Spurious nat

text \<open>The thread that a signal wakes is one that is asleep, if there is one.\<close>

definition signal_choice :: "sq \<Rightarrow> nat \<Rightarrow> bool" where
  "signal_choice s w \<longleftrightarrow> (\<exists>i. getter s i = Asleep) \<longrightarrow> getter s w = Asleep"

inductive sq_step ::
  "nat \<Rightarrow> nat \<Rightarrow> nat \<Rightarrow> (nat \<Rightarrow> nat \<Rightarrow> nat) \<Rightarrow> sq \<Rightarrow> sq_event \<Rightarrow> sq \<Rightarrow> bool"
  for thread_num count max_msg rnd where
  step_put: "i < thread_num \<Longrightarrow> even i \<Longrightarrow> puts s i \<le> count \<Longrightarrow> signal_choice s w \<Longrightarrow>
    sq_step thread_num count max_msg rnd s (PutMsg i (sq_message count max_msg rnd i (puts s i)))
      (producer_step count max_msg rnd w i s)"
| step_got: "i < thread_num \<Longrightarrow> odd i \<Longrightarrow> getter s i = Outside \<or> getter s i = Woken \<Longrightarrow>
    consumer_step max_msg i s = (Some t, s') \<Longrightarrow> sq_step thread_num count max_msg rnd s (GotMsg i t) s'"
| step_sleep: "i < thread_num \<Longrightarrow> odd i \<Longrightarrow> getter s i = Outside \<or> getter s i = Woken \<Longrightarrow>
    consumer_step max_msg i s = (None, s') \<Longrightarrow> sq_step thread_num count max_msg rnd s (WentAsleep i) s'"
| step_spurious: "getter s i = Asleep \<Longrightarrow>
    sq_step thread_num count max_msg rnd s (Spurious i) (s\<lparr>getter := (getter s)(i := Woken)\<rparr>)"

definition sq_done :: "nat \<Rightarrow> nat \<Rightarrow> sq \<Rightarrow> bool" where
  "sq_done thread_num count s \<longleftrightarrow>
     (\<forall>i < thread_num. if even i then puts s i = count + 1 else getter s i = Finished)"

section \<open>The queue is a channel\<close>

fun sq_io :: "sq_event \<Rightarrow> nat fifo_event" where
  "sq_io (PutMsg i t) = Wrote [t]"
| "sq_io (GotMsg i t) = ReadOut [t]"
| "sq_io _ = Quiet"

definition sq_io_step ::
  "nat \<Rightarrow> nat \<Rightarrow> nat \<Rightarrow> (nat \<Rightarrow> nat \<Rightarrow> nat) \<Rightarrow> sq \<Rightarrow> nat fifo_event \<Rightarrow> sq \<Rightarrow> bool" where
  "sq_io_step thread_num count max_msg rnd =
     (\<lambda>s e s'. \<exists>l. sq_step thread_num count max_msg rnd s l s' \<and> e = sq_io l)"

lemma mylist_put: "mylist (producer_step count max_msg rnd w i s) =
    mylist s @ [sq_message count max_msg rnd i (puts s i)]"
  by (simp add: producer_step_def sq_put_def cond_signal_def Let_def)

lemma consumer_step_got:
  "consumer_step max_msg i s = (Some t, s') \<longleftrightarrow>
    (\<exists>ts. mylist s = t # ts \<and>
      s' = s\<lparr>mylist := ts, waiters := (if getter s i = Outside then waiters s + 1 else waiters s) - 1,
        getter := (getter s)(i := (if t = max_msg then Finished else Outside))\<rparr>)"
  by (auto simp: consumer_step_def sq_get_def sq_get_loop_def split: list.splits)

lemma consumer_step_sleep:
  "consumer_step max_msg i s = (None, s') \<longleftrightarrow>
    mylist s = [] \<and>
      s' = s\<lparr>waiters := (if getter s i = Outside then waiters s + 1 else waiters s),
        getter := (getter s)(i := Asleep)\<rparr>"
  by (auto simp: consumer_step_def sq_get_def sq_get_loop_def split: list.splits)

interpretation sync_queue: channel "sq_io_step thread_num count max_msg rnd" "\<lambda>_. True" mylist
  for thread_num count max_msg rnd
proof
  fix s s' :: sq and bs :: "nat list"
  show "sq_io_step thread_num count max_msg rnd s (Wrote bs) s' \<Longrightarrow> mylist s' = mylist s @ bs"
    by (auto simp: sq_io_step_def mylist_put elim!: sq_step.cases)
  show "sq_io_step thread_num count max_msg rnd s (ReadOut bs) s' \<Longrightarrow> mylist s = bs @ mylist s'"
    by (auto simp: sq_io_step_def consumer_step_got elim!: sq_step.cases)
  show "sq_io_step thread_num count max_msg rnd s Quiet s' \<Longrightarrow> mylist s' = mylist s"
    by (auto simp: sq_io_step_def consumer_step_sleep elim!: sq_step.cases)
qed simp

section \<open>Invariant\<close>

definition producers_done :: "nat \<Rightarrow> nat \<Rightarrow> sq \<Rightarrow> nat" where
  "producers_done thread_num count s = (\<Sum>i<thread_num. if even i \<and> puts s i = count + 1 then 1 else 0)"

definition sq_inv :: "nat \<Rightarrow> nat \<Rightarrow> nat \<Rightarrow> sq \<Rightarrow> bool" where
  "sq_inv thread_num count max_msg s \<longleftrightarrow>
     waiters s = threads_at thread_num {Asleep, Woken} (getter s) \<and>
     (\<forall>i. getter s i \<noteq> Outside \<longrightarrow> i < thread_num \<and> odd i) \<and>
     (\<forall>i. puts s i \<le> count + 1) \<and>
     ((\<exists>i. getter s i = Asleep) \<longrightarrow> length (mylist s) \<le> threads_at thread_num {Woken} (getter s)) \<and>
     count_list (mylist s) max_msg + threads_at thread_num {Finished} (getter s) = producers_done thread_num count s"

lemma sq_inv_start: "sq_inv thread_num count max_msg sq_start"
  by (simp add: sq_inv_def sq_start_def threads_at_def producers_done_def)

lemma sq_asleep_waits:
  assumes "sq_inv thread_num count max_msg s" and "getter s w = Asleep"
  shows "w < thread_num" and "0 < waiters s"
proof -
  show w: "w < thread_num"
    using assms unfolding sq_inv_def by (metis getter.distinct(1))
  then have "threads_at thread_num {Asleep, Woken} (getter s) \<noteq> 0"
    using assms(2) by (auto simp: threads_at_0)
  then show "0 < waiters s"
    using assms(1) by (simp add: sq_inv_def)
qed

text \<open>A signal wakes a getter whenever one is asleep: its guard does not lose one.\<close>

lemma producer_step_wakes:
  assumes "sq_inv thread_num count max_msg s" and "signal_choice s w"
  shows "producer_step count max_msg rnd w i s =
    s\<lparr>mylist := mylist s @ [sq_message count max_msg rnd i (puts s i)], puts := (puts s)(i := puts s i + 1),
      getter := (if \<exists>j. getter s j = Asleep then (getter s)(w := Woken) else getter s)\<rparr>"
  using assms(2) sq_asleep_waits(2) [OF assms(1), of w]
  by (auto simp: producer_step_def sq_put_def cond_signal_def signal_choice_def Let_def)

lemma producers_done_put:
  assumes "i < thread_num" and "even i" and "puts s i \<le> count"
  shows "producers_done thread_num count (s\<lparr>mylist := ts, puts := (puts s)(i := puts s i + 1), getter := g\<rparr>) =
    producers_done thread_num count s + (if puts s i = count then 1 else 0)"
  using sum_fun_upd [OF assms(1), of "\<lambda>j y. if even j \<and> y = count + 1 then 1 else 0" "puts s" "puts s i + 1"] assms(2,3)
  by (simp add: producers_done_def)

lemma sq_inv_put:
  assumes inv: "sq_inv thread_num count max_msg s" and "0 < max_msg"
    and i: "i < thread_num" "even i" "puts s i \<le> count" and w: "signal_choice s w"
  shows "sq_inv thread_num count max_msg (producer_step count max_msg rnd w i s)"
proof -
  define g where "g = (if \<exists>j. getter s j = Asleep then (getter s)(w := Woken) else getter s)"
  define t where "t = sq_message count max_msg rnd i (puts s i)"
  have s': "producer_step count max_msg rnd w i s =
      s\<lparr>mylist := mylist s @ [t], puts := (puts s)(i := puts s i + 1), getter := g\<rparr>"
    unfolding g_def t_def by (rule producer_step_wakes [OF inv w])
  have "t = max_msg \<longleftrightarrow> puts s i = count"
    using i(3) assms(2) mod_less_divisor [of max_msg "rnd i (puts s i)"]
    by (auto simp: t_def sq_message_def simp del: mod_less_divisor)
  then have sentinels: "count_list (mylist s @ [t]) max_msg =
      count_list (mylist s) max_msg + (if puts s i = count then 1 else 0)"
    by simp
  have counts: "threads_at thread_num {Asleep, Woken} g = threads_at thread_num {Asleep, Woken} (getter s)"
    "threads_at thread_num {Finished} g = threads_at thread_num {Finished} (getter s)"
    using w by (auto simp: g_def signal_choice_def intro!: threads_at_same)
  have "length (mylist s @ [t]) \<le> threads_at thread_num {Woken} g" if "g j = Asleep" for j
  proof -
    have some: "\<exists>j. getter s j = Asleep"
      using that by (auto simp: g_def split: if_splits)
    then have "getter s w = Asleep"
      using w by (simp add: signal_choice_def)
    then have "threads_at thread_num {Woken} g = Suc (threads_at thread_num {Woken} (getter s))"
      using some sq_asleep_waits(1) [OF inv] by (simp add: g_def threads_at_enter)
    then show ?thesis
      using inv some by (auto simp: sq_inv_def)
  qed
  moreover have "\<forall>j. g j \<noteq> Outside \<longrightarrow> j < thread_num \<and> odd j"
    using inv w by (auto simp: g_def sq_inv_def signal_choice_def)
  ultimately show ?thesis
    using inv i counts sentinels producers_done_put [OF i, where ts = "mylist s @ [t]" and g = g]
    unfolding s' sq_inv_def by auto
qed

lemma sq_inv_got:
  assumes inv: "sq_inv thread_num count max_msg s"
    and i: "i < thread_num" "odd i" "getter s i = Outside \<or> getter s i = Woken"
    and "mylist s = t # ts"
    and x: "x = (if t = max_msg then Finished else Outside)"
  shows "sq_inv thread_num count max_msg
    (s\<lparr>mylist := ts, waiters := (if getter s i = Outside then waiters s + 1 else waiters s) - 1,
       getter := (getter s)(i := x)\<rparr>)"
proof -
  let ?g = "(getter s)(i := x)"
  have wait: "threads_at thread_num {Asleep, Woken} ?g + (if getter s i = Outside then 0 else 1) =
      threads_at thread_num {Asleep, Woken} (getter s)"
    using threads_at_upd [OF i(1), of "{Asleep, Woken}" "getter s" x] i(3) x by auto
  have woken: "threads_at thread_num {Woken} ?g + (if getter s i = Outside then 0 else 1) =
      threads_at thread_num {Woken} (getter s)"
    using threads_at_upd [OF i(1), of "{Woken}" "getter s" x] i(3) x by auto
  have finished: "threads_at thread_num {Finished} ?g =
      threads_at thread_num {Finished} (getter s) + (if t = max_msg then 1 else 0)"
    using threads_at_upd [OF i(1), of "{Finished}" "getter s" x] i(3) x by auto
  have "length ts \<le> threads_at thread_num {Woken} ?g" if "?g j = Asleep" for j
  proof -
    have "\<exists>j. getter s j = Asleep"
      using that x by (auto split: if_splits)
    then have "length (mylist s) \<le> threads_at thread_num {Woken} (getter s)"
      using inv by (simp add: sq_inv_def)
    then show ?thesis
      using woken assms(5) by (simp split: if_splits)
  qed
  then have "(\<exists>j. ?g j = Asleep) \<longrightarrow> length ts \<le> threads_at thread_num {Woken} ?g"
    by blast
  moreover have "\<forall>j. ?g j \<noteq> Outside \<longrightarrow> j < thread_num \<and> odd j"
    using inv i by (simp add: sq_inv_def)
  moreover have "count_list ts max_msg + threads_at thread_num {Finished} ?g = producers_done thread_num count s"
    using inv finished assms(5) by (auto simp: sq_inv_def)
  ultimately show ?thesis
    using inv wait i(3) unfolding sq_inv_def by (auto simp: producers_done_def simp del: fun_upd_apply)
qed

lemma sq_inv_sleep:
  assumes inv: "sq_inv thread_num count max_msg s"
    and i: "i < thread_num" "odd i" "getter s i = Outside \<or> getter s i = Woken"
    and "mylist s = []"
  shows "sq_inv thread_num count max_msg
    (s\<lparr>waiters := (if getter s i = Outside then waiters s + 1 else waiters s), getter := (getter s)(i := Asleep)\<rparr>)"
proof -
  let ?g = "(getter s)(i := Asleep)"
  have "threads_at thread_num {Asleep, Woken} ?g =
      threads_at thread_num {Asleep, Woken} (getter s) + (if getter s i = Outside then 1 else 0)"
    using threads_at_upd [OF i(1), of "{Asleep, Woken}" "getter s" Asleep] i(3) by auto
  moreover have "threads_at thread_num {Finished} ?g = threads_at thread_num {Finished} (getter s)"
    using i(3) by (intro threads_at_same) auto
  ultimately show ?thesis
    using inv i assms(5) unfolding sq_inv_def by (auto simp: producers_done_def)
qed

lemma sq_inv_spurious:
  assumes inv: "sq_inv thread_num count max_msg s" and i: "getter s i = Asleep"
  shows "sq_inv thread_num count max_msg (s\<lparr>getter := (getter s)(i := Woken)\<rparr>)"
proof -
  let ?g = "(getter s)(i := Woken)"
  have "threads_at thread_num {Asleep, Woken} ?g = threads_at thread_num {Asleep, Woken} (getter s)"
    "threads_at thread_num {Finished} ?g = threads_at thread_num {Finished} (getter s)"
    using i by (intro threads_at_same; simp)+
  moreover have "threads_at thread_num {Woken} ?g = Suc (threads_at thread_num {Woken} (getter s))"
    using sq_asleep_waits(1) [OF inv i] i by (simp add: threads_at_enter)
  ultimately show ?thesis
    using inv i unfolding sq_inv_def by (auto simp: producers_done_def intro: le_SucI)
qed

lemma sq_inv_step:
  assumes "sq_inv thread_num count max_msg s" and "0 < max_msg"
    and "sq_step thread_num count max_msg rnd s e s'"
  shows "sq_inv thread_num count max_msg s'"
  using assms(3)
proof cases
  case (step_put i w)
  then show ?thesis
    using sq_inv_put [OF assms(1,2)] by simp
next
  case (step_got i t)
  then show ?thesis
    using sq_inv_got [OF assms(1)] by (auto simp: consumer_step_got)
next
  case (step_sleep i)
  then show ?thesis
    using sq_inv_sleep [OF assms(1)] by (auto simp: consumer_step_sleep)
next
  case (step_spurious i)
  then show ?thesis
    using sq_inv_spurious [OF assms(1)] by simp
qed

section \<open>Progress\<close>

lemma signal_choice_exists: "\<exists>w. signal_choice s w"
  by (auto simp: signal_choice_def)

fun is_spurious :: "sq_event \<Rightarrow> bool" where
  "is_spurious (Spurious i) = True"
| "is_spurious _ = False"

lemma sq_some_finished:
  assumes inv: "sq_inv thread_num count max_msg s" and "i < thread_num" and "odd i" and "getter s i \<noteq> Finished"
  shows "threads_at thread_num {Finished} (getter s) < card {i. i < thread_num \<and> even i}"
proof -
  have "{j. j < thread_num \<and> getter s j \<in> {Finished}} \<subseteq> {j. j < thread_num \<and> odd j} - {i}"
    using inv assms(4) by (auto simp: sq_inv_def)
  then have "threads_at thread_num {Finished} (getter s) \<le> card ({j. j < thread_num \<and> odd j} - {i})"
    unfolding threads_at_card by (intro card_mono) simp_all
  also have "\<dots> < card {j. j < thread_num \<and> odd j}"
    using assms(2,3) by (intro card_Diff1_less) simp_all
  also have "\<dots> \<le> card {j. j < thread_num \<and> even j}"
    by (rule card_odd_le_even)
  finally show ?thesis .
qed

lemma sq_not_stuck:
  assumes inv: "sq_inv thread_num count max_msg s" and "\<not> sq_done thread_num count s"
  shows "\<exists>e s'. sq_step thread_num count max_msg rnd s e s' \<and> \<not> is_spurious e"
proof (rule ccontr)
  assume stuck: "\<not> ?thesis"
  have producers: "puts s i = count + 1" if "i < thread_num" "even i" for i
  proof (rule ccontr)
    assume "puts s i \<noteq> count + 1"
    moreover have "puts s i \<le> count + 1"
      using inv by (simp add: sq_inv_def)
    ultimately have "puts s i \<le> count"
      by simp
    then show False
      using stuck step_put [OF that] signal_choice_exists [of s] by fastforce
  qed
  have consumers: "getter s i \<noteq> Outside \<and> getter s i \<noteq> Woken" if "i < thread_num" "odd i" for i
    using stuck step_got [OF that] step_sleep [OF that]
    by (cases "consumer_step max_msg i s"; cases "fst (consumer_step max_msg i s)") fastforce+
  from assms(2) producers obtain i where i: "i < thread_num" "odd i" "getter s i \<noteq> Finished"
    by (auto simp: sq_done_def split: if_splits)
  then have "getter s i = Asleep"
    using consumers [of i] by (cases "getter s i") simp_all
  moreover have "getter s j \<noteq> Woken" if "j < thread_num" for j
    using that consumers [of j] inv by (cases "odd j") (auto simp: sq_inv_def)
  then have "threads_at thread_num {Woken} (getter s) = 0"
    by (simp add: threads_at_0)
  ultimately have "mylist s = []"
    using inv by (auto simp: sq_inv_def)
  then have "threads_at thread_num {Finished} (getter s) = producers_done thread_num count s"
    using inv by (simp add: sq_inv_def)
  also have "\<dots> = (\<Sum>i<thread_num. if i \<in> {i. even i} then 1 else 0)"
    unfolding producers_done_def using producers by (intro sum.cong) auto
  also have "\<dots> = card {i. i < thread_num \<and> even i}"
    by (simp add: sum.If_cases lessThan_def Collect_conj_eq)
  finally show False
    using sq_some_finished [OF inv i] by simp
qed

text \<open>Every step but a spurious wake-up brings the program closer to its end.\<close>

definition puts_left :: "nat \<Rightarrow> nat \<Rightarrow> (nat \<Rightarrow> nat) \<Rightarrow> nat" where
  "puts_left thread_num count ps = (\<Sum>i<thread_num. if even i then count + 1 - ps i else 0)"

definition sq_measure :: "nat \<Rightarrow> nat \<Rightarrow> sq \<Rightarrow> nat" where
  "sq_measure thread_num count s =
     4 * puts_left thread_num count (puts s) + 2 * length (mylist s) + threads_at thread_num {Outside, Woken} (getter s)"

lemma puts_left_put:
  assumes "i < thread_num" and "even i" and "puts s i \<le> count"
  shows "Suc (puts_left thread_num count ((puts s)(i := Suc (puts s i)))) = puts_left thread_num count (puts s)"
  using sum_fun_upd [OF assms(1), of "\<lambda>j y. if even j then count + 1 - y else 0" "puts s" "Suc (puts s i)"] assms(2,3)
  by (simp add: puts_left_def)

lemma sq_measure_step:
  assumes inv: "sq_inv thread_num count max_msg s" and "sq_step thread_num count max_msg rnd s e s'"
  shows "sq_measure thread_num count s' + 1 \<le> sq_measure thread_num count s + (if is_spurious e then 2 else 0)"
  using assms(2)
proof cases
  case (step_put i w)
  have "threads_at thread_num {Outside, Woken} (getter s') \<le> Suc (threads_at thread_num {Outside, Woken} (getter s))"
  proof (cases "\<exists>j. getter s j = Asleep")
    case True
    then have "getter s w = Asleep"
      using step_put(6) by (simp add: signal_choice_def)
    then show ?thesis
      using True threads_at_enter [of w thread_num "getter s" "{Outside, Woken}" Woken] sq_asleep_waits(1) [OF inv]
      unfolding step_put(2) producer_step_wakes [OF inv step_put(6)] by simp
  next
    case False
    then show ?thesis
      unfolding step_put(2) producer_step_wakes [OF inv step_put(6)] by simp
  qed
  then show ?thesis
    using puts_left_put [OF step_put(3-5)] step_put(1)
    by (simp add: sq_measure_def mylist_put step_put(2) producer_step_wakes [OF inv step_put(6)])
next
  case (step_got i t)
  then have "threads_at thread_num {Outside, Woken} (getter s') \<le> threads_at thread_num {Outside, Woken} (getter s)"
    using threads_at_upd [OF step_got(2), of "{Outside, Woken}" "getter s" "if t = max_msg then Finished else Outside"]
    by (auto simp: consumer_step_got split: if_splits)
  then show ?thesis
    using step_got by (auto simp: sq_measure_def consumer_step_got)
next
  case (step_sleep i)
  then show ?thesis
    using threads_at_exit [OF step_sleep(2), of "getter s" "{Outside, Woken}" Asleep]
    by (auto simp: sq_measure_def consumer_step_sleep)
next
  case (step_spurious i)
  then show ?thesis
    using threads_at_enter [of i thread_num "getter s" "{Outside, Woken}" Woken] sq_asleep_waits(1) [OF inv]
    by (simp add: sq_measure_def)
qed

lemma sq_run:
  assumes "steps (sq_step thread_num count max_msg rnd) s es s'" and "0 < max_msg" and "sq_inv thread_num count max_msg s"
  shows "sq_inv thread_num count max_msg s' \<and>
    length es + sq_measure thread_num count s' \<le> sq_measure thread_num count s + 2 * length (filter is_spurious es)"
  using assms
proof (induction rule: steps.induct)
  case (steps_Cons s e s' es s'')
  then show ?case
    using sq_inv_step [of thread_num count max_msg s rnd e s'] sq_measure_step [of thread_num count max_msg s rnd e s']
    by (auto split: if_splits)
qed simp

text \<open>A short run: the consumer finds the queue empty, and the producer wakes it.\<close>

lemma sq_sample:
  "\<exists>s. steps (sq_step 2 1 100 (\<lambda>_ _. 7)) sq_start [WentAsleep 1, PutMsg 0 7, GotMsg 1 7] s"
proof -
  let ?step = "sq_step 2 1 100 (\<lambda>_ _. 7)"
  define s1 where "s1 = sq_start\<lparr>waiters := 1, getter := (getter sq_start)(1 := Asleep)\<rparr>"
  define s2 where "s2 = producer_step 1 100 (\<lambda>_ _. 7) 1 0 s1"
  have "?step sq_start (WentAsleep 1) s1"
    by (rule step_sleep) (simp_all add: s1_def consumer_step_sleep sq_start_def)
  moreover have "?step s1 (PutMsg 0 7) s2"
    using step_put [of 0 2 s1 1 1 100 "\<lambda>_ _. 7"]
    by (simp add: s2_def s1_def signal_choice_def sq_start_def sq_message_def)
  moreover have "\<exists>s3. ?step s2 (GotMsg 1 7) s3"
  proof -
    have "getter s2 1 = Woken" "mylist s2 = [7]"
      by (simp_all add: s2_def s1_def producer_step_def sq_put_def cond_signal_def sq_message_def sq_start_def)
    then show ?thesis
      by (intro exI step_got) (simp_all add: consumer_step_got)
  qed
  ultimately show ?thesis
    by (auto simp: steps_Cons_iff)
qed

section \<open>Properties\<close>

text \<open>C8: The queue loses, duplicates and reorders nothing, with any number of threads at both ends: what the consumers
  have taken out, followed by what is in the queue, is what the producers have put in, in this order.\<close>

theorem sync_queue_fifo:
  assumes "steps (sq_step thread_num count max_msg rnd) sq_start es s"
  shows "bytes_read (map sq_io es) @ mylist s = bytes_written (map sq_io es)"
proof -
  have "steps (sq_io_step thread_num count max_msg rnd) sq_start (map sq_io es) s"
    unfolding sq_io_step_def using assms by (rule steps_map)
  then show ?thesis
    using sync_queue.conservation by (fastforce simp: sq_start_def)
qed

theorem sync_queue_fifo_witness:
  "\<exists>s. steps (sq_step 2 1 100 (\<lambda>_ _. 7)) sq_start [WentAsleep 1, PutMsg 0 7, GotMsg 1 7] s \<and> mylist s = []"
  using sq_sample sync_queue_fifo [of 2 1 100 "\<lambda>_ _. 7" "[WentAsleep 1, PutMsg 0 7, GotMsg 1 7]"] by fastforce

text \<open>C9: The program comes to its end. Whatever has happened so far, either all threads have returned from their
  \<open>worker\<close>, or some thread can take a step that is not a spurious wake-up: no wake-up is lost, and no getter
  waits for an element or for a sentinel that will not come. And there are only so many steps to take, two
  more for each spurious wake-up.\<close>

theorem sync_queue_ends:
  assumes "steps (sq_step thread_num count max_msg rnd) sq_start es s" and "0 < max_msg"
  shows "(sq_done thread_num count s \<or> (\<exists>e s'. sq_step thread_num count max_msg rnd s e s' \<and> \<not> is_spurious e)) \<and>
    length es \<le> (4 * count + 5) * thread_num + 2 * length (filter is_spurious es)"
proof -
  have "puts_left thread_num count (puts sq_start) \<le> (\<Sum>i<thread_num. count + 1)"
    unfolding puts_left_def by (rule sum_mono) (simp add: sq_start_def)
  moreover have "threads_at thread_num {Outside, Woken} (getter sq_start) = thread_num"
    by (simp add: threads_at_def sq_start_def)
  ultimately have "sq_measure thread_num count sq_start \<le> (4 * count + 5) * thread_num"
    by (simp add: sq_measure_def sq_start_def algebra_simps)
  then show ?thesis
    using sq_run [OF assms sq_inv_start] sq_not_stuck by fastforce
qed

theorem sync_queue_ends_witness:
  "\<exists>s. steps (sq_step 2 1 100 (\<lambda>_ _. 7)) sq_start [WentAsleep 1, PutMsg 0 7, GotMsg 1 7] s \<and>
    (sq_done 2 1 s \<or> (\<exists>e s'. sq_step 2 1 100 (\<lambda>_ _. 7) s e s' \<and> \<not> is_spurious e))"
proof -
  obtain s where "steps (sq_step 2 1 100 (\<lambda>_ _. 7)) sq_start [WentAsleep 1, PutMsg 0 7, GotMsg 1 7] s"
    using sq_sample by blast
  with sync_queue_ends [OF this] show ?thesis
    by (intro exI [of _ s]) simp
qed

end
