(* ===== verification/MsgQueue.thy ===== *)
theory MsgQueue
  imports Threads
begin

text \<open>
  \<open>src/src/exercises/c/message_queue/solution.c\<close>: a bounded queue of numbers in a ring, with a condition variable
  for either end, and the program with one producer and one consumer. What a thread does from locking the
  mutex, or from waking up with it, to unlocking or to waiting is one step; a wake-up without a broadcast is
  a step of its own. The indices stay below the size of the queue.
\<close>

section \<open>The queue\<close>

record mq =
  mq_size :: nat
  mq_data :: "int list"
  mq_min :: nat
  mq_max :: nat

text \<open>\<open>block\<close> is the memory \<open>malloc\<close> returns, with whatever it contains.\<close>

definition pthread_mq_init :: "nat \<Rightarrow> int list \<Rightarrow> mq" where
  "pthread_mq_init sz block = \<lparr>mq_size = sz, mq_data = block, mq_min = 0, mq_max = 0\<rparr>"

text \<open>
  The two operations from one point where they have the mutex to the next: \<open>None\<close> is a wait, and otherwise
  there is the value taken, if any, and whether \<open>cond_empty\<close> is broadcast. Both operations broadcast
  \<open>cond_empty\<close>, and none broadcasts \<open>cond_full\<close>.
\<close>

definition pthread_mq_get :: "mq \<Rightarrow> (int \<times> bool \<times> mq) option outcome" where
  "pthread_mq_get m =
    (if mq_max m = mq_min m then Done None
     else outcome_bind (get_at (mq_data m) (mq_min m)) (\<lambda>value.
          if mq_size m = 0 then Crash DivideByZero
          else let wake = ((mq_max m + 1) mod mq_size m = mq_min m)
               in Done (Some (value, wake, m\<lparr>mq_min := (mq_min m + 1) mod mq_size m\<rparr>))))"

definition pthread_mq_put :: "int \<Rightarrow> mq \<Rightarrow> (bool \<times> mq) option outcome" where
  "pthread_mq_put value m =
    (if mq_size m = 0 then Crash DivideByZero
     else if (mq_max m + 1) mod mq_size m = mq_min m then Done None
     else outcome_bind (set_at (mq_data m) (mq_max m) value) (\<lambda>d.
          let wake = (mq_max m = mq_min m)
          in Done (Some (wake, m\<lparr>mq_data := d, mq_max := (mq_max m + 1) mod mq_size m\<rparr>))))"

section \<open>The program\<close>

text \<open>A thread is about to call its operation, waits in it, has been woken there, or has left its loop.\<close>

datatype mq_thread = Ready | Waiting | Retry | Over

record mq_prog =
  queue :: mq
  producer_at :: mq_thread
  typed :: int
  consumer_at :: mq_thread

definition broadcast_empty :: "bool \<Rightarrow> mq_prog \<Rightarrow> mq_prog" where
  "broadcast_empty wake s =
    (if wake \<and> consumer_at s = Waiting then s\<lparr>consumer_at := Retry\<rparr> else s)"

datatype mq_event = Put int | Got int | PutWaits | GetWaits | PutSpurious | GetSpurious

text \<open>One call of \<open>pthread_mq_put\<close>, or its continuation; the value 666 ends the loop.\<close>

definition producer_put :: "int \<Rightarrow> mq_prog \<Rightarrow> (mq_event \<times> mq_prog) outcome" where
  "producer_put value s =
    outcome_bind (pthread_mq_put value (queue s)) (\<lambda>r.
      case r of
        None \<Rightarrow> Done (PutWaits, s\<lparr>typed := value, producer_at := Waiting\<rparr>)
      | Some (wake, m) \<Rightarrow>
          let s = broadcast_empty wake (s\<lparr>queue := m\<rparr>)
          in Done (Put value, s\<lparr>producer_at := (if value = 666 then Over else Ready)\<rparr>))"

text \<open>\<open>input\<close> is the number that is typed when the producer asks for one.\<close>

definition func_producer :: "int \<Rightarrow> mq_prog \<Rightarrow> (mq_event \<times> mq_prog) outcome option" where
  "func_producer input s =
    (case producer_at s of
       Ready \<Rightarrow> Some (producer_put input s)
     | Retry \<Rightarrow> Some (producer_put (typed s) s)
     | _ \<Rightarrow> None)"

definition consumer_get :: "mq_prog \<Rightarrow> (mq_event \<times> mq_prog) outcome" where
  "consumer_get s =
    outcome_bind (pthread_mq_get (queue s)) (\<lambda>r.
      case r of
        None \<Rightarrow> Done (GetWaits, s\<lparr>consumer_at := Waiting\<rparr>)
      | Some (value, wake, m) \<Rightarrow>
          let s = broadcast_empty wake (s\<lparr>queue := m\<rparr>)
          in Done (Got value, s\<lparr>consumer_at := (if value = 666 then Over else Ready)\<rparr>))"

definition func_consumer :: "mq_prog \<Rightarrow> (mq_event \<times> mq_prog) outcome option" where
  "func_consumer s =
    (case consumer_at s of
       Ready \<Rightarrow> Some (consumer_get s)
     | Retry \<Rightarrow> Some (consumer_get s)
     | _ \<Rightarrow> None)"

inductive mq_step :: "mq_prog \<Rightarrow> mq_event \<Rightarrow> mq_prog \<Rightarrow> bool" where
  mq_producer: "func_producer input s = Some (Done (e, s')) \<Longrightarrow> mq_step s e s'"
| mq_consumer: "func_consumer s = Some (Done (e, s')) \<Longrightarrow> mq_step s e s'"
| mq_put_spurious: "producer_at s = Waiting \<Longrightarrow> mq_step s PutSpurious (s\<lparr>producer_at := Retry\<rparr>)"
| mq_get_spurious: "consumer_at s = Waiting \<Longrightarrow> mq_step s GetSpurious (s\<lparr>consumer_at := Retry\<rparr>)"

definition mq_start :: "nat \<Rightarrow> int list \<Rightarrow> mq_prog" where
  "mq_start sz block =
     \<lparr>queue = pthread_mq_init sz block, producer_at = Ready, typed = 0, consumer_at = Ready\<rparr>"

section \<open>Invariant and abstraction\<close>

definition mq_inv :: "mq_prog \<Rightarrow> bool" where
  "mq_inv s \<longleftrightarrow> mq_size (queue s) = length (mq_data (queue s)) \<and>
     mq_min (queue s) < mq_size (queue s) \<and> mq_max (queue s) < mq_size (queue s)"

definition mq_contents :: "mq_prog \<Rightarrow> int list" where
  "mq_contents s = ring_contents (mq_data (queue s)) (mq_min (queue s)) (mq_max (queue s))"

definition mq_capacity :: "mq_prog \<Rightarrow> nat" where
  "mq_capacity s = mq_size (queue s) - 1"

lemma ring_next_mod: "p < sz \<Longrightarrow> (p + 1) mod sz = ring_next sz p 1"
  by (auto simp: ring_next_def)

lemma blit_single: "i < length xs \<Longrightarrow> blit xs i [x] = xs[i := x]"
  by (simp add: blit_def upd_conv_take_nth_drop)

lemma chunk_single: "i < length xs \<Longrightarrow> chunk xs i 1 = [xs ! i]"
  by (simp add: chunk_def take_Suc_conv_app_nth flip: Cons_nth_drop_Suc)

lemma ring_full:
  "rp < sz \<Longrightarrow> wp < sz \<Longrightarrow> (wp + 1) mod sz = rp \<longleftrightarrow> ring_room sz rp wp = 0"
  by (auto simp: ring_room_def mod_Suc)

text \<open>The two operations on what the queue contains.\<close>

lemma pthread_mq_put_cases:
  assumes "mq_inv s"
  obtains (full) "pthread_mq_put value (queue s) = Done None" and "length (mq_contents s) = mq_capacity s"
  | (room) m where "pthread_mq_put value (queue s) = Done (Some (mq_contents s = [], m))"
      and "mq_size m = mq_size (queue s)" and "\<And>s'. queue s' = m \<Longrightarrow> mq_inv s' \<and> mq_contents s' = mq_contents s @ [value]"
proof -
  obtain sz d mn mx where q: "queue s = \<lparr>mq_size = sz, mq_data = d, mq_min = mn, mq_max = mx\<rparr>"
    by (cases "queue s")
  have inv: "sz = length d" "mn < length d" "mx < length d"
    using assms by (auto simp: mq_inv_def q)
  have len: "length (mq_contents s) = ring_used sz mn mx"
    using inv by (simp add: mq_contents_def q length_ring_contents)
  show ?thesis
  proof (cases "ring_room sz mn mx = 0")
    case True
    then have "(mx + 1) mod sz = mn" "length (mq_contents s) = mq_capacity s"
      using inv ring_full [of mn sz mx] ring_room_used [of mn sz mx] len by (simp_all add: mq_capacity_def q)
    then show ?thesis
      using inv by (intro full) (auto simp: pthread_mq_put_def q)
  next
    case False
    define m where "m = \<lparr>mq_size = sz, mq_data = d[mx := value], mq_min = mn, mq_max = (mx + 1) mod sz\<rparr>"
    have "(mx + 1) mod sz \<noteq> mn"
      using False inv ring_full [of mn sz mx] by simp
    moreover have "mx = mn \<longleftrightarrow> mq_contents s = []"
      using len inv by (auto simp: ring_used_def mq_contents_def q split: if_splits)
    ultimately have "pthread_mq_put value (queue s) = Done (Some (mq_contents s = [], m))"
      using inv by (auto simp: pthread_mq_put_def q m_def set_at_def)
    moreover have "ring_contents (d[mx := value]) mn ((mx + 1) mod sz) = ring_contents d mn mx @ [value]"
      using ring_put_chunk [of mn d mx "[value]"] inv False ring_next_mod [of mx sz] by (simp add: blit_single)
    moreover have "(mx + 1) mod sz < sz"
      using inv by (intro mod_less_divisor) linarith
    ultimately show ?thesis
      using inv by (intro room [of m]) (auto simp: m_def mq_inv_def mq_contents_def q)
  qed
qed

lemma pthread_mq_get_cases:
  assumes "mq_inv s"
  obtains (empty) "pthread_mq_get (queue s) = Done None" and "mq_contents s = []"
  | (some) v wake m where "pthread_mq_get (queue s) = Done (Some (v, wake, m))"
      and "mq_size m = mq_size (queue s)" and "\<And>s'. queue s' = m \<Longrightarrow> mq_inv s' \<and> mq_contents s = v # mq_contents s'"
proof -
  obtain sz d mn mx where q: "queue s = \<lparr>mq_size = sz, mq_data = d, mq_min = mn, mq_max = mx\<rparr>"
    by (cases "queue s")
  have inv: "sz = length d" "mn < length d" "mx < length d"
    using assms by (auto simp: mq_inv_def q)
  show ?thesis
  proof (cases "mx = mn")
    case True
    then show ?thesis
      by (intro empty) (simp_all add: pthread_mq_get_def q mq_contents_def)
  next
    case False
    define m where "m = \<lparr>mq_size = sz, mq_data = d, mq_min = (mn + 1) mod sz, mq_max = mx\<rparr>"
    have "0 < ring_used sz mn mx"
      using False inv by (auto simp: ring_used_def)
    then have "ring_contents d mn mx = [d ! mn] @ ring_contents d ((mn + 1) mod sz) mx"
      using ring_get_chunk [of mn d mx 1] inv chunk_single [of mn d] ring_next_mod [of mn sz] by simp
    moreover have "(mn + 1) mod sz < sz"
      using inv by (intro mod_less_divisor) linarith
    moreover have "pthread_mq_get (queue s) = Done (Some (d ! mn, (mx + 1) mod sz = mn, m))"
      using False inv by (auto simp: pthread_mq_get_def q m_def get_at_def)
    ultimately show ?thesis
      using inv by (intro some [of "d ! mn" "(mx + 1) mod sz = mn" m]) (auto simp: m_def mq_inv_def mq_contents_def q)
  qed
qed

text \<open>What a step of the program does to the queue.\<close>

fun mq_io :: "mq_event \<Rightarrow> int fifo_event" where
  "mq_io (Put v) = Wrote [v]"
| "mq_io (Got v) = ReadOut [v]"
| "mq_io _ = Quiet"

definition mq_effect :: "mq_prog \<Rightarrow> mq_event \<Rightarrow> mq_prog \<Rightarrow> bool" where
  "mq_effect s e s' \<longleftrightarrow> mq_inv s' \<and> mq_size (queue s') = mq_size (queue s) \<and>
     (case mq_io e of
        Wrote vs \<Rightarrow> mq_contents s' = mq_contents s @ vs
      | ReadOut vs \<Rightarrow> mq_contents s = vs @ mq_contents s'
      | Quiet \<Rightarrow> mq_contents s' = mq_contents s)"

lemma broadcast_empty_simps [simp]:
  "queue (broadcast_empty wake s) = queue s" "producer_at (broadcast_empty wake s) = producer_at s"
  by (simp_all add: broadcast_empty_def)

lemma mq_effect_quiet: "mq_inv s \<Longrightarrow> queue s' = queue s \<Longrightarrow> mq_io e = Quiet \<Longrightarrow> mq_effect s e s'"
  by (simp add: mq_effect_def mq_inv_def mq_contents_def)

lemma producer_put_effect:
  assumes "mq_inv s"
  obtains e s' where "producer_put v s = Done (e, s')" and "mq_effect s e s'"
  using assms
proof (cases rule: pthread_mq_put_cases [of s v])
  case full
  then show ?thesis
    using assms by (intro that) (auto simp: producer_put_def intro: mq_effect_quiet)
next
  case (room m)
  show ?thesis
    by (rule that) (use room in \<open>auto simp: producer_put_def Let_def mq_effect_def\<close>)
qed

lemma consumer_get_effect:
  assumes "mq_inv s"
  obtains e s' where "consumer_get s = Done (e, s')" and "mq_effect s e s'"
  using assms
proof (cases rule: pthread_mq_get_cases [of s])
  case empty
  then show ?thesis
    using assms by (intro that) (auto simp: consumer_get_def intro: mq_effect_quiet)
next
  case (some v wake m)
  show ?thesis
    by (rule that) (use some in \<open>auto simp: consumer_get_def Let_def mq_effect_def\<close>)
qed

lemma mq_step_effect:
  assumes "mq_inv s" and "mq_step s e s'"
  shows "mq_effect s e s'"
  using assms(2)
proof cases
  case (mq_producer input)
  then obtain v where "producer_put v s = Done (e, s')"
    by (auto simp: func_producer_def split: mq_thread.splits)
  then show ?thesis
    using producer_put_effect [OF assms(1), of v] by auto
next
  case mq_consumer
  then have "consumer_get s = Done (e, s')"
    by (auto simp: func_consumer_def split: mq_thread.splits)
  then show ?thesis
    using consumer_get_effect [OF assms(1)] by auto
qed (use assms(1) in \<open>auto intro: mq_effect_quiet\<close>)

text \<open>The events of the program as the events of a channel.\<close>

definition mq_io_step :: "mq_prog \<Rightarrow> int fifo_event \<Rightarrow> mq_prog \<Rightarrow> bool" where
  "mq_io_step = (\<lambda>s e s'. \<exists>l. mq_step s l s' \<and> e = mq_io l)"

interpretation msg_queue: fifo_channel mq_io_step mq_inv mq_contents mq_capacity
proof
  fix s s' and e :: "int fifo_event" and vs :: "int list"
  assume inv: "mq_inv s"
  have effect: "\<exists>l. mq_effect s l s' \<and> mq_io l = e" if "mq_io_step s e s'" for e
    using that mq_step_effect [OF inv] by (auto simp: mq_io_step_def)
  show "mq_io_step s e s' \<Longrightarrow> mq_inv s'" "mq_io_step s e s' \<Longrightarrow> mq_capacity s' = mq_capacity s"
    using effect by (auto simp: mq_effect_def mq_capacity_def)
  show "mq_io_step s (Wrote vs) s' \<Longrightarrow> mq_contents s' = mq_contents s @ vs"
    using effect [of "Wrote vs"] by (auto simp: mq_effect_def)
  show "mq_io_step s (ReadOut vs) s' \<Longrightarrow> mq_contents s = vs @ mq_contents s'"
    using effect [of "ReadOut vs"] by (auto simp: mq_effect_def)
  show "mq_io_step s Quiet s' \<Longrightarrow> mq_contents s' = mq_contents s"
    using effect [of Quiet] by (auto simp: mq_effect_def)
  show "length (mq_contents s) \<le> mq_capacity s"
    using inv ring_room_used [of "mq_min (queue s)" "mq_size (queue s)" "mq_max (queue s)"]
    by (simp add: mq_inv_def mq_contents_def mq_capacity_def length_ring_contents)
qed

lemma mq_inv_start: "length block = sz \<Longrightarrow> 0 < sz \<Longrightarrow> mq_inv (mq_start sz block)"
  by (simp add: mq_inv_def mq_start_def pthread_mq_init_def)

section \<open>The producer that is not woken\<close>

text \<open>Nothing but a spurious wake-up gets the producer out of its wait.\<close>

lemma producer_stays_asleep:
  assumes "steps mq_step s es s'" and "producer_at s = Waiting" and "PutSpurious \<notin> set es"
  shows "producer_at s' = Waiting"
  using assms
proof (induction rule: steps.induct)
  case (steps_Cons s e s' es s'')
  from steps_Cons.hyps(1) have "producer_at s' = Waiting"
  proof cases
    case mq_consumer
    then have "consumer_get s = Done (e, s')"
      by (auto simp: func_consumer_def split: mq_thread.splits)
    then show ?thesis
      using steps_Cons.prems(1) by (auto simp: consumer_get_def Let_def split: option.splits)
  qed (use steps_Cons.prems in \<open>auto simp: func_producer_def\<close>)
  then show ?case
    using steps_Cons by simp
qed simp

text \<open>A schedule runs the producer with the number that is typed, or the consumer.\<close>

fun mq_schedule :: "int option list \<Rightarrow> mq_prog \<Rightarrow> (mq_event list \<times> mq_prog) option" where
  "mq_schedule [] s = Some ([], s)"
| "mq_schedule (x # xs) s =
    (case (case x of Some v \<Rightarrow> func_producer v s | None \<Rightarrow> func_consumer s) of
       Some (Done (e, s)) \<Rightarrow> map_option (\<lambda>(es, s). (e # es, s)) (mq_schedule xs s)
     | _ \<Rightarrow> None)"

lemma mq_schedule_steps: "mq_schedule xs s = Some (es, s') \<Longrightarrow> steps mq_step s es s'"
  by (induction xs s arbitrary: es s' rule: mq_schedule.induct)
    (auto split: option.splits outcome.splits dest!: mq_producer mq_consumer intro: steps_Cons)

definition mq_stuck :: "mq_prog \<Rightarrow> bool" where
  "mq_stuck s \<longleftrightarrow> \<not> (\<exists>e s'. mq_step s e s' \<and> e \<noteq> PutSpurious \<and> e \<noteq> GetSpurious)"

lemma mq_both_waiting_stuck:
  "producer_at s = Waiting \<Longrightarrow> consumer_at s = Waiting \<Longrightarrow> mq_stuck s"
  by (auto simp: mq_stuck_def func_producer_def func_consumer_def elim: mq_step.cases)

lemma mq_hang_run:
  "\<exists>es s. steps mq_step (mq_start 10 (replicate 10 0)) es s \<and> PutSpurious \<notin> set es \<and> GetSpurious \<notin> set es \<and>
    mq_contents s = [] \<and> producer_at s = Waiting \<and> consumer_at s = Waiting"
proof -
  define r where "r = mq_schedule (map Some [1..10] @ replicate 10 None) (mq_start 10 (replicate 10 0))"
  have "case r of None \<Rightarrow> False | Some (es, s) \<Rightarrow> PutSpurious \<notin> set es \<and> GetSpurious \<notin> set es \<and>
      mq_contents s = [] \<and> producer_at s = Waiting \<and> consumer_at s = Waiting"
    unfolding r_def by code_simp
  then show ?thesis
    using mq_schedule_steps unfolding r_def by (fastforce split: option.splits)
qed

section \<open>Properties\<close>

text \<open>C21: The queue hands the numbers over in the order in which they were put into it, and holds at most one fewer
  than its size; no run of the program leaves the array.\<close>

theorem msg_queue_fifo:
  assumes "steps mq_step (mq_start sz block) es s" and "length block = sz" and "0 < sz"
  shows "bytes_read (map mq_io es) = take (length (bytes_read (map mq_io es))) (bytes_written (map mq_io es)) \<and>
    length (bytes_written (map mq_io es)) \<le> length (bytes_read (map mq_io es)) + (sz - 1) \<and>
    (\<forall>v. \<exists>e s'. producer_put v s = Done (e, s')) \<and> (\<exists>e s'. consumer_get s = Done (e, s'))"
proof -
  have run: "steps mq_io_step (mq_start sz block) (map mq_io es) s"
    unfolding mq_io_step_def using assms(1) by (rule steps_map)
  note inv = mq_inv_start [OF assms(2,3)]
  have "mq_contents (mq_start sz block) = []" "mq_capacity (mq_start sz block) = sz - 1"
    by (simp_all add: mq_contents_def mq_capacity_def mq_start_def pthread_mq_init_def)
  moreover have "mq_inv s"
    using msg_queue.run_inv [OF run inv] .
  ultimately show ?thesis
    using msg_queue.fifo_order [OF run inv] producer_put_effect consumer_get_effect by metis
qed

theorem msg_queue_fifo_witness:
  "\<exists>s. steps mq_step (mq_start 4 [0, 0, 0, 0]) [Put 5, Put 7, Got 5] s \<and>
    (\<forall>v. \<exists>e s'. producer_put v s = Done (e, s'))"
proof -
  define r where "r = mq_schedule [Some 5, Some 7, None] (mq_start 4 [0, 0, 0, 0])"
  have "map_option fst r = Some [Put 5, Put 7, Got 5]"
    unfolding r_def by code_simp
  then obtain s where "steps mq_step (mq_start 4 [0, 0, 0, 0]) [Put 5, Put 7, Got 5] s"
    using mq_schedule_steps unfolding r_def by fastforce
  with msg_queue_fifo [OF this] show ?thesis
    by (intro exI [of _ s]) simp
qed

text \<open>C22: The program can hang. With the queue of ten that \<open>main\<close> creates, there is a run without a spurious wake-up
  after which the queue is empty, the consumer waits for a number and the producer waits for room that there is: \<open>get\<close>
  broadcasts the wrong condition variable when it makes room, and no thread can take another step.\<close>

theorem msg_queue_can_hang:
  "can_reach (\<lambda>s e s'. mq_step s e s' \<and> e \<noteq> PutSpurious \<and> e \<noteq> GetSpurious) (mq_start 10 (replicate 10 0))
    (\<lambda>s. mq_contents s = [] \<and> producer_at s = Waiting \<and> consumer_at s = Waiting \<and> mq_stuck s)"
proof -
  obtain es s where run: "steps mq_step (mq_start 10 (replicate 10 0)) es s"
    and es: "PutSpurious \<notin> set es" "GetSpurious \<notin> set es"
    and s: "mq_contents s = []" "producer_at s = Waiting" "consumer_at s = Waiting"
    using mq_hang_run by blast
  from run es have "steps (\<lambda>s e s'. mq_step s e s' \<and> e \<noteq> PutSpurious \<and> e \<noteq> GetSpurious) (mq_start 10 (replicate 10 0)) es s"
    by (induction rule: steps.induct) (auto intro: steps.intros)
  then show ?thesis
    using s mq_both_waiting_stuck unfolding can_reach_def by blast
qed

end
