(* ===== verification/Exchanger.thy ===== *)
theory Exchanger
  imports Threads
begin

text \<open>
  \<open>src/src/exercises/cpp/multi_threading/exchanger/solution.cc\<close>: a rendezvous at which two threads swap values, and
  the workers that use it. What a thread does from locking the mutex, or from waking up with it, to
  unlocking or to waiting is one step. \<open>notify_one\<close> wakes one of the threads that wait, whichever; a wake-up
  without a notification is a step of its own. A failing \<open>CHECK_ASSERT\<close> is a value, with its line.
\<close>

section \<open>The program\<close>

datatype ex_state = EMPTY | FIRST_ARRIVED | SECOND_ARRIVED

text \<open>
  A worker is about to draw a value and to exchange it, asleep on \<open>cv_overflow\<close> or woken there, asleep on
  \<open>cv_main\<close> or woken there, back from the exchange, or at its end.
\<close>

datatype ex_pc = Working | Overflow | OverflowWoken | First | FirstWoken | Back | Finished

text \<open>The pointer is to the local variable \<open>myval\<close> of a worker: it is the number of the worker.\<close>

record ex =
  ex_ptr :: "nat option"
  ex_is :: ex_state
  ex_at :: "nat \<Rightarrow> ex_pc"
  myval :: "nat \<Rightarrow> nat"
  rounds :: "nat \<Rightarrow> nat"

datatype ex_result = Went ex | AssertFails nat

definition ex_notify_one_main :: "nat \<Rightarrow> ex \<Rightarrow> ex" where
  "ex_notify_one_main w s = (if ex_at s w = First then s\<lparr>ex_at := (ex_at s)(w := FirstWoken)\<rparr> else s)"

definition ex_notify_all_overflow :: "ex \<Rightarrow> ex" where
  "ex_notify_all_overflow s =
    s\<lparr>ex_at := (\<lambda>i. if ex_at s i = Overflow then OverflowWoken else ex_at s i)\<rparr>"

definition ex_swap :: "nat \<Rightarrow> nat \<Rightarrow> ex \<Rightarrow> ex" where
  "ex_swap i p s = s\<lparr>myval := (myval s)(i := myval s p, p := myval s i)\<rparr>"

text \<open>\<open>exchange\<close> from its beginning, or from waking up on \<open>cv_overflow\<close>.\<close>

definition exchange_enter :: "nat \<Rightarrow> nat \<Rightarrow> ex \<Rightarrow> ex_result" where
  "exchange_enter w i s =
    (if ex_is s = SECOND_ARRIVED then Went (s\<lparr>ex_at := (ex_at s)(i := Overflow)\<rparr>)
     else if \<not> (ex_is s = EMPTY \<or> ex_is s = FIRST_ARRIVED) then AssertFails 67
     else if ex_is s = EMPTY
     then if ex_ptr s \<noteq> None then AssertFails 70
          else Went (s\<lparr>ex_ptr := Some i, ex_is := FIRST_ARRIVED, ex_at := (ex_at s)(i := First)\<rparr>)
     else (case ex_ptr s of
             None \<Rightarrow> AssertFails 87
           | Some p \<Rightarrow>
               let s = s\<lparr>ex_is := SECOND_ARRIVED\<rparr>;
                   s = ex_swap i p s;
                   s = ex_notify_one_main w s
               in Went (s\<lparr>ex_at := (ex_at s)(i := Back)\<rparr>)))"

text \<open>\<open>exchange\<close> from waking up on \<open>cv_main\<close>.\<close>

definition exchange_resume :: "nat \<Rightarrow> ex \<Rightarrow> ex_result" where
  "exchange_resume i s =
    (if ex_is s = FIRST_ARRIVED then Went (s\<lparr>ex_at := (ex_at s)(i := First)\<rparr>)
     else if ex_is s \<noteq> SECOND_ARRIVED then AssertFails 78
     else let s = s\<lparr>ex_ptr := None, ex_is := EMPTY\<rparr>;
              s = ex_notify_all_overflow s
          in Went (s\<lparr>ex_at := (ex_at s)(i := Back)\<rparr>))"

text \<open>The bounds that \<open>main\<close> gives the workers: 100 to 200, 200 to 300.\<close>

definition ex_min :: "nat \<Rightarrow> nat" where
  "ex_min i = 100 * (i + 1)"

definition ex_max :: "nat \<Rightarrow> nat" where
  "ex_max i = 100 * (i + 2)"

definition ex_draw :: "(nat \<Rightarrow> nat \<Rightarrow> nat) \<Rightarrow> nat \<Rightarrow> ex \<Rightarrow> ex" where
  "ex_draw rnd i s =
    s\<lparr>myval := (myval s)(i := ex_min i + rnd i (rounds s i) mod (ex_max i - ex_min i))\<rparr>"

text \<open>The assertion behind the exchange, and the condition of the loop.\<close>

definition ex_check :: "nat \<Rightarrow> nat \<Rightarrow> ex \<Rightarrow> ex_result" where
  "ex_check loop_count i s =
    (if \<not> (myval s i < ex_min i \<or> myval s i \<ge> ex_max i) then AssertFails 121
     else Went (s\<lparr>rounds := (rounds s)(i := rounds s i + 1),
                  ex_at := (ex_at s)(i := (if rounds s i + 1 < loop_count then Working else Finished))\<rparr>))"

definition ex_worker :: "nat \<Rightarrow> (nat \<Rightarrow> nat \<Rightarrow> nat) \<Rightarrow> nat \<Rightarrow> nat \<Rightarrow> ex \<Rightarrow> ex_result option" where
  "ex_worker loop_count rnd w i s =
    (case ex_at s i of
       Working \<Rightarrow> Some (exchange_enter w i (ex_draw rnd i s))
     | OverflowWoken \<Rightarrow> Some (exchange_enter w i s)
     | FirstWoken \<Rightarrow> Some (exchange_resume i s)
     | Back \<Rightarrow> Some (ex_check loop_count i s)
     | _ \<Rightarrow> None)"

definition ex_start :: "nat \<Rightarrow> ex" where
  "ex_start loop_count =
    \<lparr>ex_ptr = None, ex_is = EMPTY, ex_at = (\<lambda>_. if 0 < loop_count then Working else Finished),
     myval = (\<lambda>_. 0), rounds = (\<lambda>_. 0)\<rparr>"

definition notify_choice :: "ex \<Rightarrow> nat \<Rightarrow> bool" where
  "notify_choice s w \<longleftrightarrow> (\<exists>i. ex_at s i = First) \<longrightarrow> ex_at s w = First"

datatype ex_event = Ran nat | WokeUp nat

inductive ex_step :: "nat \<Rightarrow> nat \<Rightarrow> (nat \<Rightarrow> nat \<Rightarrow> nat) \<Rightarrow> ex \<Rightarrow> ex_event \<Rightarrow> ex \<Rightarrow> bool"
  for workers loop_count rnd where
  ex_ran: "i < workers \<Longrightarrow> notify_choice s w \<Longrightarrow> ex_worker loop_count rnd w i s = Some (Went s') \<Longrightarrow>
    ex_step workers loop_count rnd s (Ran i) s'"
| ex_woke_overflow: "ex_at s i = Overflow \<Longrightarrow>
    ex_step workers loop_count rnd s (WokeUp i) (s\<lparr>ex_at := (ex_at s)(i := OverflowWoken)\<rparr>)"
| ex_woke_main: "ex_at s i = First \<Longrightarrow>
    ex_step workers loop_count rnd s (WokeUp i) (s\<lparr>ex_at := (ex_at s)(i := FirstWoken)\<rparr>)"

section \<open>The rendezvous, for any number of threads\<close>

text \<open>The first of a pair is the one the pointer refers to, and it alone is in the middle of an exchange.\<close>

definition at_main :: "ex \<Rightarrow> nat \<Rightarrow> bool" where
  "at_main s i \<longleftrightarrow> ex_at s i = First \<or> ex_at s i = FirstWoken"

definition rendezvous :: "ex \<Rightarrow> bool" where
  "rendezvous s \<longleftrightarrow>
    (\<forall>i. at_main s i \<longleftrightarrow> ex_ptr s = Some i) \<and>
    (ex_ptr s = None \<longleftrightarrow> ex_is s = EMPTY) \<and>
    (ex_is s \<noteq> SECOND_ARRIVED \<longrightarrow> (\<forall>i. ex_at s i \<noteq> Overflow)) \<and>
    (ex_is s = SECOND_ARRIVED \<longrightarrow> (\<forall>i. ex_at s i \<noteq> First))"

lemma rendezvous_start: "rendezvous (ex_start loop_count)"
  by (simp add: rendezvous_def ex_start_def at_main_def)

lemma ex_draw_simps [simp]:
  "ex_ptr (ex_draw rnd i s) = ex_ptr s" "ex_is (ex_draw rnd i s) = ex_is s"
  "ex_at (ex_draw rnd i s) = ex_at s" "rounds (ex_draw rnd i s) = rounds s"
  by (simp_all add: ex_draw_def)

lemma rendezvous_draw [simp]: "rendezvous (ex_draw rnd i s) = rendezvous s"
  by (simp add: rendezvous_def at_main_def)

text \<open>The three ways in which \<open>exchange\<close> begins; none of its assertions fails.\<close>

lemma exchange_enter_cases:
  assumes "rendezvous s" and "notify_choice s w"
  shows "exchange_enter w i s = Went
    (case ex_ptr s of
       None \<Rightarrow> s\<lparr>ex_ptr := Some i, ex_is := FIRST_ARRIVED, ex_at := (ex_at s)(i := First)\<rparr>
     | Some p \<Rightarrow>
         if ex_is s = SECOND_ARRIVED then s\<lparr>ex_at := (ex_at s)(i := Overflow)\<rparr>
         else s\<lparr>ex_is := SECOND_ARRIVED, myval := (myval s)(i := myval s p, p := myval s i),
                ex_at := (ex_at s)(p := FirstWoken, i := Back)\<rparr>)"
proof (cases "ex_ptr s")
  case None
  then have "ex_is s = EMPTY"
    using assms(1) unfolding rendezvous_def by blast
  then show ?thesis
    using None by (simp add: exchange_enter_def)
next
  case (Some p)
  have main: "at_main s j \<longleftrightarrow> j = p" for j
    using assms(1) Some unfolding rendezvous_def by auto
  then have p: "ex_at s p = First \<or> ex_at s p = FirstWoken" and only: "ex_at s j = First \<Longrightarrow> j = p" for j
    unfolding at_main_def by blast+
  have "ex_is s \<noteq> EMPTY"
    using assms(1) Some unfolding rendezvous_def by fastforce
  moreover have "(ex_notify_one_main w (ex_swap i p (s\<lparr>ex_is := SECOND_ARRIVED\<rparr>))) =
      s\<lparr>ex_is := SECOND_ARRIVED, myval := (myval s)(i := myval s p, p := myval s i), ex_at := (ex_at s)(p := FirstWoken)\<rparr>"
  proof (cases "ex_at s p = First")
    case True
    then have "ex_at s w = First"
      using assms(2) unfolding notify_choice_def by blast
    then have "w = p"
      by (rule only)
    then show ?thesis
      using True by (simp add: ex_notify_one_main_def ex_swap_def)
  next
    case False
    then have "ex_at s w \<noteq> First" "(ex_at s)(p := FirstWoken) = ex_at s"
      using p only [of w] by (blast, simp add: fun_upd_idem)
    then show ?thesis
      by (simp add: ex_notify_one_main_def ex_swap_def)
  qed
  ultimately show ?thesis
    using Some by (cases "ex_is s") (simp_all add: exchange_enter_def)
qed

lemma rendezvous_enter:
  assumes "rendezvous s" and "\<not> at_main s i" and "exchange_enter w i s = Went s'" and "notify_choice s w"
  shows "rendezvous s'"
proof (cases "ex_ptr s")
  case None
  then have "s' = s\<lparr>ex_ptr := Some i, ex_is := FIRST_ARRIVED, ex_at := (ex_at s)(i := First)\<rparr>"
    using exchange_enter_cases [OF assms(1,4)] assms(3) by simp
  then show ?thesis
    using assms(1) None by (auto simp: rendezvous_def at_main_def)
next
  case (Some p)
  have "p \<noteq> i"
    using assms(1,2) Some by (auto simp: rendezvous_def)
  show ?thesis
  proof (cases "ex_is s = SECOND_ARRIVED")
    case True
    then have "s' = s\<lparr>ex_at := (ex_at s)(i := Overflow)\<rparr>"
      using exchange_enter_cases [OF assms(1,4)] assms(3) Some by simp
    then show ?thesis
      using assms(1,2) Some True by (auto simp: rendezvous_def at_main_def)
  next
    case False
    have main: "at_main s j \<longleftrightarrow> j = p" for j
      using assms(1) Some unfolding rendezvous_def by auto
    from False have s': "s' = s\<lparr>ex_is := SECOND_ARRIVED, myval := (myval s)(i := myval s p, p := myval s i),
        ex_at := (ex_at s)(p := FirstWoken, i := Back)\<rparr>"
      using exchange_enter_cases [OF assms(1,4)] assms(3) Some by simp
    have "at_main s' j \<longleftrightarrow> j = p" for j
      using main [of j] \<open>p \<noteq> i\<close> unfolding s' at_main_def by auto
    moreover have "ex_at s' j \<noteq> First" for j
      using main [of j] unfolding s' at_main_def by auto
    ultimately show ?thesis
      using Some unfolding rendezvous_def s' by auto
  qed
qed

lemma exchange_resume_cases:
  assumes "rendezvous s" and "ex_at s i = FirstWoken"
  shows "ex_ptr s = Some i"
    and "exchange_resume i s = Went
      (if ex_is s = FIRST_ARRIVED then s\<lparr>ex_at := (ex_at s)(i := First)\<rparr>
       else s\<lparr>ex_ptr := None, ex_is := EMPTY,
              ex_at := (\<lambda>j. if j = i then Back else if ex_at s j = Overflow then OverflowWoken else ex_at s j)\<rparr>)"
proof -
  show ptr: "ex_ptr s = Some i"
    using assms unfolding rendezvous_def at_main_def by blast
  then have "ex_is s \<noteq> EMPTY"
    using assms(1) unfolding rendezvous_def by fastforce
  moreover have "(\<lambda>j. if ex_at s j = Overflow then OverflowWoken else ex_at s j)(i := Back) =
      (\<lambda>j. if j = i then Back else if ex_at s j = Overflow then OverflowWoken else ex_at s j)"
    by auto
  ultimately show "exchange_resume i s = Went
      (if ex_is s = FIRST_ARRIVED then s\<lparr>ex_at := (ex_at s)(i := First)\<rparr>
       else s\<lparr>ex_ptr := None, ex_is := EMPTY,
              ex_at := (\<lambda>j. if j = i then Back else if ex_at s j = Overflow then OverflowWoken else ex_at s j)\<rparr>)"
    by (cases "ex_is s") (simp_all add: exchange_resume_def ex_notify_all_overflow_def Let_def cong: if_cong)
qed

lemma rendezvous_resume:
  assumes "rendezvous s" and "ex_at s i = FirstWoken" and "exchange_resume i s = Went s'"
  shows "rendezvous s'"
proof (cases "ex_is s = FIRST_ARRIVED")
  case True
  then have "s' = s\<lparr>ex_at := (ex_at s)(i := First)\<rparr>"
    using exchange_resume_cases(2) [OF assms(1,2)] assms(3) by simp
  then show ?thesis
    using assms(1) exchange_resume_cases(1) [OF assms(1,2)] True by (auto simp: rendezvous_def at_main_def)
next
  case False
  have main: "at_main s j \<longleftrightarrow> j = i" for j
    using assms(1) exchange_resume_cases(1) [OF assms(1,2)] unfolding rendezvous_def by auto
  from False have s': "s' = s\<lparr>ex_ptr := None, ex_is := EMPTY,
      ex_at := (\<lambda>j. if j = i then Back else if ex_at s j = Overflow then OverflowWoken else ex_at s j)\<rparr>"
    using exchange_resume_cases(2) [OF assms(1,2)] assms(3) by simp
  have "\<not> at_main s' j" "ex_at s' j \<noteq> Overflow" for j
    using main [of j] unfolding s' at_main_def by auto
  then show ?thesis
    unfolding rendezvous_def s' by simp
qed

lemma rendezvous_check:
  assumes "rendezvous s" and "ex_at s i = Back" and "ex_check loop_count i s = Went s'"
  shows "rendezvous s'"
proof -
  have s': "ex_ptr s' = ex_ptr s" "ex_is s' = ex_is s" "\<And>j. j \<noteq> i \<Longrightarrow> ex_at s' j = ex_at s j"
    "ex_at s' i = Working \<or> ex_at s' i = Finished"
    using assms(3) by (auto simp: ex_check_def split: if_splits)
  have "at_main s' j = at_main s j" "ex_at s' j = First \<longleftrightarrow> ex_at s j = First"
    "ex_at s' j = Overflow \<longleftrightarrow> ex_at s j = Overflow" for j
    using s'(3,4) assms(2) by (cases "j = i"; auto simp: at_main_def)+
  then show ?thesis
    using assms(1) s'(1,2) by (simp add: rendezvous_def)
qed

lemma rendezvous_woke:
  assumes "rendezvous s"
  shows "ex_at s i = Overflow \<Longrightarrow> rendezvous (s\<lparr>ex_at := (ex_at s)(i := OverflowWoken)\<rparr>)"
    and "ex_at s i = First \<Longrightarrow> rendezvous (s\<lparr>ex_at := (ex_at s)(i := FirstWoken)\<rparr>)"
proof -
  have "at_main (s\<lparr>ex_at := (ex_at s)(i := OverflowWoken)\<rparr>) j = at_main s j" if "ex_at s i = Overflow" for j
    using that by (simp add: at_main_def)
  then show "ex_at s i = Overflow \<Longrightarrow> rendezvous (s\<lparr>ex_at := (ex_at s)(i := OverflowWoken)\<rparr>)"
    using assms by (simp add: rendezvous_def)
  have "at_main (s\<lparr>ex_at := (ex_at s)(i := FirstWoken)\<rparr>) j = at_main s j" if "ex_at s i = First" for j
    using that by (simp add: at_main_def)
  then show "ex_at s i = First \<Longrightarrow> rendezvous (s\<lparr>ex_at := (ex_at s)(i := FirstWoken)\<rparr>)"
    using assms by (auto simp: rendezvous_def)
qed

lemma rendezvous_step:
  assumes "rendezvous s" and "ex_step workers loop_count rnd s e s'"
  shows "rendezvous s'"
  using assms(2)
proof cases
  case (ex_ran i w)
  have choice: "notify_choice (ex_draw rnd i s) w"
    using ex_ran(3) by (simp add: notify_choice_def)
  show ?thesis
  proof (cases "ex_at s i")
    case Working
    then show ?thesis
      using ex_ran assms(1) rendezvous_enter [OF _ _ _ choice, of i s'] by (simp add: ex_worker_def at_main_def)
  next
    case OverflowWoken
    then show ?thesis
      using ex_ran assms(1) rendezvous_enter [OF assms(1), of i w s'] by (simp add: ex_worker_def at_main_def)
  next
    case FirstWoken
    then show ?thesis
      using ex_ran rendezvous_resume [OF assms(1)] by (simp add: ex_worker_def)
  next
    case Back
    then show ?thesis
      using ex_ran rendezvous_check [OF assms(1)] by (simp add: ex_worker_def)
  qed (use ex_ran in \<open>simp_all add: ex_worker_def\<close>)
qed (use rendezvous_woke [OF assms(1)] in auto)

text \<open>The assertions of \<open>exchange\<close> do not fail: the only one that may is the one behind it.\<close>

lemma exchange_asserts:
  assumes "rendezvous s" and "notify_choice s w" and "ex_worker loop_count rnd w i s = Some (AssertFails l)"
  shows "l = 121 \<and> ex_at s i = Back"
proof (cases "ex_at s i")
  case Working
  have "notify_choice (ex_draw rnd i s) w"
    using assms(2) by (simp add: notify_choice_def)
  then show ?thesis
    using Working assms exchange_enter_cases [of "ex_draw rnd i s" w i] by (simp add: ex_worker_def)
next
  case OverflowWoken
  then show ?thesis
    using assms exchange_enter_cases [of s w i] by (simp add: ex_worker_def)
next
  case FirstWoken
  then show ?thesis
    using assms exchange_resume_cases(2) [of s i] by (simp add: ex_worker_def)
next
  case Back
  then show ?thesis
    using assms(3) by (simp add: ex_worker_def ex_check_def split: if_splits)
qed (use assms in \<open>simp_all add: ex_worker_def\<close>)

section \<open>The program with its two workers\<close>

definition in_range :: "nat \<Rightarrow> nat \<Rightarrow> bool" where
  "in_range i v \<longleftrightarrow> ex_min i \<le> v \<and> v < ex_max i"

text \<open>Whether a worker has had the values swapped in its current round.\<close>

definition swapped :: "ex_state \<Rightarrow> ex_pc \<Rightarrow> bool" where
  "swapped st pc \<longleftrightarrow> pc = Back \<or> (pc = First \<or> pc = FirstWoken) \<and> st = SECOND_ARRIVED"

definition exchanges :: "ex \<Rightarrow> nat \<Rightarrow> nat" where
  "exchanges s i = rounds s i + (if swapped (ex_is s) (ex_at s i) then 1 else 0)"

definition worker_fine :: "nat \<Rightarrow> ex \<Rightarrow> nat \<Rightarrow> bool" where
  "worker_fine loop_count s i \<longleftrightarrow>
    (if ex_at s i = Finished then rounds s i = loop_count else rounds s i < loop_count) \<and>
    (ex_at s i = Working \<or> ex_at s i = Finished \<or>
     in_range (if swapped (ex_is s) (ex_at s i) then 1 - i else i) (myval s i))"

definition ex_inv :: "nat \<Rightarrow> ex \<Rightarrow> bool" where
  "ex_inv loop_count s \<longleftrightarrow> rendezvous s \<and> worker_fine loop_count s 0 \<and> worker_fine loop_count s 1 \<and>
     exchanges s 0 = exchanges s 1 \<and> (\<forall>i \<ge> 2. ex_at s i = Working \<or> ex_at s i = Finished)"

lemma ex_inv_start: "ex_inv loop_count (ex_start loop_count)"
  using rendezvous_start [of loop_count]
  by (auto simp: ex_inv_def worker_fine_def exchanges_def swapped_def ex_start_def)

text \<open>The worker, and the other one.\<close>

definition pair_fine :: "nat \<Rightarrow> ex \<Rightarrow> nat \<Rightarrow> bool" where
  "pair_fine loop_count s i \<longleftrightarrow> worker_fine loop_count s i \<and> worker_fine loop_count s (1 - i) \<and>
     exchanges s i = exchanges s (1 - i) \<and> (\<forall>j \<ge> 2. ex_at s j = Working \<or> ex_at s j = Finished)"

lemmas pair_defs = pair_fine_def worker_fine_def exchanges_def swapped_def at_main_def

lemma ex_inv_pair:
  assumes "i < 2"
  shows "ex_inv loop_count s \<longleftrightarrow> rendezvous s \<and> pair_fine loop_count s i"
proof -
  have "i = 0 \<or> i = 1"
    using assms by auto
  then show ?thesis
    by (auto simp: ex_inv_def pair_fine_def)
qed

text \<open>A step of one worker leaves the other as it is, up to a wake-up.\<close>

lemma worker_fine_frame:
  assumes "worker_fine loop_count s j"
    and "ex_at s' j = ex_at s j \<or> ex_at s j = Overflow \<and> ex_at s' j = OverflowWoken"
    and "rounds s' j = rounds s j" and "myval s' j = myval s j"
    and "at_main s j \<Longrightarrow> ex_is s' = SECOND_ARRIVED \<longleftrightarrow> ex_is s = SECOND_ARRIVED"
  shows "worker_fine loop_count s' j \<and> exchanges s' j = exchanges s j"
proof -
  have "swapped (ex_is s') (ex_at s' j) = swapped (ex_is s) (ex_at s j)"
    using assms(2,5) unfolding swapped_def at_main_def by force
  moreover have "ex_at s' j = Finished \<longleftrightarrow> ex_at s j = Finished" "ex_at s' j = Working \<longleftrightarrow> ex_at s j = Working"
    using assms(2) by auto
  ultimately show ?thesis
    using assms(1,3,4) unfolding worker_fine_def exchanges_def by simp
qed

lemma pair_fineI:
  assumes "pair_fine loop_count s i"
    and "ex_at s' (1 - i) = ex_at s (1 - i) \<or> ex_at s (1 - i) = Overflow \<and> ex_at s' (1 - i) = OverflowWoken"
    and "rounds s' (1 - i) = rounds s (1 - i)" and "myval s' (1 - i) = myval s (1 - i)"
    and "at_main s (1 - i) \<Longrightarrow> ex_is s' = SECOND_ARRIVED \<longleftrightarrow> ex_is s = SECOND_ARRIVED"
    and "worker_fine loop_count s' i" and "exchanges s' i = exchanges s i"
    and "\<And>j. 2 \<le> j \<Longrightarrow> ex_at s j = Working \<or> ex_at s j = Finished \<Longrightarrow> ex_at s' j = ex_at s j"
  shows "pair_fine loop_count s' i"
  using assms(1,6-8) worker_fine_frame [OF _ assms(2-5), of loop_count] unfolding pair_fine_def by metis

lemma ex_inv_worker: "ex_inv loop_count s \<Longrightarrow> ex_at s p \<noteq> Working \<Longrightarrow> ex_at s p \<noteq> Finished \<Longrightarrow> p < 2"
  unfolding ex_inv_def by (meson not_less)

lemma ex_ptr_other:
  assumes "ex_inv loop_count s" and "ex_ptr s = Some p" and "\<not> at_main s i" and "i < 2"
  shows "p = 1 - i" and "p \<noteq> i" and "p < 2" and "1 - p = i" and "at_main s p"
proof -
  show main: "at_main s p"
    using assms(1,2) by (simp add: ex_inv_def rendezvous_def)
  then show "p \<noteq> i"
    using assms(3) by auto
  have "ex_at s p \<noteq> Working" "ex_at s p \<noteq> Finished"
    using main by (auto simp: at_main_def)
  then show "p < 2"
    using assms(1) by (intro ex_inv_worker)
  then show "p = 1 - i" "1 - p = i"
    using \<open>p \<noteq> i\<close> assms(4) by arith+
qed

lemma in_range_draw: "in_range i (ex_min i + r mod (ex_max i - ex_min i))"
  by (simp add: in_range_def ex_min_def ex_max_def)

lemma ex_inv_enter:
  assumes inv: "ex_inv loop_count s" and i: "i < 2"
    and pc: "ex_at s i = Working \<or> ex_at s i = OverflowWoken" and val: "in_range i (myval s i)"
    and w: "notify_choice s w" and "exchange_enter w i s = Went s'"
  shows "ex_inv loop_count s'"
proof -
  have ren: "rendezvous s" and main: "\<not> at_main s i"
    using inv pc by (auto simp: ex_inv_def at_main_def)
  note ren' = rendezvous_enter [OF ren main assms(6) w]
  note fine = inv [unfolded ex_inv_pair [OF i]]
  have "rounds s i < loop_count"
    using fine pc by (auto simp: pair_defs)
  show ?thesis
  proof (cases "ex_ptr s")
    case None
    then have s': "s' = s\<lparr>ex_ptr := Some i, ex_is := FIRST_ARRIVED, ex_at := (ex_at s)(i := First)\<rparr>"
      using exchange_enter_cases [OF ren w] assms(6) by simp
    have other: "\<not> at_main s (1 - i)" "ex_is s = EMPTY"
      using ren None by (auto simp: rendezvous_def)
    have "1 - i \<noteq> i"
      using i by arith
    have "pair_fine loop_count s' i"
      by (rule pair_fineI [OF conjunct2 [OF fine]])
        (use other \<open>1 - i \<noteq> i\<close> val pc i \<open>rounds s i < loop_count\<close> in \<open>auto simp: s' worker_fine_def exchanges_def swapped_def\<close>)
    then show ?thesis
      using ren' ex_inv_pair [OF i] by blast
  next
    case (Some p)
    note p = ex_ptr_other [OF inv Some main i]
    show ?thesis
    proof (cases "ex_is s = SECOND_ARRIVED")
      case True
      then have s': "s' = s\<lparr>ex_at := (ex_at s)(i := Overflow)\<rparr>"
        using exchange_enter_cases [OF ren w] assms(6) Some by simp
      have "pair_fine loop_count s' i"
        by (rule pair_fineI [OF conjunct2 [OF fine]])
          (use p(1,2) val pc i \<open>rounds s i < loop_count\<close> in \<open>auto simp: s' worker_fine_def exchanges_def swapped_def\<close>)
      then show ?thesis
        using ren' ex_inv_pair [OF i] by blast
    next
      case False
      then have s': "s' = s\<lparr>ex_is := SECOND_ARRIVED, myval := (myval s)(i := myval s p, p := myval s i),
          ex_at := (ex_at s)(p := FirstWoken, i := Back)\<rparr>"
        using exchange_enter_cases [OF ren w] assms(6) Some by simp
      have "worker_fine loop_count s p"
        using fine p(1) by (simp add: pair_fine_def)
      then have "rounds s p < loop_count" "in_range p (myval s p)"
        using p(5) False by (auto simp: worker_fine_def swapped_def at_main_def)
      moreover have "exchanges s i = rounds s i" "exchanges s p = rounds s p"
        using p(5) False pc by (auto simp: exchanges_def swapped_def at_main_def)
      ultimately have "pair_fine loop_count s' i"
        using conjunct2 [OF fine] p(1,2) val i \<open>rounds s i < loop_count\<close>
        by (simp add: pair_fine_def s' worker_fine_def exchanges_def swapped_def)
      then show ?thesis
        using ren' ex_inv_pair [OF i] by blast
    qed
  qed
qed

lemma ex_inv_resume:
  assumes inv: "ex_inv loop_count s" and i: "i < 2" and pc: "ex_at s i = FirstWoken"
    and "exchange_resume i s = Went s'"
  shows "ex_inv loop_count s'"
proof -
  have ren: "rendezvous s"
    using inv by (simp add: ex_inv_def)
  note ren' = rendezvous_resume [OF ren pc assms(4)]
  note fine = inv [unfolded ex_inv_pair [OF i]]
  have neq: "1 - i \<noteq> i"
    using i by arith
  have ptr: "ex_ptr s = Some i"
    using exchange_resume_cases(1) [OF ren pc] .
  have other: "\<not> at_main s (1 - i)"
    using ren ptr neq by (auto simp: rendezvous_def)
  have "pair_fine loop_count s' i"
  proof (cases "ex_is s = FIRST_ARRIVED")
    case True
    then have s': "s' = s\<lparr>ex_at := (ex_at s)(i := First)\<rparr>"
      using exchange_resume_cases(2) [OF ren pc] assms(4) by simp
    show "pair_fine loop_count s' i"
      by (rule pair_fineI [OF conjunct2 [OF fine]])
        (use fine neq pc True in \<open>auto simp: s' pair_defs\<close>)
  next
    case False
    then have second: "ex_is s = SECOND_ARRIVED"
      using ren ptr by (cases "ex_is s") (auto simp: rendezvous_def)
    from False have s': "s' = s\<lparr>ex_ptr := None, ex_is := EMPTY,
        ex_at := (\<lambda>j. if j = i then Back else if ex_at s j = Overflow then OverflowWoken else ex_at s j)\<rparr>"
      using exchange_resume_cases(2) [OF ren pc] assms(4) by simp
    show "pair_fine loop_count s' i"
      by (rule pair_fineI [OF conjunct2 [OF fine]])
        (use fine neq pc second other in \<open>auto simp: s' pair_defs\<close>)
  qed
  then show ?thesis
    using ren' ex_inv_pair [OF i] by blast
qed

text \<open>What a worker has after the exchange comes from the other one: the assertion behind the exchange holds.\<close>

lemma ex_check_cases:
  assumes "ex_inv loop_count s" and i: "i < 2" and "ex_at s i = Back"
  shows "ex_check loop_count i s = Went (s\<lparr>rounds := (rounds s)(i := rounds s i + 1),
    ex_at := (ex_at s)(i := (if rounds s i + 1 < loop_count then Working else Finished))\<rparr>)"
proof -
  have "in_range (1 - i) (myval s i)"
    using assms(1,3) unfolding ex_inv_pair [OF i] by (auto simp: pair_defs)
  moreover have "i = 0 \<or> i = 1"
    using i by auto
  ultimately show ?thesis
    by (auto simp: ex_check_def in_range_def ex_min_def ex_max_def)
qed

lemma ex_inv_check:
  assumes inv: "ex_inv loop_count s" and i: "i < 2" and pc: "ex_at s i = Back"
    and "ex_check loop_count i s = Went s'"
  shows "ex_inv loop_count s'"
proof -
  have s': "s' = s\<lparr>rounds := (rounds s)(i := rounds s i + 1),
      ex_at := (ex_at s)(i := (if rounds s i + 1 < loop_count then Working else Finished))\<rparr>"
    using ex_check_cases [OF inv i pc] assms(4) by simp
  note fine = inv [unfolded ex_inv_pair [OF i]]
  have ren': "rendezvous s'"
    using rendezvous_check [OF _ pc assms(4)] inv by (simp add: ex_inv_def)
  have neq: "1 - i \<noteq> i"
    using i by arith
  have "pair_fine loop_count s' i"
    using fine neq pc i unfolding s'
    by (simp add: pair_fine_def worker_fine_def exchanges_def swapped_def split: if_splits)
  then show ?thesis
    using ren' ex_inv_pair [OF i] by blast
qed

lemma ex_inv_woke:
  assumes inv: "ex_inv loop_count s"
    and "ex_at s i = Overflow \<and> pc = OverflowWoken \<or> ex_at s i = First \<and> pc = FirstWoken"
  shows "ex_inv loop_count (s\<lparr>ex_at := (ex_at s)(i := pc)\<rparr>)"
proof -
  have ren': "rendezvous (s\<lparr>ex_at := (ex_at s)(i := pc)\<rparr>)"
    using inv assms(2) rendezvous_woke [of s i] by (auto simp: ex_inv_def)
  have "ex_at s i \<noteq> Working" "ex_at s i \<noteq> Finished"
    using assms(2) by auto
  then have i: "i < 2"
    using inv by (intro ex_inv_worker)
  have neq: "1 - i \<noteq> i"
    using i by arith
  have fine: "pair_fine loop_count s i"
    using inv ex_inv_pair [OF i] by blast
  then have "worker_fine loop_count s i"
    by (simp add: pair_fine_def)
  then have "worker_fine loop_count (s\<lparr>ex_at := (ex_at s)(i := pc)\<rparr>) i"
    using assms(2) by (auto simp: worker_fine_def swapped_def)
  moreover have "exchanges (s\<lparr>ex_at := (ex_at s)(i := pc)\<rparr>) i = exchanges s i"
    using assms(2) by (auto simp: exchanges_def swapped_def)
  ultimately have "pair_fine loop_count (s\<lparr>ex_at := (ex_at s)(i := pc)\<rparr>) i"
    using neq i by (intro pair_fineI [OF fine]) simp_all
  then show ?thesis
    using ren' ex_inv_pair [OF i] by blast
qed

lemma ex_inv_draw:
  assumes "ex_inv loop_count s" and "ex_at s i = Working"
  shows "ex_inv loop_count (ex_draw rnd i s)"
proof -
  have "worker_fine loop_count (ex_draw rnd i s) j" if "worker_fine loop_count s j" for j
    using that assms(2) by (cases "j = i") (simp_all add: worker_fine_def ex_draw_def)
  moreover have "exchanges (ex_draw rnd i s) j = exchanges s j" for j
    by (simp add: exchanges_def)
  ultimately show ?thesis
    using assms(1) by (simp add: ex_inv_def)
qed

lemma ex_inv_step:
  assumes "ex_inv loop_count s" and "ex_step 2 loop_count rnd s e s'"
  shows "ex_inv loop_count s'"
  using assms(2)
proof cases
  case (ex_ran i w)
  show ?thesis
  proof (cases "ex_at s i")
    case Working
    have "notify_choice (ex_draw rnd i s) w" "in_range i (myval (ex_draw rnd i s) i)"
      using ex_ran(3) in_range_draw by (simp_all add: notify_choice_def ex_draw_def)
    then show ?thesis
      using ex_ran Working ex_inv_enter [OF ex_inv_draw [OF assms(1) Working] ex_ran(2)] by (simp add: ex_worker_def)
  next
    case OverflowWoken
    then have "in_range i (myval s i)"
      using assms(1) unfolding ex_inv_pair [OF ex_ran(2)] by (simp add: pair_defs)
    then show ?thesis
      using ex_ran OverflowWoken ex_inv_enter [OF assms(1) ex_ran(2)] by (simp add: ex_worker_def)
  next
    case FirstWoken
    then show ?thesis
      using ex_ran ex_inv_resume [OF assms(1) ex_ran(2)] by (simp add: ex_worker_def)
  next
    case Back
    then show ?thesis
      using ex_ran ex_inv_check [OF assms(1) ex_ran(2)] by (simp add: ex_worker_def)
  qed (use ex_ran in \<open>simp_all add: ex_worker_def\<close>)
qed (use ex_inv_woke [OF assms(1)] in auto)

section \<open>Progress\<close>

lemma notify_choice_exists: "\<exists>w. notify_choice s w"
  by (auto simp: notify_choice_def)

lemma ex_worker_goes:
  assumes "ex_inv loop_count s" and "i < 2" and "notify_choice s w" and "ex_worker loop_count rnd w i s = Some r"
  shows "\<exists>s'. r = Went s'"
proof (cases r)
  case (AssertFails l)
  have "rendezvous s"
    using assms(1) by (simp add: ex_inv_def)
  then have "ex_at s i = Back"
    using exchange_asserts assms(3,4) AssertFails by blast
  then show ?thesis
    using ex_check_cases [OF assms(1,2)] assms(4) AssertFails by (simp add: ex_worker_def)
qed simp

lemma ex_not_stuck:
  assumes inv: "ex_inv loop_count s" and "i < 2" and "ex_at s i \<noteq> Finished"
  shows "\<exists>j s'. ex_step 2 loop_count rnd s (Ran j) s'"
proof (rule ccontr)
  assume stuck: "\<not> ?thesis"
  obtain w where w: "notify_choice s w"
    using notify_choice_exists by blast
  have at: "ex_at s j = Overflow \<or> ex_at s j = First \<or> ex_at s j = Finished" if "j < 2" for j
  proof -
    have "ex_worker loop_count rnd w j s = None"
      using stuck ex_worker_goes [OF inv that w] ex_ran [OF that w] by (metis not_None_eq)
    then show ?thesis
      by (cases "ex_at s j") (simp_all add: ex_worker_def)
  qed
  have ren: "rendezvous s"
    using inv by (simp add: ex_inv_def)
  have "ex_is s \<noteq> SECOND_ARRIVED"
  proof
    assume second: "ex_is s = SECOND_ARRIVED"
    then obtain p where p: "ex_ptr s = Some p"
      using ren by (cases "ex_ptr s") (auto simp: rendezvous_def)
    then have "ex_at s p = FirstWoken"
      using ren second by (auto simp: rendezvous_def at_main_def)
    moreover have "p < 2"
      using calculation by (intro ex_inv_worker [OF inv]) simp_all
    ultimately show False
      using at [of p] by simp
  qed
  moreover from this have "ex_at s j \<noteq> Overflow" for j
    using ren by (simp add: rendezvous_def)
  ultimately have first: "ex_at s i = First"
    using at [OF assms(2)] assms(3) by blast
  have neq: "1 - i \<noteq> i" "1 - i < 2"
    using assms(2) by arith+
  have "ex_ptr s = Some i"
    using ren first unfolding rendezvous_def at_main_def by blast
  then have "\<not> at_main s (1 - i)"
    using ren neq by (auto simp: rendezvous_def)
  then have "ex_at s (1 - i) = Finished"
    using at [OF neq(2)] \<open>\<And>j. ex_at s j \<noteq> Overflow\<close> by (auto simp: at_main_def)
  then show False
    using inv first \<open>ex_is s \<noteq> SECOND_ARRIVED\<close> unfolding ex_inv_pair [OF assms(2)]
    by (auto simp: pair_fine_def worker_fine_def exchanges_def swapped_def)
qed

text \<open>Every step but a spurious wake-up brings the program closer to its end.\<close>

fun pc_left :: "ex_pc \<Rightarrow> nat" where
  "pc_left Working = 6"
| "pc_left OverflowWoken = 5"
| "pc_left Overflow = 4"
| "pc_left FirstWoken = 3"
| "pc_left First = 2"
| "pc_left Back = 0"
| "pc_left Finished = 0"

definition worker_left :: "nat \<Rightarrow> ex \<Rightarrow> nat \<Rightarrow> nat" where
  "worker_left loop_count s i = 7 * (loop_count - rounds s i) + pc_left (ex_at s i)"

definition ex_left :: "nat \<Rightarrow> ex \<Rightarrow> nat" where
  "ex_left loop_count s = worker_left loop_count s 0 + worker_left loop_count s 1"

lemma ex_left_pair: "i < 2 \<Longrightarrow> ex_left loop_count s = worker_left loop_count s i + worker_left loop_count s (1 - i)"
  by (auto simp: ex_left_def less_2_cases_iff)

lemma ex_left_enter:
  assumes "ex_inv loop_count s" and i: "i < 2" and pc: "ex_at s i = Working \<or> ex_at s i = OverflowWoken"
    and w: "notify_choice s w" and "exchange_enter w i s = Went s'"
  shows "ex_left loop_count s' < ex_left loop_count s"
proof -
  have ren: "rendezvous s" and main: "\<not> at_main s i"
    using assms(1) pc by (auto simp: ex_inv_def at_main_def)
  have neq: "1 - i \<noteq> i"
    using i by arith
  have left: "5 \<le> pc_left (ex_at s i)"
    using pc by auto
  show ?thesis
  proof (cases "ex_ptr s")
    case None
    then have "s' = s\<lparr>ex_ptr := Some i, ex_is := FIRST_ARRIVED, ex_at := (ex_at s)(i := First)\<rparr>"
      using exchange_enter_cases [OF ren w] assms(5) by simp
    then show ?thesis
      unfolding ex_left_pair [OF i] using left neq by (simp add: worker_left_def)
  next
    case (Some p)
    note p = ex_ptr_other [OF assms(1) Some main i]
    have "2 \<le> pc_left (ex_at s p)"
      using p(5) by (auto simp: at_main_def)
    then show ?thesis
      using exchange_enter_cases [OF ren w, of i] assms(5) Some left neq p(1)
      unfolding ex_left_pair [OF i] by (cases "ex_is s = SECOND_ARRIVED") (auto simp: worker_left_def)
  qed
qed

lemma ex_left_resume:
  assumes "ex_inv loop_count s" and i: "i < 2" and pc: "ex_at s i = FirstWoken" and "exchange_resume i s = Went s'"
  shows "ex_left loop_count s' < ex_left loop_count s"
proof -
  have ren: "rendezvous s"
    using assms(1) by (simp add: ex_inv_def)
  have neq: "1 - i \<noteq> i"
    using i by arith
  show ?thesis
    using exchange_resume_cases(2) [OF ren pc] assms(4) pc neq
    unfolding ex_left_pair [OF i] by (cases "ex_is s = FIRST_ARRIVED") (auto simp: worker_left_def)
qed

lemma ex_left_check:
  assumes "ex_inv loop_count s" and i: "i < 2" and pc: "ex_at s i = Back" and "ex_check loop_count i s = Went s'"
  shows "ex_left loop_count s' < ex_left loop_count s"
proof -
  have "rounds s i < loop_count"
    using assms(1) pc unfolding ex_inv_pair [OF i] by (simp add: pair_fine_def worker_fine_def)
  moreover have "1 - i \<noteq> i"
    using i by arith
  ultimately show ?thesis
    using ex_check_cases [OF assms(1) i pc] assms(4) pc
    unfolding ex_left_pair [OF i] by (auto simp: worker_left_def)
qed

fun is_woke :: "ex_event \<Rightarrow> bool" where
  "is_woke (WokeUp i) = True"
| "is_woke (Ran i) = False"

lemma ex_left_step:
  assumes "ex_inv loop_count s" and "ex_step 2 loop_count rnd s e s'"
  shows "ex_left loop_count s' + 1 \<le> ex_left loop_count s + (if is_woke e then 2 else 0)"
  using assms(2)
proof cases
  case (ex_ran i w)
  have "ex_left loop_count s' < ex_left loop_count s"
  proof (cases "ex_at s i")
    case Working
    have "notify_choice (ex_draw rnd i s) w" "ex_left loop_count (ex_draw rnd i s) = ex_left loop_count s"
      using ex_ran(3) by (simp_all add: notify_choice_def ex_left_def worker_left_def)
    then show ?thesis
      using ex_ran Working ex_left_enter [OF ex_inv_draw [OF assms(1) Working, of rnd] ex_ran(2), of w s']
      by (simp add: ex_worker_def)
  next
    case OverflowWoken
    then show ?thesis
      using ex_ran ex_left_enter [OF assms(1) ex_ran(2)] by (simp add: ex_worker_def)
  next
    case FirstWoken
    then show ?thesis
      using ex_ran ex_left_resume [OF assms(1) ex_ran(2)] by (simp add: ex_worker_def)
  next
    case Back
    then show ?thesis
      using ex_ran ex_left_check [OF assms(1) ex_ran(2)] by (simp add: ex_worker_def)
  qed (use ex_ran in \<open>simp_all add: ex_worker_def\<close>)
  then show ?thesis
    by simp
qed (auto simp: ex_left_def worker_left_def)

lemma ex_run:
  assumes "steps (ex_step 2 loop_count rnd) s es s'" and "ex_inv loop_count s"
  shows "ex_inv loop_count s' \<and>
    length es + ex_left loop_count s' \<le> ex_left loop_count s + 2 * length (filter is_woke es)"
  using assms
proof (induction rule: steps.induct)
  case (steps_Cons s e s' es s'')
  then show ?case
    using ex_inv_step [of loop_count s rnd e s'] ex_left_step [of loop_count s rnd e s']
    by (auto split: if_splits)
qed simp

section \<open>Properties\<close>

text \<open>A first arrival, in the program and with one more worker.\<close>

lemma ex_sample:
  "n = 2 \<or> n = 3 \<Longrightarrow> \<exists>s. steps (ex_step n 1 (\<lambda>_ _. 7)) (ex_start 1) [Ran 0] s \<and> ex_at s 0 = First \<and> myval s 0 = 107"
  by (auto simp: steps_Cons_iff ex_step.simps ex_worker_def ex_start_def exchange_enter_def ex_draw_def
      notify_choice_def ex_min_def ex_max_def)

text \<open>The assertions of \<open>exchange\<close> never fail, with any number of threads at the rendezvous and in any
  interleaving, spurious wake-ups included.\<close>

theorem exchange_never_asserts:
  assumes "steps (ex_step workers loop_count rnd) (ex_start loop_count) es s" and "notify_choice s w"
  shows "ex_worker loop_count rnd w i s \<notin> (Some \<circ> AssertFails) ` {67, 70, 78, 87}"
proof -
  have "rendezvous s"
    using steps_invariant [OF assms(1), of rendezvous] rendezvous_step rendezvous_start by blast
  then show ?thesis
    using exchange_asserts [OF _ assms(2)] by fastforce
qed

theorem exchange_never_asserts_witness:
  "\<exists>s. steps (ex_step 3 1 (\<lambda>_ _. 7)) (ex_start 1) [Ran 0] s \<and> ex_at s 0 = First \<and>
    ex_worker 1 (\<lambda>_ _. 7) 0 2 s \<notin> (Some \<circ> AssertFails) ` {67, 70, 78, 87}"
proof -
  obtain s where s: "steps (ex_step 3 1 (\<lambda>_ _. 7)) (ex_start 1) [Ran 0] s" "ex_at s 0 = First"
    using ex_sample [of 3] by auto
  from exchange_never_asserts [OF s(1), of 0 2] s show ?thesis
    unfolding notify_choice_def by blast
qed



end
