(* ===== verification/Phonebook.thy ===== *)
theory Phonebook
  imports Prelude
begin

text \<open>
  \<open>src/src/exercises/c/phonebook/phonebook_solution_full.c\<close>: a table of names and phones with a menu. The input of
  the program is the text that is typed, its output the lines it prints besides the prompts. The fields of
  an entry are arrays of 20 characters; an access behind the end of one is a crash. \<open>Done None\<close> is an exit
  with a failure.
\<close>

section \<open>C strings and \<open>scanf\<close>\<close>

abbreviation NUL :: char where
  "NUL \<equiv> CHR 0x00"

definition c_str :: "char list \<Rightarrow> string" where
  "c_str cs = takeWhile (\<lambda>c. c \<noteq> NUL) cs"

text \<open>Whether \<open>strcmp\<close> of a string with what an array holds is 0.\<close>

fun strcmp_0 :: "string \<Rightarrow> char list \<Rightarrow> bool outcome" where
  "strcmp_0 s [] = Crash OutOfBounds"
| "strcmp_0 [] (c # cs) = Done (c = NUL)"
| "strcmp_0 (x # xs) (c # cs) = (if x = c then strcmp_0 xs cs else Done False)"

text \<open>What \<open>printf\<close> prints of an array for a \<open>%s\<close>.\<close>

definition print_s :: "char list \<Rightarrow> string outcome" where
  "print_s cs = (if NUL \<in> set cs then Done (c_str cs) else Crash OutOfBounds)"

definition c_isspace :: "char \<Rightarrow> bool" where
  "c_isspace c \<longleftrightarrow> c \<in> {CHR 0x20, CHR 0x09, CHR 0x0A, CHR 0x0B, CHR 0x0C, CHR 0x0D}"

text \<open>\<open>scanf\<close> with \<open>%<n>s\<close>: the characters it stores before the terminator, and the rest of the input.\<close>

definition scanf_s :: "nat \<Rightarrow> string \<Rightarrow> (string \<times> string) option" where
  "scanf_s n input =
    (let input = dropWhile c_isspace input;
         token = take n (takeWhile (\<lambda>c. \<not> c_isspace c) input)
     in if token = [] then None else Some (token, drop (length token) input))"

definition c_isdigit :: "char \<Rightarrow> bool" where
  "c_isdigit c \<longleftrightarrow> 48 \<le> (of_char c :: nat) \<and> (of_char c :: nat) \<le> 57"

definition digits_value :: "string \<Rightarrow> int" where
  "digits_value ds = foldl (\<lambda>v d. 10 * v + (of_char d - 48)) 0 ds"

text \<open>\<open>scanf\<close> with \<open>%d\<close>: a number that does not fit into an \<open>int\<close> has no defined result.\<close>

definition scanf_d :: "string \<Rightarrow> (int \<times> string) option outcome" where
  "scanf_d input =
    (let input = dropWhile c_isspace input;
         negative = (input \<noteq> [] \<and> hd input = CHR 0x2D);
         signed = (input \<noteq> [] \<and> hd input \<in> {CHR 0x2B, CHR 0x2D});
         rest = (if signed then tl input else input);
         ds = takeWhile c_isdigit rest
     in if ds = [] then Done None
        else outcome_bind (signed32 (if negative then - digits_value ds else digits_value ds))
               (\<lambda>v. Done (Some (v, drop (length ds) rest))))"

section \<open>The program\<close>

record phone_entry =
  pe_name :: "char list"
  pe_phone :: "char list"
  pe_used :: int

definition phone_entry_init :: "phone_entry \<Rightarrow> phone_entry" where
  "phone_entry_init pe = pe\<lparr>pe_used := 0\<rparr>"

fun find_empty_cell :: "nat \<Rightarrow> phone_entry list \<Rightarrow> nat option" where
  "find_empty_cell i [] = None"
| "find_empty_cell i (pe # pes) = (if pe_used pe = 0 then Some i else find_empty_cell (i + 1) pes)"

fun find_cell_by_name :: "nat \<Rightarrow> phone_entry list \<Rightarrow> string \<Rightarrow> int outcome" where
  "find_cell_by_name i [] name = Done (- 1)"
| "find_cell_by_name i (pe # pes) name =
     outcome_bind (strcmp_0 name (pe_name pe)) (\<lambda>eq.
       if eq then Done (int i) else find_cell_by_name (i + 1) pes name)"

datatype line = NoSuchName | NoOneByThatName | ThePhone string string | Listed string string | Terminating

definition add_entry :: "phone_entry list \<Rightarrow> string \<Rightarrow> (phone_entry list \<times> string) option" where
  "add_entry book input =
    (case find_empty_cell 0 book of
       None \<Rightarrow> None
     | Some entry \<Rightarrow>
         (case scanf_s 19 input of
            None \<Rightarrow> None
          | Some (name, input) \<Rightarrow>
              (case scanf_s 19 input of
                 None \<Rightarrow> None
               | Some (phone, input) \<Rightarrow>
                   Some (book[entry := (book ! entry)
                     \<lparr>pe_name := blit (pe_name (book ! entry)) 0 (name @ [NUL]),
                      pe_phone := blit (pe_phone (book ! entry)) 0 (phone @ [NUL]),
                      pe_used := 1\<rparr>], input))))"

definition delete_entry ::
  "phone_entry list \<Rightarrow> string \<Rightarrow> (phone_entry list \<times> string \<times> line list) option outcome" where
  "delete_entry book input =
    (case scanf_s 255 input of
       None \<Rightarrow> Done None
     | Some (name, input) \<Rightarrow>
         outcome_bind (find_cell_by_name 0 book (c_str name)) (\<lambda>entry.
           if entry = - 1 then Done (Some (book, input, [NoSuchName]))
           else Done (Some (book[nat entry := (book ! nat entry)\<lparr>pe_used := 0\<rparr>], input, []))))"

definition find_entry :: "phone_entry list \<Rightarrow> string \<Rightarrow> (string \<times> line list) option outcome" where
  "find_entry book input =
    (case scanf_s 255 input of
       None \<Rightarrow> Done None
     | Some (name, input) \<Rightarrow>
         outcome_bind (find_cell_by_name 0 book (c_str name)) (\<lambda>entry.
           if entry = - 1 then Done (Some (input, [NoOneByThatName]))
           else outcome_bind (print_s (pe_phone (book ! nat entry))) (\<lambda>phone.
                Done (Some (input, [ThePhone (c_str name) phone])))))"

fun print_phonebook :: "phone_entry list \<Rightarrow> line list outcome" where
  "print_phonebook [] = Done []"
| "print_phonebook (pe # pes) =
    (if pe_used pe \<noteq> 0
     then outcome_bind (print_s (pe_name pe)) (\<lambda>name.
          outcome_bind (print_s (pe_phone pe)) (\<lambda>phone.
          outcome_bind (print_phonebook pes) (\<lambda>ls. Done (Listed name phone # ls))))
     else print_phonebook pes)"

lemma length_dropWhile_le: "length (dropWhile P xs) \<le> length xs"
  by (metis le_add2 length_append takeWhile_dropWhile_id)

lemma scanf_d_shorter:
  assumes "scanf_d input = Done (Some (v, rest))"
  shows "length rest < length input"
proof -
  define inp where "inp = dropWhile c_isspace input"
  define inp' where "inp' = (if inp \<noteq> [] \<and> hd inp \<in> {CHR 0x2B, CHR 0x2D} then tl inp else inp)"
  have "takeWhile c_isdigit inp' \<noteq> []" "rest = drop (length (takeWhile c_isdigit inp')) inp'"
    using assms by (auto simp: scanf_d_def Let_def inp_def inp'_def split: if_splits)
  then have "length rest < length inp'"
    by (metis length_drop length_greater_0_conv length_takeWhile_le diff_less less_le_trans)
  also have "\<dots> \<le> length inp"
    by (simp add: inp'_def)
  also have "\<dots> \<le> length input"
    by (simp add: inp_def length_dropWhile_le)
  finally show ?thesis .
qed

function show_menu :: "string \<Rightarrow> (int \<times> string) option outcome" where
  "show_menu input =
    (case scanf_d input of
       Crash c \<Rightarrow> Crash c
     | Done None \<Rightarrow> Done None
     | Done (Some (result, input')) \<Rightarrow>
         if result < 1 \<or> result > 5 then show_menu input' else Done (Some (result, input')))"
  by pat_completeness auto

termination
  by (relation "measure length") (auto dest: scanf_d_shorter)

declare show_menu.simps [simp del]

lemma show_menu_shorter:
  "show_menu input = Done (Some (v, rest)) \<Longrightarrow> length rest < length input"
proof (induction input rule: show_menu.induct)
  case (1 input)
  then obtain r input' where d: "scanf_d input = Done (Some (r, input'))"
    by (subst (asm) (2) show_menu.simps) (auto split: outcome.splits option.splits)
  then have "length input' < length input"
    by (rule scanf_d_shorter)
  moreover have "length rest < length input'" if "r < 1 \<or> 5 < r"
    using 1 d that by (simp add: show_menu.simps [of input])
  moreover have "rest = input'" if "\<not> (r < 1 \<or> 5 < r)"
    using 1(2) d that by (simp add: show_menu.simps [of input])
  ultimately show ?case
    by (cases "r < 1 \<or> 5 < r") auto
qed

lemma show_menu_choice:
  "show_menu input = Done (Some (v, rest)) \<Longrightarrow> v \<in> {1..5}"
proof (induction input rule: show_menu.induct)
  case (1 input)
  then obtain r input' where d: "scanf_d input = Done (Some (r, input'))"
    by (subst (asm) (2) show_menu.simps) (auto split: outcome.splits option.splits)
  show ?case
    using 1 d by (cases "r < 1 \<or> 5 < r") (auto simp: show_menu.simps [of input])
qed

lemma scanf_s_shorter:
  assumes "scanf_s n input = Some (token, rest)"
  shows "length rest < length input" and "token \<noteq> []" and "length token \<le> n"
proof -
  define inp where "inp = dropWhile c_isspace input"
  have t: "token = take n (takeWhile (\<lambda>c. \<not> c_isspace c) inp)" "token \<noteq> []" "rest = drop (length token) inp"
    using assms by (auto simp: scanf_s_def Let_def inp_def split: if_splits)
  show "token \<noteq> []"
    by (rule t(2))
  show "length token \<le> n"
    by (simp add: t(1))
  have "length token \<le> length inp"
    using t(1) length_takeWhile_le [of "\<lambda>c. \<not> c_isspace c" inp] by simp
  then have "length rest < length inp"
    using t(2,3) by (cases token) auto
  also have "\<dots> \<le> length input"
    by (simp add: inp_def length_dropWhile_le)
  finally show "length rest < length input" .
qed

lemma add_entry_shorter: "add_entry book input = Some (book', rest) \<Longrightarrow> length rest < length input"
  by (auto simp: add_entry_def split: option.splits dest!: scanf_s_shorter(1))

lemma delete_entry_shorter: "delete_entry book input = Done (Some (book', rest, ls)) \<Longrightarrow> length rest < length input"
  by (auto simp: delete_entry_def split: option.splits if_splits dest!: scanf_s_shorter(1))

lemma find_entry_shorter: "find_entry book input = Done (Some (rest, ls)) \<Longrightarrow> length rest < length input"
  by (auto simp: find_entry_def split: option.splits if_splits dest!: scanf_s_shorter(1))

text \<open>The loop of \<open>main\<close>: whether it ends with a success, the table at its end, and what has been printed.\<close>

function phonebook_loop :: "phone_entry list \<Rightarrow> string \<Rightarrow> line list \<Rightarrow> (bool \<times> phone_entry list \<times> line list) outcome" where
  "phonebook_loop book input out =
    (case show_menu input of
       Crash c \<Rightarrow> Crash c
     | Done None \<Rightarrow> Done (False, book, out)
     | Done (Some (selection, input)) \<Rightarrow>
         if selection = 1
         then (case add_entry book input of
                 None \<Rightarrow> Done (False, book, out)
               | Some (book, input) \<Rightarrow> phonebook_loop book input out)
         else if selection = 2
         then (case delete_entry book input of
                 Crash c \<Rightarrow> Crash c
               | Done None \<Rightarrow> Done (False, book, out)
               | Done (Some (book, input, ls)) \<Rightarrow> phonebook_loop book input (out @ ls))
         else if selection = 3
         then (case find_entry book input of
                 Crash c \<Rightarrow> Crash c
               | Done None \<Rightarrow> Done (False, book, out)
               | Done (Some (input, ls)) \<Rightarrow> phonebook_loop book input (out @ ls))
         else if selection = 4
         then (case print_phonebook book of
                 Crash c \<Rightarrow> Crash c
               | Done ls \<Rightarrow> phonebook_loop book input (out @ ls))
         else Done (True, book, out @ [Terminating]))"
  by pat_completeness auto

termination
  by (relation "measure (\<lambda>(book, input, out). length input)")
    (auto dest!: show_menu_shorter add_entry_shorter delete_entry_shorter find_entry_shorter)

declare phonebook_loop.simps [simp del]

text \<open>\<open>block\<close> is the memory \<open>malloc\<close> returns, as 100 entries with whatever they contain.\<close>

definition phonebook_main :: "phone_entry list \<Rightarrow> string \<Rightarrow> (bool \<times> phone_entry list \<times> line list) outcome" where
  "phonebook_main block input = phonebook_loop (map phone_entry_init block) input []"

section \<open>Well-formed tables\<close>

definition terminated :: "char list \<Rightarrow> bool" where
  "terminated cs \<longleftrightarrow> length cs = 20 \<and> NUL \<in> set cs"

definition wf_entry :: "phone_entry \<Rightarrow> bool" where
  "wf_entry pe \<longleftrightarrow> terminated (pe_name pe) \<and> terminated (pe_phone pe) \<and> pe_used pe \<in> {0, 1}"

definition wf_book :: "phone_entry list \<Rightarrow> bool" where
  "wf_book book \<longleftrightarrow> (\<forall>pe \<in> set book. wf_entry pe)"

text \<open>\<open>strcmp\<close> compares what two terminated arrays hold.\<close>

lemma strcmp_0_terminated:
  "NUL \<in> set cs \<Longrightarrow> NUL \<notin> set s \<Longrightarrow> strcmp_0 s cs = Done (s = c_str cs)"
  by (induction s cs rule: strcmp_0.induct) (auto simp: c_str_def)

lemma c_str_no_NUL: "NUL \<notin> set (c_str cs)"
  by (auto simp: c_str_def dest: set_takeWhileD)

lemma terminated_blit:
  assumes "length cs = 20" and "length t \<le> 19"
  shows "terminated (blit cs 0 (t @ [NUL]))"
  using assms by (simp add: terminated_def blit_def)

lemma c_str_append_NUL: "c_str (t @ NUL # cs) = c_str t"
  by (induction t) (auto simp: c_str_def)

lemma c_str_blit: "c_str (blit cs 0 (t @ [NUL])) = c_str t"
  by (simp add: blit_def c_str_append_NUL)

lemma find_empty_cell_bounds: "find_empty_cell i book = Some e \<Longrightarrow> i \<le> e \<and> e < i + length book"
  by (induction i book rule: find_empty_cell.induct) (auto split: if_splits)

definition names :: "phone_entry list \<Rightarrow> string list" where
  "names book = map (\<lambda>pe. c_str (pe_name pe)) book"

text \<open>The search finds the first cell that holds the name, whether it is in use or not.\<close>

fun first_cell :: "string list \<Rightarrow> string \<Rightarrow> nat option" where
  "first_cell [] name = None"
| "first_cell (n # ns) name = (if name = n then Some 0 else map_option Suc (first_cell ns name))"

lemma first_cell_Some: "first_cell ns name = Some k \<Longrightarrow> k < length ns \<and> ns ! k = name"
  by (induction ns arbitrary: k) (auto split: if_splits)

lemma first_cell_append: "name \<notin> set ns \<Longrightarrow> first_cell (ns @ name # ns') name = Some (length ns)"
  by (induction ns) auto

lemma find_cell_by_name_first:
  assumes "wf_book book" and "NUL \<notin> set name"
  shows "find_cell_by_name i book name =
    Done (case first_cell (names book) name of None \<Rightarrow> - 1 | Some k \<Rightarrow> int (i + k))"
  using assms
proof (induction i book name rule: find_cell_by_name.induct)
  case (2 i pe pes name)
  then have "strcmp_0 name (pe_name pe) = Done (name = c_str (pe_name pe))" "wf_book pes"
    by (simp_all add: wf_book_def wf_entry_def terminated_def strcmp_0_terminated)
  then show ?case
    using 2 by (cases "first_cell (names pes) name") (auto simp: names_def)
qed (simp add: names_def)

section \<open>Every operation keeps the table well-formed\<close>

lemma wf_book_update: "wf_book book \<Longrightarrow> wf_entry pe \<Longrightarrow> wf_book (book[k := pe])"
  by (auto simp: wf_book_def dest!: subsetD [OF set_update_subset_insert])

lemma wf_book_nth: "wf_book book \<Longrightarrow> k < length book \<Longrightarrow> wf_entry (book ! k)"
  by (simp add: wf_book_def)

lemma add_entry_wf:
  assumes "wf_book book" and "add_entry book input = Some (book', rest)"
  shows "wf_book book' \<and> length book' = length book"
proof -
  from assms(2) obtain e name phone input' where e: "find_empty_cell 0 book = Some e"
    and s: "scanf_s 19 input = Some (name, input')" "scanf_s 19 input' = Some (phone, rest)"
    and book': "book' = book[e := (book ! e)
      \<lparr>pe_name := blit (pe_name (book ! e)) 0 (name @ [NUL]),
       pe_phone := blit (pe_phone (book ! e)) 0 (phone @ [NUL]), pe_used := 1\<rparr>]"
    by (auto simp: add_entry_def split: option.splits)
  have "length (pe_name (book ! e)) = 20" "length (pe_phone (book ! e)) = 20"
    using wf_book_nth [OF assms(1), of e] find_empty_cell_bounds [OF e]
    by (simp_all add: wf_entry_def terminated_def)
  then have "wf_entry ((book ! e)\<lparr>pe_name := blit (pe_name (book ! e)) 0 (name @ [NUL]),
       pe_phone := blit (pe_phone (book ! e)) 0 (phone @ [NUL]), pe_used := 1\<rparr>)"
    using scanf_s_shorter(3) [OF s(1)] scanf_s_shorter(3) [OF s(2)]
    by (simp add: wf_entry_def terminated_blit)
  then show ?thesis
    using assms(1) by (simp add: book' wf_book_update)
qed

lemma find_cell_found:
  assumes "wf_book book" and "find_cell_by_name 0 book (c_str name) = Done e" and "e \<noteq> - 1"
  shows "nat e < length book" and "names book ! nat e = c_str name"
proof -
  obtain k where "first_cell (names book) (c_str name) = Some k" "e = int k"
    using assms(2,3) find_cell_by_name_first [OF assms(1) c_str_no_NUL, of 0 name]
    by (cases "first_cell (names book) (c_str name)") auto
  then show "nat e < length book" "names book ! nat e = c_str name"
    using first_cell_Some [of "names book" "c_str name" k] by (simp_all add: names_def)
qed

lemma delete_entry_wf:
  assumes "wf_book book"
  shows "\<exists>r. delete_entry book input = Done r \<and>
    (\<forall>book' rest ls. r = Some (book', rest, ls) \<longrightarrow> wf_book book' \<and> length book' = length book)"
proof (cases "scanf_s 255 input")
  case None
  then show ?thesis
    by (simp add: delete_entry_def)
next
  case (Some p)
  obtain name input' where p: "p = (name, input')"
    by (cases p)
  obtain e where e: "find_cell_by_name 0 book (c_str name) = Done e"
    using find_cell_by_name_first [OF assms c_str_no_NUL] by blast
  have "wf_book (book[nat e := (book ! nat e)\<lparr>pe_used := 0\<rparr>])" if "e \<noteq> - 1"
    using wf_book_nth [OF assms find_cell_found(1) [OF assms e that]]
    by (intro wf_book_update [OF assms]) (simp add: wf_entry_def)
  then show ?thesis
    using Some p e assms by (simp add: delete_entry_def)
qed

lemma find_entry_total:
  assumes "wf_book book"
  shows "\<exists>r. find_entry book input = Done r"
proof (cases "scanf_s 255 input")
  case None
  then show ?thesis
    by (simp add: find_entry_def)
next
  case (Some p)
  obtain name input' where p: "p = (name, input')"
    by (cases p)
  obtain e where e: "find_cell_by_name 0 book (c_str name) = Done e"
    using find_cell_by_name_first [OF assms c_str_no_NUL] by blast
  have "NUL \<in> set (pe_phone (book ! nat e))" if "e \<noteq> - 1"
    using wf_book_nth [OF assms find_cell_found(1) [OF assms e that]] by (simp add: wf_entry_def terminated_def)
  then show ?thesis
    using Some p e by (simp add: find_entry_def print_s_def)
qed

lemma print_phonebook_total: "wf_book book \<Longrightarrow> \<exists>ls. print_phonebook book = Done ls"
  by (induction book) (auto simp: wf_book_def wf_entry_def terminated_def print_s_def)

lemma show_menu_crash: "show_menu input = Crash c \<Longrightarrow> c = SignedOverflow"
proof (induction input rule: show_menu.induct)
  case (1 input)
  show ?case
  proof (cases "scanf_d input")
    case (Crash c')
    then show ?thesis
      using 1(2) by (auto simp: show_menu.simps [of input] scanf_d_def signed32_def Let_def split: if_splits)
  next
    case (Done r)
    then show ?thesis
      using 1 by (auto simp: show_menu.simps [of input] split: option.splits if_splits)
  qed
qed

text \<open>What the loop promises: a table like the one it started with, unless a number typed has no value.\<close>

definition loop_ok :: "nat \<Rightarrow> (bool \<times> phone_entry list \<times> line list) outcome \<Rightarrow> bool" where
  "loop_ok n r \<longleftrightarrow>
    (case r of Crash c \<Rightarrow> c = SignedOverflow | Done (ok, book, ls) \<Rightarrow> wf_book book \<and> length book = n)"

lemma phonebook_loop_select:
  assumes "show_menu input = Done (Some (sel, rest))"
  shows "sel = 1 \<Longrightarrow> phonebook_loop book input out =
      (case add_entry book rest of None \<Rightarrow> Done (False, book, out) | Some (book, input) \<Rightarrow> phonebook_loop book input out)"
    and "sel = 2 \<Longrightarrow> delete_entry book rest = Done d \<Longrightarrow> phonebook_loop book input out =
      (case d of None \<Rightarrow> Done (False, book, out) | Some (book, input, ls) \<Rightarrow> phonebook_loop book input (out @ ls))"
    and "sel = 3 \<Longrightarrow> find_entry book rest = Done f \<Longrightarrow> phonebook_loop book input out =
      (case f of None \<Rightarrow> Done (False, book, out) | Some (input, ls) \<Rightarrow> phonebook_loop book input (out @ ls))"
    and "sel = 4 \<Longrightarrow> print_phonebook book = Done ls \<Longrightarrow> phonebook_loop book input out =
      phonebook_loop book rest (out @ ls)"
    and "sel = 5 \<Longrightarrow> phonebook_loop book input out = Done (True, book, out @ [Terminating])"
  using assms by (simp_all add: phonebook_loop.simps [of book input])

lemma phonebook_loop_ok: "wf_book book \<Longrightarrow> loop_ok (length book) (phonebook_loop book input out)"
proof (induction "length input" arbitrary: book input out rule: less_induct)
  case less
  note wf = less.prems
  show ?case
  proof (cases "show_menu input")
    case (Crash c)
    then show ?thesis
      using show_menu_crash [OF Crash] by (simp add: phonebook_loop.simps [of book input] loop_ok_def)
  next
    case (Done r)
    show ?thesis
    proof (cases r)
      case None
      then show ?thesis
        using Done wf by (simp add: phonebook_loop.simps [of book input] loop_ok_def)
    next
      case (Some p)
      obtain sel rest where p: "p = (sel, rest)"
        by (cases p)
      note menu = Done [unfolded Some p]
      note select = phonebook_loop_select [OF menu]
      have IH: "loop_ok (length book) (phonebook_loop book' rest' out')"
        if "wf_book book' \<and> length book' = length book" "length rest' \<le> length rest" for book' rest' out'
        using less.hyps [of rest' book' out'] that show_menu_shorter [OF menu] by simp
      have exit: "loop_ok (length book) (Done (ok, book, out'))" for ok out'
        using wf by (simp add: loop_ok_def)
      consider "sel = 1" | "sel = 2" | "sel = 3" | "sel = 4" | "sel = 5"
        using show_menu_choice [OF menu] by fastforce
      then show ?thesis
      proof cases
        case 1
        show ?thesis
          unfolding select(1) [OF 1] using exit IH add_entry_wf [OF wf, of rest] add_entry_shorter [of book rest]
          by (auto split: option.split simp: order_less_imp_le)
      next
        case 2
        obtain d where d: "delete_entry book rest = Done d"
          "\<And>book' rest' ls. d = Some (book', rest', ls) \<Longrightarrow> wf_book book' \<and> length book' = length book"
          using delete_entry_wf [OF wf, of rest] by blast
        show ?thesis
          unfolding select(2) [OF 2 d(1)] using exit IH d delete_entry_shorter [of book rest]
          by (auto split: option.split simp: order_less_imp_le)
      next
        case 3
        obtain f where f: "find_entry book rest = Done f"
          using find_entry_total [OF wf] by blast
        show ?thesis
          unfolding select(3) [OF 3 f] using exit IH wf f find_entry_shorter [of book rest]
          by (auto split: option.split simp: order_less_imp_le)
      next
        case 4
        obtain ls where ls: "print_phonebook book = Done ls"
          using print_phonebook_total [OF wf] by blast
        show ?thesis
          unfolding select(4) [OF 4 ls] using IH wf by simp
      next
        case 5
        show ?thesis
          unfolding select(5) [OF 5] by (rule exit)
      qed
    qed
  qed
qed

section \<open>Adding, deleting and finding\<close>

definition is_token :: "nat \<Rightarrow> string \<Rightarrow> bool" where
  "is_token n s \<longleftrightarrow> s \<noteq> [] \<and> length s \<le> n \<and> (\<forall>c \<in> set s. \<not> c_isspace c \<and> c \<noteq> NUL)"

lemma scanf_s_token:
  assumes "is_token n s" and "rest = [] \<or> c_isspace (hd rest)" and "\<forall>c \<in> set ws. c_isspace c"
  shows "scanf_s n (ws @ s @ rest) = Some (s, rest)"
proof -
  obtain c cs where s: "s = c # cs" "\<not> c_isspace c"
    using assms(1) by (cases s) (auto simp: is_token_def)
  have "dropWhile c_isspace (ws @ s @ rest) = s @ rest"
    using assms(3) s by simp
  moreover have "takeWhile (\<lambda>c. \<not> c_isspace c) (s @ rest) = s"
    using assms(1,2) by (subst takeWhile_append2) (auto simp: is_token_def takeWhile_eq_Nil_iff)
  ultimately show ?thesis
    using assms(1) by (cases n) (auto simp: scanf_s_def is_token_def)
qed

lemma c_str_token: "is_token n s \<Longrightarrow> c_str s = s"
  by (simp add: is_token_def c_str_def)

lemma first_cell_update:
  assumes "name \<notin> set ns" and "e < length ns"
  shows "first_cell (ns[e := name]) name = Some e"
proof -
  have "name \<notin> set (take e ns)"
    using assms(1) by (auto dest: in_set_takeD)
  then show ?thesis
    using first_cell_append [of name "take e ns" "drop (Suc e) ns"] assms(2) by (simp add: upd_conv_take_nth_drop)
qed

lemma names_update: "names (book[e := pe]) = (names book)[e := c_str (pe_name pe)]"
  by (simp add: names_def map_update)

text \<open>\<open>find_entry\<close> looks at the names and the phones only.\<close>

lemma find_entry_named:
  assumes "wf_book book" and "is_token 255 name" and "first_cell (names book) name = Some e"
  shows "find_entry book name = Done (Some ([], [ThePhone name (c_str (pe_phone (book ! e)))]))"
proof -
  have "e < length book"
    using first_cell_Some [OF assms(3)] by (simp add: names_def)
  then have "NUL \<in> set (pe_phone (book ! e))"
    using wf_book_nth [OF assms(1)] by (simp add: wf_entry_def terminated_def)
  moreover have "NUL \<notin> set name"
    using assms(2) by (auto simp: is_token_def)
  ultimately show ?thesis
    using scanf_s_token [OF assms(2), of "[]" "[]"] find_cell_by_name_first [OF assms(1), of name 0] assms(3)
      c_str_token [OF assms(2)]
    by (simp add: find_entry_def print_s_def)
qed

lemma delete_entry_named:
  assumes "wf_book book" and "is_token 255 name" and "first_cell (names book) name = Some e"
  shows "delete_entry book name = Done (Some (book[e := (book ! e)\<lparr>pe_used := 0\<rparr>], [], []))"
proof -
  have "NUL \<notin> set name"
    using assms(2) by (auto simp: is_token_def)
  then show ?thesis
    using scanf_s_token [OF assms(2), of "[]" "[]"] find_cell_by_name_first [OF assms(1), of name 0] assms(3)
      c_str_token [OF assms(2)]
    by (simp add: delete_entry_def)
qed

section \<open>Properties\<close>



text \<open>The memory that \<open>malloc\<close> returns need not hold terminated strings, and the search reads all of it.\<close>

lemma phonebook_reads_garbage:
  "phonebook_main (replicate 100 \<lparr>pe_name = replicate 20 CHR ''a'', pe_phone = replicate 20 NUL, pe_used = 0\<rparr>)
    (''3 '' @ replicate 30 CHR ''a'') = Crash OutOfBounds"
proof -
  let ?pe = "\<lparr>pe_name = replicate 20 CHR ''a'', pe_phone = replicate 20 NUL, pe_used = 0\<rparr>"
  have menu: "show_menu (''3 '' @ replicate 30 CHR ''a'') = Done (Some (3, CHR '' '' # replicate 30 CHR ''a''))"
    by code_simp
  have "scanf_s 255 (CHR '' '' # replicate 30 CHR ''a'') = Some (replicate 30 CHR ''a'', [])"
    by code_simp
  moreover have "strcmp_0 (c_str (replicate 30 CHR ''a'')) (replicate 20 CHR ''a'') = Crash OutOfBounds"
    by code_simp
  ultimately have "find_entry (replicate (Suc n) ?pe) (CHR '' '' # replicate 30 CHR ''a'') = Crash OutOfBounds" for n
    by (simp add: find_entry_def)
  from this [of 99] show ?thesis
    using menu by (simp add: phonebook_main_def phone_entry_init_def phonebook_loop.simps)
qed

text \<open>A name that is added is found, with its phone, and it is still found after it has been deleted: the search does
  not look at the mark that a deletion clears.\<close>

theorem phonebook_deleted_still_found:
  assumes "wf_book book" and "is_token 19 name" and "is_token 19 phone" and "name \<notin> set (names book)"
    and "find_empty_cell 0 book = Some e"
  shows "\<exists>book1 book2. add_entry book (name @ '' '' @ phone) = Some (book1, []) \<and>
    find_entry book1 name = Done (Some ([], [ThePhone name phone])) \<and>
    delete_entry book1 name = Done (Some (book2, [], [])) \<and>
    find_entry book2 name = Done (Some ([], [ThePhone name phone]))"
proof -
  have space: "c_isspace CHR '' ''"
    by (simp add: c_isspace_def)
  have e: "e < length book"
    using find_empty_cell_bounds [OF assms(5)] by simp
  define pe where "pe = (book ! e)\<lparr>pe_name := blit (pe_name (book ! e)) 0 (name @ [NUL]),
    pe_phone := blit (pe_phone (book ! e)) 0 (phone @ [NUL]), pe_used := 1\<rparr>"
  define book1 where "book1 = book[e := pe]"
  define book2 where "book2 = book1[e := (book1 ! e)\<lparr>pe_used := 0\<rparr>]"
  have add: "add_entry book (name @ '' '' @ phone) = Some (book1, [])"
    using assms(5) scanf_s_token [OF assms(2), of "'' '' @ phone" "[]"] scanf_s_token [OF assms(3), of "[]" "'' ''"] space
    by (simp add: add_entry_def book1_def pe_def)
  have wf1: "wf_book book1"
    using add_entry_wf [OF assms(1) add] by simp
  have pe: "c_str (pe_name pe) = name" "c_str (pe_phone pe) = phone"
    by (simp_all add: pe_def c_str_blit c_str_token [OF assms(2)] c_str_token [OF assms(3)])
  have token: "is_token 255 name"
    using assms(2) by (simp add: is_token_def)
  have first1: "first_cell (names book1) name = Some e"
    using first_cell_update [OF assms(4)] e pe(1) by (simp add: book1_def names_update) (simp add: names_def)
  moreover have "names book2 = names book1"
    using e by (simp add: book2_def book1_def names_update)
  ultimately have first2: "first_cell (names book2) name = Some e"
    by simp
  have wf2: "wf_book book2"
    using wf_book_update [OF wf1, of "(book1 ! e)\<lparr>pe_used := 0\<rparr>" e] wf_book_nth [OF wf1, of e] e
    by (simp add: book2_def book1_def wf_entry_def)
  have "find_entry book1 name = Done (Some ([], [ThePhone name phone]))"
    using find_entry_named [OF wf1 token first1] e pe(2) by (simp add: book1_def)
  moreover have "delete_entry book1 name = Done (Some (book2, [], []))"
    using delete_entry_named [OF wf1 token first1] by (simp add: book2_def)
  moreover have "find_entry book2 name = Done (Some ([], [ThePhone name phone]))"
    using find_entry_named [OF wf2 token first2] e pe(2) by (simp add: book2_def book1_def)
  ultimately show ?thesis
    using add by blast
qed

theorem phonebook_deleted_still_found_witness:
  "\<exists>book1 book2. add_entry (replicate 2 \<lparr>pe_name = replicate 20 NUL, pe_phone = replicate 20 NUL, pe_used = 0\<rparr>) (''Ann'' @ '' '' @ ''555'') = Some (book1, []) \<and>
    delete_entry book1 ''Ann'' = Done (Some (book2, [], [])) \<and>
    find_entry book2 ''Ann'' = Done (Some ([], [ThePhone ''Ann'' ''555'']))"
proof -
  let ?book = "replicate 2 \<lparr>pe_name = replicate 20 NUL, pe_phone = replicate 20 NUL, pe_used = 0\<rparr>"
  have "wf_book ?book" "find_empty_cell 0 ?book = Some 0" "''Ann'' \<notin> set (names ?book)"
    by code_simp+
  moreover have "is_token 19 ''Ann''" "is_token 19 ''555''"
    by code_simp+
  ultimately show ?thesis
    using phonebook_deleted_still_found [of ?book "''Ann''" "''555''" 0] by blast
qed

end
