(* ===== verification/MmapFile.thy ===== *)
theory MmapFile
  imports MmapUser
begin

text \<open>
  \<open>src/src/kernel/mod_mmap.c\<close> and \<open>src/src/kernel/mod_mmap_simple.c\<close>: the \<open>mmap\<close> operation of a file, which maps
  fresh memory of the kernel, the operations of the mapped area, and the \<open>ioctl\<close> that maps and unmaps on
  behalf of the process. An area records the page frame it is mapped to and whether it has the operations
  of the module. What the allocator, \<open>vm_mmap\<close> and \<open>remap_pfn_range\<close> answer is an environment; \<open>get_order\<close>,
  \<open>virt_to_phys\<close> and \<open>vm_munmap\<close> are parameters, the last one a function from an address, a length and the areas
  to its result, the areas that are closed and the areas that remain.
\<close>

section \<open>State\<close>

record area = vma +
  area_pfn :: u32
  area_ops :: bool

record mf_state =
  mf_kmalloc :: bool
  mf_vaddr :: u64
  mf_size :: u32
  mf_addr :: u64
  mf_ioctl_size :: u32
  mf_kaddr :: u64
  mf_reserved :: "u64 list"
  mf_live :: "(u64 \<times> u32 \<times> block_kind) list"
  mf_kmem :: umem
  mf_areas :: "area list"

definition mf_init :: "umem \<Rightarrow> area list \<Rightarrow> mf_state" where
  "mf_init km as = \<lparr>mf_kmalloc = True, mf_vaddr = 0, mf_size = 0, mf_addr = 0, mf_ioctl_size = 0, mf_kaddr = 0,
     mf_reserved = [], mf_live = [], mf_kmem = km, mf_areas = as\<rparr>"

definition ms_init :: "umem \<Rightarrow> area list \<Rightarrow> mf_state" where
  "ms_init km as = (mf_init km as)\<lparr>mf_kmalloc := False\<rparr>"

text \<open>
  What the kernel answers during one call: the memory for the \<open>ioctl\<close> and for the area, the address of the
  new area, the result of \<open>remap_pfn_range\<close>.
\<close>

record mf_env =
  ioctl_alloc :: u64
  area_alloc :: u64
  area_addr :: u64
  remap_ret :: int

type_synonym munmap_fun = "u64 \<Rightarrow> u32 \<Rightarrow> area list \<Rightarrow> int \<times> area list \<times> area list"

section \<open>Memory and areas\<close>

definition mf_take :: "(u32 \<Rightarrow> nat) \<Rightarrow> bool \<Rightarrow> u32 \<Rightarrow> u64 \<Rightarrow> mf_state \<Rightarrow> mf_state" where
  "mf_take get_order kmalloced sz p s =
    (if p = 0 then s else s\<lparr>mf_live := (p, sz, block_of get_order kmalloced sz) # mf_live s\<rparr>)"

text \<open>Freeing a null pointer does nothing; freeing anything else that is not live is a crash.\<close>

definition mf_free :: "(u32 \<Rightarrow> nat) \<Rightarrow> u64 \<Rightarrow> u32 \<Rightarrow> mf_state \<Rightarrow> mf_state outcome" where
  "mf_free get_order p sz s =
    (let kind = block_of get_order (mf_kmalloc s) sz
     in if p = 0 then Done s
        else case filter (\<lambda>(a, n, k). a = p \<and> k = kind) (mf_live s) of
          [] \<Rightarrow> Crash UseAfterFree
        | b # bs \<Rightarrow> Done (s\<lparr>mf_live := remove1 b (mf_live s)\<rparr>))"

text \<open>\<open>find_vma\<close>: the lowest area that ends above the address.\<close>

fun lowest :: "area list \<Rightarrow> area option" where
  "lowest [] = None"
| "lowest (a # as) =
    (case lowest as of None \<Rightarrow> Some a | Some b \<Rightarrow> Some (if vm_start a \<le> vm_start b then a else b))"

definition find_vma :: "u64 \<Rightarrow> area list \<Rightarrow> area option" where
  "find_vma a as = lowest (filter (\<lambda>v. a < vm_end v) as)"

definition area_len :: "area \<Rightarrow> u32" where
  "area_len v = ucast (vm_end v - vm_start v)"

section \<open>The operations of \<open>mod_mmap\<close>\<close>

definition mf_vma_close :: "(u32 \<Rightarrow> nat) \<Rightarrow> area \<Rightarrow> mf_state \<Rightarrow> mf_state outcome" where
  "mf_vma_close get_order v s =
    (let vma_size = area_len v; vma_addr = vm_private_data v
     in mf_free get_order vma_addr vma_size s)"

definition round_pages :: "u32 \<Rightarrow> nat" where
  "round_pages sz = unat sz div 4096 + (if unat sz mod 4096 > 0 then 1 else 0)"

text \<open>The pages of the block are marked one by one; the page of a null pointer is none.\<close>

definition mf_reserve :: "u64 \<Rightarrow> nat \<Rightarrow> mf_state \<Rightarrow> mf_state outcome" where
  "mf_reserve p pages s =
    (if p = 0 \<and> pages \<noteq> 0 then Crash NullDeref
     else Done (s\<lparr>mf_reserved := mf_reserved s @ map (\<lambda>i. p + of_nat (4096 * i)) [0..<pages]\<rparr>))"

definition mf_kern_mmap ::
  "(u32 \<Rightarrow> nat) \<Rightarrow> (u64 \<Rightarrow> u64) \<Rightarrow> mf_env \<Rightarrow> area \<Rightarrow> mf_state \<Rightarrow> (int \<times> area \<times> mf_state) outcome" where
  "mf_kern_mmap get_order virt_to_phys env v s =
    (let s = s\<lparr>mf_size := area_len v\<rparr>
     in outcome_bind
       (if mf_kmalloc s
        then
          let pages = round_pages (mf_size s);
              s = (mf_take get_order True (mf_size s) (area_alloc env) s)\<lparr>mf_vaddr := area_alloc env\<rparr>
          in mf_reserve (mf_vaddr s) pages s
        else
          Done ((mf_take get_order False (mf_size s) (area_alloc env) s)
            \<lparr>mf_addr := area_alloc env, mf_vaddr := area_alloc env\<rparr>))
       (\<lambda>s.
         let phys = virt_to_phys (mf_vaddr s);
             pg_num = ucast (drop_bit 12 phys)
         in if remap_ret env \<noteq> 0
            then outcome_bind
              (mf_free get_order (if mf_kmalloc s then mf_vaddr s else mf_addr s) (mf_size s) s)
              (\<lambda>s. Done (remap_ret env, v, s))
            else Done (0, v\<lparr>area_pfn := pg_num, vm_private_data := mf_vaddr s, area_ops := True\<rparr>, s)))"

section \<open>The operations of \<open>mod_mmap_simple\<close>\<close>

definition ms_vma_close :: "(u32 \<Rightarrow> nat) \<Rightarrow> area \<Rightarrow> mf_state \<Rightarrow> mf_state outcome" where
  "ms_vma_close get_order v s =
    (let vma_size = area_len v; vma_addr = vm_private_data v
     in mf_free get_order vma_addr vma_size s)"

definition ms_kern_mmap ::
  "(u32 \<Rightarrow> nat) \<Rightarrow> (u64 \<Rightarrow> u64) \<Rightarrow> mf_env \<Rightarrow> area \<Rightarrow> mf_state \<Rightarrow> (int \<times> area \<times> mf_state) outcome" where
  "ms_kern_mmap get_order virt_to_phys env v s =
    (let vma_size = area_len v;
         s = mf_take get_order False vma_size (area_alloc env) s;
         pg_num = ucast (drop_bit 12 (virt_to_phys (area_alloc env)))
     in if remap_ret env \<noteq> 0 then Done (remap_ret env, v, s)
        else Done (0, v\<lparr>area_pfn := pg_num, area_ops := True, vm_private_data := area_alloc env\<rparr>, s))"

section \<open>What the kernel does around them\<close>

type_synonym mmap_op =
  "(u32 \<Rightarrow> nat) \<Rightarrow> (u64 \<Rightarrow> u64) \<Rightarrow> mf_env \<Rightarrow> area \<Rightarrow> mf_state \<Rightarrow> (int \<times> area \<times> mf_state) outcome"

type_synonym close_op = "(u32 \<Rightarrow> nat) \<Rightarrow> area \<Rightarrow> mf_state \<Rightarrow> mf_state outcome"

text \<open>A new area of the file: it stays if the \<open>mmap\<close> operation accepts it.\<close>

definition kernel_mmap ::
  "mmap_op \<Rightarrow> (u32 \<Rightarrow> nat) \<Rightarrow> (u64 \<Rightarrow> u64) \<Rightarrow> mf_env \<Rightarrow> u32 \<Rightarrow> mf_state \<Rightarrow> (u64 \<times> mf_state) outcome" where
  "kernel_mmap op get_order virt_to_phys env len s =
    (if is_err_value (area_addr env) then Done (area_addr env, s)
     else outcome_bind
       (op get_order virt_to_phys env
          \<lparr>vm_start = area_addr env, vm_end = area_addr env + of_nat (page_align len), vm_private_data = 0,
           area_pfn = 0, area_ops = False\<rparr> s)
       (\<lambda>(ret, v, s).
          if ret \<noteq> 0 then Done (word_of_int ret, s)
          else Done (area_addr env, s\<lparr>mf_areas := v # mf_areas s\<rparr>)))"

fun close_areas :: "close_op \<Rightarrow> (u32 \<Rightarrow> nat) \<Rightarrow> area list \<Rightarrow> mf_state \<Rightarrow> mf_state outcome" where
  "close_areas op get_order [] s = Done s"
| "close_areas op get_order (v # vs) s =
     outcome_bind (if area_ops v then op get_order v s else Done s) (close_areas op get_order vs)"

definition kernel_munmap ::
  "close_op \<Rightarrow> munmap_fun \<Rightarrow> (u32 \<Rightarrow> nat) \<Rightarrow> u64 \<Rightarrow> u32 \<Rightarrow> mf_state \<Rightarrow> (int \<times> mf_state) outcome" where
  "kernel_munmap op vm_munmap get_order a len s =
    (case vm_munmap a len (mf_areas s) of (ret, closed, rest) \<Rightarrow>
       outcome_bind (close_areas op get_order closed (s\<lparr>mf_areas := rest\<rparr>)) (\<lambda>s. Done (ret, s)))"

section \<open>The ioctls\<close>

definition IOCTL_MMAP_PRINT :: u32 where "IOCTL_MMAP_PRINT = 25632"
definition IOCTL_MMAP_READ :: u32 where "IOCTL_MMAP_READ = 25633"
definition IOCTL_MMAP_WRITE :: u32 where "IOCTL_MMAP_WRITE = 25634"
definition IOCTL_MMAP_WRITE_USER :: u32 where "IOCTL_MMAP_WRITE_USER = 25635"
definition IOCTL_MMAP_MMAP :: u32 where "IOCTL_MMAP_MMAP = 25636"
definition IOCTL_MMAP_UNMAP :: u32 where "IOCTL_MMAP_UNMAP = 25637"
definition IOCTL_MMAP_SETSIZE :: u32 where "IOCTL_MMAP_SETSIZE = 25638"

lemmas mmap_cmd_defs = IOCTL_MMAP_PRINT_def IOCTL_MMAP_READ_def IOCTL_MMAP_WRITE_def IOCTL_MMAP_WRITE_USER_def
  IOCTL_MMAP_MMAP_def IOCTL_MMAP_UNMAP_def IOCTL_MMAP_SETSIZE_def

text \<open>An access of the kernel to the memory of the last mapping.\<close>

definition mf_access :: "(u32 \<Rightarrow> nat) \<Rightarrow> u64 \<Rightarrow> nat \<Rightarrow> mf_state \<Rightarrow> unit outcome" where
  "mf_access get_order p n s =
    (if n = 0 then Done ()
     else if p = 0 then Crash NullDeref
     else case filter (\<lambda>(a, m, k). a = p) (mf_live s) of
       [] \<Rightarrow> Crash UseAfterFree
     | (a, m, k) # _ \<Rightarrow>
         if n \<le> (case k of ByKmalloc \<Rightarrow> unat m | ByPages ord \<Rightarrow> 4096 * 2 ^ ord) then Done () else Crash OutOfBounds)"

definition mf_ioctl ::
  "munmap_fun \<Rightarrow> (u32 \<Rightarrow> nat) \<Rightarrow> (u64 \<Rightarrow> u64) \<Rightarrow> mf_env \<Rightarrow> u32 \<Rightarrow> u64 \<Rightarrow> mf_state \<Rightarrow> (int \<times> mf_state) outcome" where
  "mf_ioctl vm_munmap get_order virt_to_phys env cmd arg s =
    (if cmd = IOCTL_MMAP_PRINT
     then (case find_vma arg (mf_areas s) of None \<Rightarrow> Crash NullDeref | Some v \<Rightarrow> Done (0, s))
     else if cmd = IOCTL_MMAP_READ
     then outcome_bind (mf_access get_order (mf_vaddr s) 256 s) (\<lambda>_. Done (0, s))
     else if cmd = IOCTL_MMAP_WRITE
     then outcome_bind (mf_access get_order (mf_vaddr s) (unat (mf_size s)) s) (\<lambda>_.
       Done (0, s\<lparr>mf_kmem := user_store (mf_kmem s) (mf_vaddr s) (replicate (unat (mf_size s)) (ucast arg))\<rparr>))
     else if cmd = IOCTL_MMAP_WRITE_USER then Done (0, s)
     else if cmd = IOCTL_MMAP_MMAP
     then
       let s = (mf_take get_order (mf_kmalloc s) (mf_ioctl_size s) (ioctl_alloc env) s)\<lparr>mf_kaddr := ioctl_alloc env\<rparr>
       in outcome_bind (kernel_mmap mf_kern_mmap get_order virt_to_phys env (mf_ioctl_size s) s)
            (\<lambda>(a, s). Done (sint a, s\<lparr>mf_addr := a\<rparr>))
     else if cmd = IOCTL_MMAP_UNMAP
     then (case find_vma (mf_addr s) (mf_areas s) of
             None \<Rightarrow> Crash NullDeref
           | Some v \<Rightarrow>
               let kernel_addr = vm_private_data v;
                   s = s\<lparr>mf_size := area_len v\<rparr>
               in outcome_bind (kernel_munmap mf_vma_close vm_munmap get_order (mf_addr s) (mf_ioctl_size s) s)
                    (\<lambda>(ret, s). outcome_bind (mf_free get_order kernel_addr (mf_size s) s) (\<lambda>s. Done (ret, s))))
     else if cmd = IOCTL_MMAP_SETSIZE then Done (0, s\<lparr>mf_ioctl_size := ucast arg\<rparr>)
     else Done (- EINVAL, s))"

definition ms_ioctl ::
  "munmap_fun \<Rightarrow> (u32 \<Rightarrow> nat) \<Rightarrow> (u64 \<Rightarrow> u64) \<Rightarrow> mf_env \<Rightarrow> u32 \<Rightarrow> u64 \<Rightarrow> mf_state \<Rightarrow> (int \<times> mf_state) outcome" where
  "ms_ioctl vm_munmap get_order virt_to_phys env cmd arg s =
    (if cmd = IOCTL_MMAP_PRINT
     then (case find_vma arg (mf_areas s) of None \<Rightarrow> Crash NullDeref | Some v \<Rightarrow> Done (0, s))
     else if cmd = IOCTL_MMAP_READ
     then outcome_bind (mf_access get_order (mf_vaddr s) 256 s) (\<lambda>_. Done (0, s))
     else if cmd = IOCTL_MMAP_WRITE then Done (0, s)
     else if cmd = IOCTL_MMAP_WRITE_USER then Done (0, s)
     else if cmd = IOCTL_MMAP_MMAP
     then outcome_bind (kernel_mmap ms_kern_mmap get_order virt_to_phys env (mf_ioctl_size s) s)
            (\<lambda>(a, s). Done (sint a, s\<lparr>mf_addr := a\<rparr>))
     else if cmd = IOCTL_MMAP_UNMAP
     then (case find_vma (mf_addr s) (mf_areas s) of
             None \<Rightarrow> Crash NullDeref
           | Some v \<Rightarrow>
               let kernel_addr = vm_private_data v;
                   s = s\<lparr>mf_size := area_len v\<rparr>
               in outcome_bind (kernel_munmap ms_vma_close vm_munmap get_order (mf_addr s) (mf_ioctl_size s) s)
                    (\<lambda>(ret, s).
                       if ret \<noteq> 0 then Done (ret, s)
                       else outcome_bind (mf_free get_order kernel_addr (mf_size s) s) (\<lambda>s. Done (ret, s))))
     else if cmd = IOCTL_MMAP_SETSIZE then Done (0, s\<lparr>mf_ioctl_size := ucast arg\<rparr>)
     else Done (- EINVAL, s))"

section \<open>Areas\<close>

lemma lowest_in: "lowest as = Some b \<Longrightarrow> b \<in> set as"
  by (induction as arbitrary: b) (auto split: option.splits if_splits)

lemma lowest_first:
  assumes "\<forall>u \<in> set as. vm_start v \<le> vm_start u"
  shows "lowest (v # as) = Some v"
  using assms by (auto dest: lowest_in split: option.splits)

text \<open>A range that the kernel has chosen for a new area, and what the area will be.\<close>

definition apart :: "area \<Rightarrow> area \<Rightarrow> bool" where
  "apart u v \<longleftrightarrow> vm_end u \<le> vm_start v \<or> vm_end v \<le> vm_start u"

definition new_area :: "(u64 \<Rightarrow> u64) \<Rightarrow> mf_env \<Rightarrow> u32 \<Rightarrow> area" where
  "new_area virt_to_phys env len =
    \<lparr>vm_start = area_addr env, vm_end = area_addr env + of_nat (page_align len), vm_private_data = area_alloc env,
     area_pfn = ucast (drop_bit 12 (virt_to_phys (area_alloc env))), area_ops = True\<rparr>"

definition mf_env_ok :: "(u64 \<Rightarrow> u64) \<Rightarrow> mf_env \<Rightarrow> u32 \<Rightarrow> mf_state \<Rightarrow> bool" where
  "mf_env_ok virt_to_phys env len s \<longleftrightarrow>
     \<not> is_err_value (area_addr env) \<and> len \<noteq> 0 \<and> unat (area_addr env) + page_align len < 2 ^ 64 \<and>
     area_alloc env \<noteq> 0 \<and> (\<forall>b \<in> set (mf_live s). fst b \<noteq> area_alloc env) \<and> remap_ret env = 0 \<and>
     (\<forall>u \<in> set (mf_areas s). apart u (new_area virt_to_phys env len))"

text \<open>\<open>vm_munmap\<close> of exactly one area.\<close>

definition munmap_law :: "munmap_fun \<Rightarrow> bool" where
  "munmap_law vm_munmap \<longleftrightarrow>
     (\<forall>v rest len. len \<noteq> 0 \<longrightarrow> vm_end v = vm_start v + of_nat (page_align len) \<longrightarrow> (\<forall>u \<in> set rest. apart u v) \<longrightarrow>
        vm_munmap (vm_start v) len (v # rest) = (0, [v], rest))"

lemma page_align_pos: "len \<noteq> 0 \<Longrightarrow> 0 < page_align len"
  using page_align_ge [of len] by (simp add: unat_gt_0 [symmetric])

lemma new_area_range:
  assumes "mf_env_ok virt_to_phys env len s"
  shows "vm_start (new_area virt_to_phys env len) < vm_end (new_area virt_to_phys env len)"
proof -
  have "page_align len < 2 ^ 64" "unat (area_addr env) + page_align len < 2 ^ 64" "0 < page_align len"
    using assms page_align_pos [of len] by (auto simp: mf_env_ok_def)
  then have "unat (area_addr env) < unat (area_addr env + of_nat (page_align len))"
    by (simp add: unat_add_u64)
  then show ?thesis
    by (simp add: new_area_def word_less_nat_alt)
qed

lemma find_new_area:
  assumes ok: "mf_env_ok virt_to_phys env len s" and "mf_areas t = new_area virt_to_phys env len # mf_areas s"
  shows "find_vma (area_addr env) (mf_areas t) = Some (new_area virt_to_phys env len)"
proof -
  let ?v = "new_area virt_to_phys env len"
  have range: "area_addr env < vm_end ?v" "vm_start ?v = area_addr env"
    using new_area_range [OF ok] by (simp_all add: new_area_def)
  have "vm_start ?v \<le> vm_start u" if "u \<in> set (filter (\<lambda>v. area_addr env < vm_end v) (mf_areas s))" for u
    using that ok range unfolding mf_env_ok_def apart_def by auto
  then have "lowest (?v # filter (\<lambda>v. area_addr env < vm_end v) (mf_areas s)) = Some ?v"
    by (intro lowest_first) blast
  then show ?thesis
    using range by (simp add: find_vma_def assms(2))
qed

section \<open>Freeing\<close>

lemma mf_free_last:
  assumes "p \<noteq> 0" and "mf_live s = (p, sz, block_of get_order (mf_kmalloc s) sz) # bs"
  shows "mf_free get_order p sz s = Done (s\<lparr>mf_live := bs\<rparr>)"
  using assms by (simp add: mf_free_def)

lemma mf_free_not_live:
  assumes "p \<noteq> 0" and "\<forall>b \<in> set (mf_live s). fst b \<noteq> p"
  shows "mf_free get_order p sz s = Crash UseAfterFree"
proof -
  have "filter (\<lambda>(a, n, k). a = p \<and> k = block_of get_order (mf_kmalloc s) sz) (mf_live s) = []"
    using assms(2) by (auto simp: filter_empty_conv)
  then show ?thesis
    using assms(1) by (simp add: mf_free_def)
qed

section \<open>Mapping and unmapping\<close>

text \<open>What the two modules share: a new area takes a block and closing the area gives it back.\<close>

locale mmap_module =
  fixes mmap_op :: mmap_op and close_op :: close_op and kmalloced :: bool
  assumes mmap_op_maps: "mf_kmalloc s = kmalloced \<Longrightarrow> area_alloc env \<noteq> 0 \<Longrightarrow> remap_ret env = 0 \<Longrightarrow>
      \<exists>s'. mmap_op get_order virt_to_phys env v s =
        Done (0, v\<lparr>area_pfn := ucast (drop_bit 12 (virt_to_phys (area_alloc env))), vm_private_data := area_alloc env,
          area_ops := True\<rparr>, s') \<and>
        mf_live s' = (area_alloc env, area_len v, block_of get_order kmalloced (area_len v)) # mf_live s \<and>
        mf_areas s' = mf_areas s \<and> mf_kmalloc s' = kmalloced \<and> mf_ioctl_size s' = mf_ioctl_size s"
    and close_op_frees: "close_op get_order v s = mf_free get_order (vm_private_data v) (area_len v) s"
begin

lemma kernel_mmap_maps:
  assumes "mf_kmalloc s = kmalloced" and ok: "mf_env_ok virt_to_phys env len s"
  shows "\<exists>s'. kernel_mmap mmap_op get_order virt_to_phys env len s = Done (area_addr env, s') \<and>
    mf_areas s' = new_area virt_to_phys env len # mf_areas s \<and>
    mf_live s' = (area_alloc env, area_len (new_area virt_to_phys env len),
      block_of get_order kmalloced (area_len (new_area virt_to_phys env len))) # mf_live s \<and>
    mf_kmalloc s' = kmalloced \<and> mf_ioctl_size s' = mf_ioctl_size s"
proof -
  let ?v = "\<lparr>vm_start = area_addr env, vm_end = area_addr env + of_nat (page_align len), vm_private_data = 0,
           area_pfn = 0, area_ops = False\<rparr>"
  have e: "area_alloc env \<noteq> 0" "remap_ret env = 0" "\<not> is_err_value (area_addr env)"
    using ok by (simp_all add: mf_env_ok_def)
  obtain s' where "mmap_op get_order virt_to_phys env ?v s =
        Done (0, new_area virt_to_phys env len, s')"
    "mf_live s' = (area_alloc env, area_len ?v, block_of get_order kmalloced (area_len ?v)) # mf_live s"
    "mf_areas s' = mf_areas s" "mf_kmalloc s' = kmalloced" "mf_ioctl_size s' = mf_ioctl_size s"
    using mmap_op_maps [OF assms(1) e(1,2), of get_order virt_to_phys ?v] by (auto simp: new_area_def)
  moreover have "area_len ?v = area_len (new_area virt_to_phys env len)"
    by (simp add: area_len_def new_area_def)
  ultimately show ?thesis
    using e(3) by (simp add: kernel_mmap_def)
qed

lemma kernel_munmap_frees:
  assumes law: "munmap_law vm_munmap" and ok: "mf_env_ok virt_to_phys env len s"
    and "mf_areas t = new_area virt_to_phys env len # mf_areas s" and "mf_kmalloc t = kmalloced"
    and "mf_live t = (area_alloc env, area_len (new_area virt_to_phys env len),
      block_of get_order kmalloced (area_len (new_area virt_to_phys env len))) # bs"
  shows "kernel_munmap close_op vm_munmap get_order (area_addr env) len t =
    Done (0, t\<lparr>mf_areas := mf_areas s, mf_live := bs\<rparr>)"
proof -
  let ?v = "new_area virt_to_phys env len"
  have v: "vm_end ?v = vm_start ?v + of_nat (page_align len)" "vm_start ?v = area_addr env"
    "vm_private_data ?v = area_alloc env" "area_ops ?v"
    by (simp_all add: new_area_def)
  have "len \<noteq> 0" "\<forall>u \<in> set (mf_areas s). apart u ?v" "area_alloc env \<noteq> 0"
    using ok by (simp_all add: mf_env_ok_def)
  then have "vm_munmap (area_addr env) len (mf_areas t) = (0, [?v], mf_areas s)"
    using law v(1,2) unfolding munmap_law_def assms(3) by metis
  moreover have "mf_free get_order (area_alloc env) (area_len ?v) (t\<lparr>mf_areas := mf_areas s\<rparr>) =
      Done (t\<lparr>mf_areas := mf_areas s, mf_live := bs\<rparr>)"
    using mf_free_last [of "area_alloc env" "t\<lparr>mf_areas := mf_areas s\<rparr>" "area_len ?v" get_order bs]
      \<open>area_alloc env \<noteq> 0\<close> assms(4,5) by simp
  ultimately show ?thesis
    by (simp add: kernel_munmap_def close_op_frees v(3,4))
qed

text \<open>After the area has been closed its block is not live any more.\<close>

lemma munmap_then_free:
  assumes law: "munmap_law vm_munmap" and ok: "mf_env_ok virt_to_phys env len s" and "mf_kmalloc s = kmalloced"
  obtains s1 where "kernel_mmap mmap_op get_order virt_to_phys env len s = Done (area_addr env, s1)"
    and "mf_ioctl_size s1 = mf_ioctl_size s"
    and "find_vma (area_addr env) (mf_areas s1) = Some (new_area virt_to_phys env len)"
    and "\<And>a n. \<exists>t. kernel_munmap close_op vm_munmap get_order (area_addr env) len (s1\<lparr>mf_addr := a, mf_size := n\<rparr>) = Done (0, t) \<and>
      (\<forall>m. mf_free get_order (area_alloc env) m t = Crash UseAfterFree)"
proof -
  let ?v = "new_area virt_to_phys env len"
  obtain s1 where s1: "kernel_mmap mmap_op get_order virt_to_phys env len s = Done (area_addr env, s1)"
    "mf_areas s1 = ?v # mf_areas s" "mf_kmalloc s1 = kmalloced" "mf_ioctl_size s1 = mf_ioctl_size s"
    "mf_live s1 = (area_alloc env, area_len ?v, block_of get_order kmalloced (area_len ?v)) # mf_live s"
    using kernel_mmap_maps [OF assms(3) ok, of get_order] by auto
  have "\<exists>t. kernel_munmap close_op vm_munmap get_order (area_addr env) len (s1\<lparr>mf_addr := a, mf_size := n\<rparr>) = Done (0, t) \<and>
      (\<forall>m. mf_free get_order (area_alloc env) m t = Crash UseAfterFree)" for a n
  proof -
    let ?t = "s1\<lparr>mf_addr := a, mf_size := n, mf_areas := mf_areas s, mf_live := mf_live s\<rparr>"
    have "kernel_munmap close_op vm_munmap get_order (area_addr env) len (s1\<lparr>mf_addr := a, mf_size := n\<rparr>) = Done (0, ?t)"
      using kernel_munmap_frees [OF law ok, of "s1\<lparr>mf_addr := a, mf_size := n\<rparr>" get_order "mf_live s"] s1 by simp
    moreover have "mf_free get_order (area_alloc env) m ?t = Crash UseAfterFree" for m
      using ok by (intro mf_free_not_live) (simp_all add: mf_env_ok_def)
    ultimately show ?thesis
      by blast
  qed
  then show ?thesis
    using that s1(1,4) find_new_area [OF ok s1(2)] by blast
qed

end

interpretation mod_mmap: mmap_module mf_kern_mmap mf_vma_close True
proof
  show "mf_vma_close get_order v s = mf_free get_order (vm_private_data v) (area_len v) s" for get_order v s
    by (simp add: mf_vma_close_def)
qed (auto simp: mf_kern_mmap_def mf_take_def mf_reserve_def Let_def)

interpretation mod_mmap_simple: mmap_module ms_kern_mmap ms_vma_close False
proof
  show "ms_vma_close get_order v s = mf_free get_order (vm_private_data v) (area_len v) s" for get_order v s
    by (simp add: ms_vma_close_def)
qed (auto simp: ms_kern_mmap_def mf_take_def Let_def)

section \<open>What goes wrong\<close>

text \<open>The page of a block that could not be allocated is none: \<open>mod_mmap\<close> does not check the allocation.\<close>

lemma mf_kern_mmap_no_memory:
  assumes "mf_kmalloc s" and "area_alloc env = 0" and "area_len v \<noteq> 0"
  shows "mf_kern_mmap get_order virt_to_phys env v s = Crash NullDeref"
proof -
  have "unat (area_len v) \<noteq> 0"
    using assms(3) by (simp add: unat_eq_0)
  then have "round_pages (area_len v) \<noteq> 0"
    unfolding round_pages_def by (cases "unat (area_len v) mod 4096 > 0") auto
  then show ?thesis
    using assms(1,2) by (simp add: mf_kern_mmap_def mf_take_def mf_reserve_def Let_def)
qed

text \<open>When the pages cannot be mapped, \<open>mod_mmap_simple\<close> keeps the block, to which no area refers.\<close>

lemma ms_kern_mmap_leaks:
  assumes "area_alloc env \<noteq> 0" and "remap_ret env \<noteq> 0"
  shows "\<exists>s'. ms_kern_mmap get_order virt_to_phys env v s = Done (remap_ret env, v, s') \<and>
    mf_live s' = (area_alloc env, area_len v, block_of get_order False (area_len v)) # mf_live s"
  using assms by (simp add: ms_kern_mmap_def mf_take_def Let_def)

text \<open>Nothing in \<open>mod_mmap_simple\<close> sets the pointer that \<open>IOCTL_MMAP_READ\<close> reads from.\<close>

lemma mf_free_vaddr: "mf_free get_order p sz s = Done s' \<Longrightarrow> mf_vaddr s' = mf_vaddr s"
  by (auto simp: mf_free_def Let_def split: if_splits list.splits)

lemma close_areas_vaddr: "close_areas ms_vma_close get_order vs s = Done s' \<Longrightarrow> mf_vaddr s' = mf_vaddr s"
  by (induction vs arbitrary: s) (auto simp: ms_vma_close_def mf_free_vaddr split: if_splits)

lemma ms_ioctl_vaddr:
  assumes "ms_ioctl vm_munmap get_order virt_to_phys env cmd arg s = Done (ret, s')"
  shows "mf_vaddr s' = mf_vaddr s"
proof -
  have mmap: "mf_vaddr t = mf_vaddr s" if "kernel_mmap ms_kern_mmap get_order virt_to_phys env len s = Done (a, t)" for a t len
    using that by (auto simp: kernel_mmap_def ms_kern_mmap_def mf_take_def Let_def split: if_splits)
  have munmap: "mf_vaddr t = mf_vaddr u"
    if "kernel_munmap ms_vma_close vm_munmap get_order a len u = Done (r, t)" for a len r t u
    using that by (auto simp: kernel_munmap_def dest: close_areas_vaddr split: prod.splits)
  show ?thesis
    using assms mmap munmap mf_free_vaddr
    by (auto simp: ms_ioctl_def Let_def split: if_splits option.splits)
qed

lemma ms_read_crashes:
  "mf_vaddr s = 0 \<Longrightarrow> ms_ioctl vm_munmap get_order virt_to_phys env IOCTL_MMAP_READ arg s = Crash NullDeref"
  by (simp add: ms_ioctl_def mmap_cmd_defs mf_access_def)

text \<open>A page at \<open>0x7f0000\<close> for a block at \<open>0x100000\<close>, in an address space with one other area.\<close>

definition sample_env :: mf_env where
  "sample_env = \<lparr>ioctl_alloc = 0x200000, area_alloc = 0x100000, area_addr = 0x7f0000, remap_ret = 0\<rparr>"

definition sample_state :: "bool \<Rightarrow> mf_state" where
  "sample_state kmalloced =
    (mf_init (\<lambda>_. 0) [\<lparr>vm_start = 0x400000, vm_end = 0x401000, vm_private_data = 0, area_pfn = 0, area_ops = False\<rparr>])
      \<lparr>mf_kmalloc := kmalloced, mf_ioctl_size := 4096\<rparr>"

definition sample_munmap :: munmap_fun where
  "sample_munmap a len as =
    (case as of
       v # rest \<Rightarrow> if vm_start v = a then (0, [v], rest) else (- EINVAL, [], as)
     | [] \<Rightarrow> (- EINVAL, [], as))"

lemma sample_munmap_law: "munmap_law sample_munmap"
  by (simp add: munmap_law_def sample_munmap_def)

lemma sample_env_ok: "mf_env_ok (\<lambda>a. a) sample_env 4096 (sample_state kmalloced)"
  by (simp add: mf_env_ok_def sample_env_def sample_state_def mf_init_def is_err_value_def page_align_def
      apart_def new_area_def)

section \<open>Properties\<close>



text \<open>A process that maps with \<open>IOCTL_MMAP_MMAP\<close> and unmaps with \<open>IOCTL_MMAP_UNMAP\<close> makes both modules free the
  block twice: \<open>vm_munmap\<close> closes the area, which frees the block, and the \<open>ioctl\<close> then frees it again.\<close>

theorem mmap_ioctl_double_free:
  assumes "munmap_law vm_munmap" and "mf_env_ok virt_to_phys env (mf_ioctl_size s) s"
    and "ioctl_alloc env \<noteq> area_alloc env"
    and "op = (if mf_kmalloc s then mf_ioctl else ms_ioctl)"
  shows "\<exists>s1. op vm_munmap get_order virt_to_phys env IOCTL_MMAP_MMAP arg s = Done (sint (area_addr env), s1) \<and>
    op vm_munmap get_order virt_to_phys env' IOCTL_MMAP_UNMAP arg' s1 = Crash UseAfterFree"
proof (cases "mf_kmalloc s")
  case True
  define t where "t = (mf_take get_order True (mf_ioctl_size s) (ioctl_alloc env) s)\<lparr>mf_kaddr := ioctl_alloc env\<rparr>"
  have t: "mf_kmalloc t = True" and ok: "mf_env_ok virt_to_phys env (mf_ioctl_size t) t"
    using True assms(2,3) by (auto simp: mf_env_ok_def t_def mf_take_def)
  obtain s1 where s1: "kernel_mmap mf_kern_mmap get_order virt_to_phys env (mf_ioctl_size t) t = Done (area_addr env, s1)"
    "mf_ioctl_size s1 = mf_ioctl_size t"
    "find_vma (area_addr env) (mf_areas s1) = Some (new_area virt_to_phys env (mf_ioctl_size t))"
    "\<And>a n. \<exists>u. kernel_munmap mf_vma_close vm_munmap get_order (area_addr env) (mf_ioctl_size t) (s1\<lparr>mf_addr := a, mf_size := n\<rparr>) =
      Done (0, u) \<and> (\<forall>m. mf_free get_order (area_alloc env) m u = Crash UseAfterFree)"
    using mod_mmap.munmap_then_free [OF assms(1) ok t, of get_order] by blast
  let ?s = "s1\<lparr>mf_addr := area_addr env\<rparr>"
  have "mf_ioctl vm_munmap get_order virt_to_phys env IOCTL_MMAP_MMAP arg s = Done (sint (area_addr env), ?s)"
    using s1(1) True by (simp add: mf_ioctl_def mmap_cmd_defs t_def [symmetric])
  moreover have "mf_ioctl vm_munmap get_order virt_to_phys env' IOCTL_MMAP_UNMAP arg' ?s = Crash UseAfterFree"
    using s1(2,3) s1(4) [where a = "area_addr env" and n = "area_len (new_area virt_to_phys env (mf_ioctl_size t))"]
    by (auto simp: mf_ioctl_def mmap_cmd_defs Let_def new_area_def)
  ultimately show ?thesis
    using True assms(4) by auto
next
  case False
  then have f: "mf_kmalloc s = False"
    by simp
  obtain s1 where s1: "kernel_mmap ms_kern_mmap get_order virt_to_phys env (mf_ioctl_size s) s = Done (area_addr env, s1)"
    "mf_ioctl_size s1 = mf_ioctl_size s"
    "find_vma (area_addr env) (mf_areas s1) = Some (new_area virt_to_phys env (mf_ioctl_size s))"
    "\<And>a n. \<exists>u. kernel_munmap ms_vma_close vm_munmap get_order (area_addr env) (mf_ioctl_size s) (s1\<lparr>mf_addr := a, mf_size := n\<rparr>) =
      Done (0, u) \<and> (\<forall>m. mf_free get_order (area_alloc env) m u = Crash UseAfterFree)"
    using mod_mmap_simple.munmap_then_free [OF assms(1,2) f, of get_order] by blast
  let ?s = "s1\<lparr>mf_addr := area_addr env\<rparr>"
  have "ms_ioctl vm_munmap get_order virt_to_phys env IOCTL_MMAP_MMAP arg s = Done (sint (area_addr env), ?s)"
    using s1(1) by (simp add: ms_ioctl_def mmap_cmd_defs)
  moreover have "ms_ioctl vm_munmap get_order virt_to_phys env' IOCTL_MMAP_UNMAP arg' ?s = Crash UseAfterFree"
    using s1(2,3) s1(4) [where a = "area_addr env" and n = "area_len (new_area virt_to_phys env (mf_ioctl_size s))"]
    by (auto simp: ms_ioctl_def mmap_cmd_defs Let_def new_area_def)
  ultimately show ?thesis
    using False assms(4) by auto
qed

theorem mmap_ioctl_double_free_witness:
  "\<exists>s1. mf_ioctl sample_munmap (\<lambda>_. 0) (\<lambda>a. a) sample_env IOCTL_MMAP_MMAP 0 (sample_state True) = Done (0x7f0000, s1) \<and>
    mf_ioctl sample_munmap (\<lambda>_. 0) (\<lambda>a. a) sample_env IOCTL_MMAP_UNMAP 0 s1 = Crash UseAfterFree"
proof -
  have "mf_ioctl_size (sample_state True) = 4096" "mf_kmalloc (sample_state True)"
    by (simp_all add: sample_state_def)
  then show ?thesis
    using mmap_ioctl_double_free [OF sample_munmap_law, of "\<lambda>a. a" sample_env "sample_state True" mf_ioctl "\<lambda>_. 0" 0 sample_env 0]
      sample_env_ok [of True]
    by (simp add: sample_env_def)
qed

end
