(* ===== verification/EchoServer.thy ===== *)
theory EchoServer
  imports FileCopy
begin

text \<open>
  \<open>src/src/exercises/server_design/epoll_echo_server/solution_write.cc\<close>: a server that sends back what it
  receives, with one \<open>CircularPipe\<close> for each connection and an \<open>epoll(7)\<close> loop. The state holds the map from
  descriptors to pipes, the events for which the kernel has been asked, and for each connection the bytes
  that \<open>read(2)\<close> has delivered and \<open>write(2)\<close> has taken. What the kernel answers while one event is handled
  is an environment. The properties rest on the contract of the pipe (\<open>CircPipe\<close>).
\<close>

unbundle bit_operations_syntax

section \<open>The interface of epoll\<close>

definition EPOLLIN :: u32 where "EPOLLIN = 1"
definition EPOLLOUT :: u32 where "EPOLLOUT = 4"
definition EPOLLRDHUP :: u32 where "EPOLLRDHUP = 8192"

lemmas epoll_defs = EPOLLIN_def EPOLLOUT_def EPOLLRDHUP_def

datatype ctl_op = EPOLL_CTL_ADD | EPOLL_CTL_MOD | EPOLL_CTL_DEL

text \<open>\<open>epoll_ctl(2)\<close>: a descriptor is added once, and changed or removed only while it is there; \<open>ok\<close> is
  false when the kernel refuses for another reason.\<close>

definition epoll_ctl :: "bool \<Rightarrow> ctl_op \<Rightarrow> int \<Rightarrow> u32 \<Rightarrow> (int \<rightharpoonup> u32) \<Rightarrow> int \<times> (int \<rightharpoonup> u32)" where
  "epoll_ctl ok op fd events regs =
     (if \<not> ok \<or> (case op of EPOLL_CTL_ADD \<Rightarrow> regs fd \<noteq> None | _ \<Rightarrow> regs fd = None) then (- 1, regs)
      else (0, case op of EPOLL_CTL_DEL \<Rightarrow> regs(fd := None) | _ \<Rightarrow> regs(fd \<mapsto> events)))"

section \<open>The server\<close>

record echo =
  fdbuffermap :: "int \<rightharpoonup> circ"
  epoll_set :: "int \<rightharpoonup> u32"
  received :: "int \<Rightarrow> byte list"
  echoed :: "int \<Rightarrow> byte list"

record echo_env =
  ret_accept :: int
  ret_malloc :: "u64 \<times> byte list"
  ret_read :: "u64 \<Rightarrow> byte list option"
  ret_write :: "byte list \<Rightarrow> nat option"
  ret_close :: int
  ctl_ok :: "ctl_op \<Rightarrow> bool"

definition then_do :: "'a checked outcome \<Rightarrow> ('a \<Rightarrow> 'b checked outcome) \<Rightarrow> 'b checked outcome" where
  "then_do x f = outcome_bind x (\<lambda>r. checked_then r f)"

definition register_events :: "circ \<Rightarrow> u32" where
  "register_events cp =
    (let events = EPOLLRDHUP;
         events = (if haveData cp then events OR EPOLLOUT else events)
     in if haveRoom cp then events OR EPOLLIN else events)"

definition register_fd ::
  "int \<Rightarrow> site \<Rightarrow> echo_env \<Rightarrow> int \<Rightarrow> circ \<Rightarrow> ctl_op \<Rightarrow> echo \<Rightarrow> echo checked outcome" where
  "register_fd errno loc env realfd cp op s =
    (let (ret, regs) = epoll_ctl (ctl_ok env op) op realfd (register_events cp) (epoll_set s)
     in checked_then (check_not_m1 errno ret loc) (\<lambda>_. Done (Returned (s\<lparr>epoll_set := regs\<rparr>))))"

definition echo_connect :: "int \<Rightarrow> site \<Rightarrow> u32 \<Rightarrow> echo_env \<Rightarrow> echo \<Rightarrow> echo checked outcome" where
  "echo_connect errno loc bufsize env s =
     checked_then (check_not_m1 errno (ret_accept env) loc) (\<lambda>realfd.
     checked_then (circ_ctor errno loc (ucast bufsize) (ret_malloc env)) (\<lambda>cp.
       register_fd errno loc env realfd cp EPOLL_CTL_ADD
         (s\<lparr>fdbuffermap := (fdbuffermap s)(realfd \<mapsto> cp),
            received := (received s)(realfd := []), echoed := (echoed s)(realfd := [])\<rparr>)))"

definition echo_can_read :: "int \<Rightarrow> site \<Rightarrow> echo_env \<Rightarrow> int \<Rightarrow> circ \<Rightarrow> echo \<Rightarrow> echo checked outcome" where
  "echo_can_read errno loc env realfd cp s =
     then_do (circ_push errno loc (ret_read env) cp) (\<lambda>(eof, cp').
       register_fd errno loc env realfd cp' EPOLL_CTL_MOD
         (s\<lparr>fdbuffermap := (fdbuffermap s)(realfd \<mapsto> cp'),
            received := (received s)(realfd := received s realfd @
              (case ret_read env (push_count cp) of None \<Rightarrow> [] | Some bs \<Rightarrow> bs))\<rparr>))"

definition echo_can_write :: "int \<Rightarrow> site \<Rightarrow> echo_env \<Rightarrow> int \<Rightarrow> circ \<Rightarrow> echo \<Rightarrow> echo checked outcome" where
  "echo_can_write errno loc env realfd cp s =
    (let bs = chunk (cbuf cp) (unat (pos_read cp)) (unat (pull_count cp))
     in then_do (circ_pull errno loc (ret_write env) cp) (\<lambda>cp'.
       register_fd errno loc env realfd cp' EPOLL_CTL_MOD
         (s\<lparr>fdbuffermap := (fdbuffermap s)(realfd \<mapsto> cp'),
            echoed := (echoed s)(realfd := echoed s realfd @
              (case ret_write env bs of None \<Rightarrow> [] | Some n \<Rightarrow> take n bs))\<rparr>)))"

definition echo_disconnect :: "int \<Rightarrow> site \<Rightarrow> echo_env \<Rightarrow> int \<Rightarrow> echo \<Rightarrow> echo checked outcome" where
  "echo_disconnect errno loc env realfd s =
    (let (ret, regs) = epoll_ctl (ctl_ok env EPOLL_CTL_DEL) EPOLL_CTL_DEL realfd 0 (epoll_set s)
     in checked_then (check_not_m1 errno ret loc) (\<lambda>_.
        checked_then (check_not_m1 errno (ret_close env) loc) (\<lambda>_.
          Done (Returned (s\<lparr>epoll_set := regs, fdbuffermap := (fdbuffermap s)(realfd := None)\<rparr>)))))"

text \<open>The body of the loop over the events that \<open>epoll_wait(2)\<close> reports.\<close>

definition if_buffered ::
  "int \<Rightarrow> u32 \<Rightarrow> u32 \<Rightarrow> (circ \<Rightarrow> echo \<Rightarrow> echo checked outcome) \<Rightarrow> echo \<Rightarrow> echo checked outcome" where
  "if_buffered currfd events flag f s =
     (case fdbuffermap s currfd of
        Some cp \<Rightarrow> if events AND flag \<noteq> 0 then f cp s else Done (Returned s)
      | None \<Rightarrow> Done (Returned s))"

definition echo_event ::
  "int \<Rightarrow> site \<Rightarrow> int \<Rightarrow> u32 \<Rightarrow> echo_env \<Rightarrow> int \<Rightarrow> u32 \<Rightarrow> echo \<Rightarrow> echo checked outcome" where
  "echo_event errno loc sockfd bufsize env currfd events s =
     then_do (if currfd = sockfd then echo_connect errno loc bufsize env s else Done (Returned s)) (\<lambda>s.
     then_do (if_buffered currfd events EPOLLIN (echo_can_read errno loc env currfd) s) (\<lambda>s.
     then_do (if_buffered currfd events EPOLLOUT (echo_can_write errno loc env currfd) s)
       (if_buffered currfd events EPOLLRDHUP (\<lambda>cp. echo_disconnect errno loc env currfd))))"

text \<open>
  The service loop: each element is one return of \<open>epoll_wait(2)\<close>, \<open>None\<close> for -1, and otherwise its events
  with the answers of the kernel while they are handled. When the list is used up the server waits for the
  next events.
\<close>

fun echo_batch ::
  "int \<Rightarrow> site \<Rightarrow> int \<Rightarrow> u32 \<Rightarrow> (echo_env \<times> int \<times> u32) list \<Rightarrow> echo \<Rightarrow> echo checked outcome" where
  "echo_batch errno loc sockfd bufsize [] s = Done (Returned s)"
| "echo_batch errno loc sockfd bufsize ((env, currfd, events) # es) s =
     then_do (echo_event errno loc sockfd bufsize env currfd events s) (echo_batch errno loc sockfd bufsize es)"

fun echo_loop ::
  "int \<Rightarrow> site \<Rightarrow> int \<Rightarrow> u32 \<Rightarrow> (echo_env \<times> int \<times> u32) list option list \<Rightarrow> echo \<Rightarrow> echo checked outcome" where
  "echo_loop errno loc sockfd bufsize [] s = Done (Returned s)"
| "echo_loop errno loc sockfd bufsize (w # ws) s =
     checked_then (check_not_m1 errno (case w of None \<Rightarrow> - 1 | Some es \<Rightarrow> int (length es)) loc) (\<lambda>_.
     then_do (echo_batch errno loc sockfd bufsize (case w of None \<Rightarrow> [] | Some es \<Rightarrow> es) s)
       (echo_loop errno loc sockfd bufsize ws))"

text \<open>The calls before the loop, with what they return.\<close>

record setup_calls =
  ret_socket :: int
  ret_setsockopt :: int
  ret_bind :: int
  ret_backlog :: "int list"
  ret_listen :: int
  ret_epoll_create :: int
  setup_ctl_ok :: bool

fun check_all_not_m1 :: "int \<Rightarrow> site \<Rightarrow> int list \<Rightarrow> unit checked" where
  "check_all_not_m1 errno loc [] = Returned ()"
| "check_all_not_m1 errno loc (r # rs) =
     (case check_not_m1 errno r loc of Exits st e ls \<Rightarrow> Exits st e ls
      | Returned _ \<Rightarrow> check_all_not_m1 errno loc rs)"

definition echo_setup :: "int \<Rightarrow> site \<Rightarrow> setup_calls \<Rightarrow> (int \<times> echo) checked outcome" where
  "echo_setup errno loc k =
    (let (ret, regs) = epoll_ctl (setup_ctl_ok k) EPOLL_CTL_ADD (ret_socket k) EPOLLIN Map.empty
     in checked_then
       (check_all_not_m1 errno loc ([ret_socket k, ret_setsockopt k, ret_bind k] @ ret_backlog k @
          [ret_listen k, ret_epoll_create k, ret]))
       (\<lambda>_. Done (Returned (ret_socket k,
          \<lparr>fdbuffermap = Map.empty, epoll_set = regs, received = (\<lambda>_. []), echoed = (\<lambda>_. [])\<rparr>))))"

definition echo_main ::
  "int \<Rightarrow> site \<Rightarrow> u32 \<Rightarrow> setup_calls \<Rightarrow> (echo_env \<times> int \<times> u32) list option list \<Rightarrow> echo checked outcome" where
  "echo_main errno loc bufsize k ws =
     then_do (echo_setup errno loc k) (\<lambda>(sockfd, s). echo_loop errno loc sockfd bufsize ws s)"

section \<open>Results that do not crash\<close>

text \<open>\<open>good ok P r\<close>: the code does not crash, a state that it returns satisfies \<open>P\<close>, and it does return one
  when \<open>ok\<close> holds.\<close>

definition good :: "bool \<Rightarrow> ('a \<Rightarrow> bool) \<Rightarrow> 'a checked outcome \<Rightarrow> bool" where
  "good ok P r \<longleftrightarrow>
     (case r of Crash _ \<Rightarrow> False | Done (Returned x) \<Rightarrow> P x | Done (Exits _ _ _) \<Rightarrow> \<not> ok)"

lemma good_simps [simp]:
  "good ok P (Done (Returned x)) \<longleftrightarrow> P x"
  "good ok P (Done (Exits st e ls)) \<longleftrightarrow> \<not> ok"
  "good ok P (Crash c) \<longleftrightarrow> False"
  by (simp_all add: good_def)

lemma good_then_do:
  "good ok P x \<Longrightarrow> (\<And>y. P y \<Longrightarrow> good ok Q (f y)) \<Longrightarrow> good ok Q (then_do x f)"
proof (cases x)
  case (Done c)
  assume "good ok P x" and "\<And>y. P y \<Longrightarrow> good ok Q (f y)"
  with Done show ?thesis
    by (cases c) (simp_all add: then_do_def checked_then_def)
qed simp

lemma good_seq:
  assumes "good ok1 P x" and "\<And>y. x = Done (Returned y) \<Longrightarrow> P y \<Longrightarrow> good ok2 Q (f y)"
  shows "good (ok1 \<and> ok2) Q (then_do x f)"
proof (cases x)
  case (Done c)
  have "good (ok1 \<and> ok2) Q (f y)" if "c = Returned y" for y
    using assms Done that by (auto simp: good_def split: outcome.splits checked.splits)
  with assms(1) Done show ?thesis
    by (cases c) (simp_all add: then_do_def checked_then_def)
qed (use assms in simp)

lemma good_mono: "good ok P x \<Longrightarrow> (ok' \<Longrightarrow> ok) \<Longrightarrow> (\<And>y. P y \<Longrightarrow> Q y) \<Longrightarrow> good ok' Q x"
  by (cases "(ok, x)" rule: prod.exhaust; cases x) (auto simp: good_def split: checked.splits)

lemma good_checked_then:
  "(\<And>st e ls. c = Exits st e ls \<Longrightarrow> \<not> ok) \<Longrightarrow> (\<And>y. c = Returned y \<Longrightarrow> good ok P (f y)) \<Longrightarrow>
    good ok P (checked_then c f)"
  by (auto simp: checked_then_def split: checked.splits)

lemma handle_error_Exits: "handle_error errno b v re ne ue et loc m \<noteq> Returned x"
  by (simp add: handle_error_def Let_def split: checked.splits)

lemma good_check_not_m1:
  "(ok \<Longrightarrow> ret \<noteq> - 1) \<Longrightarrow> (ret \<noteq> - 1 \<Longrightarrow> good ok P (f ret)) \<Longrightarrow>
    good ok P (checked_then (check_not_m1 errno ret loc) f)"
  by (rule good_checked_then) (auto simp: check_not_m1_def handle_error_Exits split: if_splits)

lemma good_circ_push:
  assumes "circ_inv cp" and "read_law rd"
  shows "good (rd (push_count cp) \<noteq> None)
    (\<lambda>(eof, cp'). circ_inv cp' \<and> circ_capacity cp' = circ_capacity cp \<and>
       (\<exists>bs. rd (push_count cp) = Some bs \<and> circ_contents cp' = circ_contents cp @ bs))
    (circ_push errno loc rd cp)"
proof (cases "rd (push_count cp)")
  case None
  moreover have "int_of_ssize None = - 1"
    by (simp add: int_of_ssize_def)
  ultimately show ?thesis
    by (auto simp: circ_push_def Let_def check_not_m1_def handle_error_Exits split: checked.splits)
next
  case (Some bs)
  then have "length bs \<le> unat (push_count cp)" "length bs < 2 ^ 31"
    using assms(2) by (auto simp: read_law_def)
  with Some obtain cp' where "circ_push errno loc rd cp = Done (Returned (bs = [], cp'))" "circ_inv cp'"
    "circ_contents cp' = circ_contents cp @ bs" "circ_capacity cp' = circ_capacity cp"
    by (rule circ_push_ok [OF assms(1)])
  then show ?thesis
    using Some by simp
qed

lemma good_circ_pull:
  assumes "circ_inv cp" and "write_law wr"
  defines "bs \<equiv> chunk (cbuf cp) (unat (pos_read cp)) (unat (pull_count cp))"
  shows "good (wr bs \<noteq> None)
    (\<lambda>cp'. circ_inv cp' \<and> circ_capacity cp' = circ_capacity cp \<and>
       (\<exists>n. wr bs = Some n \<and> circ_contents cp = take n bs @ circ_contents cp'))
    (circ_pull errno loc wr cp)"
proof (cases "wr bs")
  case None
  have "unat (pos_read cp) + unat (pull_count cp) \<le> length (cbuf cp)"
    using unat_pull_count [OF assms(1)] circ_inv_nat [OF assms(1)] by auto
  moreover have "int_of_ssize None = - 1"
    by (simp add: int_of_ssize_def)
  ultimately show ?thesis
    using None by (auto simp: circ_pull_def Let_def check_not_m1_def handle_error_Exits bs_def split: checked.splits)
next
  case (Some n)
  have l: "unat (pos_read cp) + unat (pull_count cp) \<le> length (cbuf cp)"
    using unat_pull_count [OF assms(1)] circ_inv_nat [OF assms(1)] by auto
  have n: "n \<le> unat (pull_count cp)" "n < 2 ^ 31"
    using assms(2) Some length_chunk [OF l] unfolding bs_def by (metis write_law_def)+
  have "take n bs = take n (circ_contents cp)"
    using pull_chunk(1) [OF assms(1), of "unat (pull_count cp)"] n(1) by (simp add: bs_def min_def)
  moreover from Some n obtain cp' where "circ_pull errno loc wr cp = Done (Returned cp')" "circ_inv cp'"
    "circ_contents cp = take n (circ_contents cp) @ circ_contents cp'" "circ_capacity cp' = circ_capacity cp"
    unfolding bs_def by (rule circ_pull_ok [OF assms(1)])
  ultimately show ?thesis
    using Some by simp
qed

section \<open>The invariant\<close>

text \<open>What is documented of the system calls: \<open>read(2)\<close> and \<open>write(2)\<close> transfer at most what they are asked to,
  \<open>accept4(2)\<close> returns a descriptor that is not open, and \<open>malloc(3)\<close> a block of the size.\<close>

definition env_ok :: "u32 \<Rightarrow> echo_env \<Rightarrow> echo \<Rightarrow> bool" where
  "env_ok bufsize env s \<longleftrightarrow> read_law (ret_read env) \<and> write_law (ret_write env) \<and>
     (ret_accept env \<noteq> - 1 \<longrightarrow> epoll_set s (ret_accept env) = None) \<and>
     (fst (ret_malloc env) \<noteq> NULL \<longrightarrow> length (snd (ret_malloc env)) = unat bufsize)"

definition no_call_fails :: "echo_env \<Rightarrow> bool" where
  "no_call_fails env \<longleftrightarrow> ret_accept env \<noteq> - 1 \<and> fst (ret_malloc env) \<noteq> NULL \<and>
     (\<forall>n. ret_read env n \<noteq> None) \<and> (\<forall>bs. ret_write env bs \<noteq> None) \<and> ret_close env \<noteq> - 1 \<and>
     (\<forall>op. ctl_ok env op)"

text \<open>A connection holds what was received and not yet sent back, and the kernel has been asked for the events
  that this makes possible. \<open>reg\<close> leaves out the second part, which does not hold between an operation and
  the registration that follows it.\<close>

definition conn_ok :: "bool \<Rightarrow> u32 \<Rightarrow> echo \<Rightarrow> int \<Rightarrow> circ \<Rightarrow> bool" where
  "conn_ok reg bufsize s fd cp \<longleftrightarrow> circ_inv cp \<and> circ_capacity cp = unat bufsize - 1 \<and>
     received s fd = echoed s fd @ circ_contents cp \<and> (reg \<longrightarrow> epoll_set s fd = Some (register_events cp))"

definition echo_inv :: "int \<Rightarrow> u32 \<Rightarrow> echo \<Rightarrow> bool" where
  "echo_inv sockfd bufsize s \<longleftrightarrow>
     dom (epoll_set s) = insert sockfd (dom (fdbuffermap s)) \<and> fdbuffermap s sockfd = None \<and>
     (\<forall>fd. \<exists>rest. received s fd = echoed s fd @ rest) \<and>
     (\<forall>fd cp. fdbuffermap s fd = Some cp \<longrightarrow> conn_ok True bufsize s fd cp)"

lemma good_register:
  assumes "\<And>regs. regs = (epoll_set s)(realfd \<mapsto> register_events cp) \<Longrightarrow> P (s\<lparr>epoll_set := regs\<rparr>)"
    and "op = EPOLL_CTL_ADD \<and> epoll_set s realfd = None \<or> op = EPOLL_CTL_MOD \<and> epoll_set s realfd \<noteq> None"
  shows "good (ctl_ok env op) P (register_fd errno loc env realfd cp op s)"
  using assms
  by (auto simp: register_fd_def epoll_ctl_def Let_def intro!: good_check_not_m1 split: if_splits)

lemma good_connect:
  assumes inv: "echo_inv sockfd bufsize s" and env: "env_ok bufsize env s" and pos: "0 < bufsize"
  shows "good (no_call_fails env) (echo_inv sockfd bufsize) (echo_connect errno loc bufsize env s)"
  unfolding echo_connect_def
proof (rule good_check_not_m1, goal_cases)
  case 2
  let ?fd = "ret_accept env"
  have fresh: "epoll_set s ?fd = None"
    using env 2 by (simp add: env_ok_def)
  then have fd: "?fd \<noteq> sockfd"
    using inv by (auto simp: echo_inv_def)
  show ?case
  proof (rule good_checked_then, goal_cases)
    case (1 st e ls)
    then show ?case
      by (auto simp: circ_ctor_def check_not_null_def no_call_fails_def split: checked.splits if_splits)
  next
    case (2 cp)
    then have cp: "cp = \<lparr>csize = ucast bufsize, cbuf = snd (ret_malloc env), pos_read = 0, pos_write = 0\<rparr>"
      and "fst (ret_malloc env) \<noteq> NULL"
      by (auto simp: circ_ctor_def check_not_null_def handle_error_Exits split: checked.splits if_splits)
    then have len: "length (snd (ret_malloc env)) = unat bufsize"
      using env by (simp add: env_ok_def)
    have "conn_ok True bufsize (s\<lparr>fdbuffermap := (fdbuffermap s)(?fd \<mapsto> cp), received := (received s)(?fd := []),
        echoed := (echoed s)(?fd := []), epoll_set := (epoll_set s)(?fd \<mapsto> register_events cp)\<rparr>) ?fd cp"
      using pos len unat_less_u32 [of bufsize]
      by (simp add: conn_ok_def cp circ_inv_def circ_capacity_def circ_contents_def unat_ucast_u64
          word_less_nat_alt ring_contents_def)
    then show ?case
      using inv fresh fd
      by (intro good_mono [OF good_register]) (auto simp: echo_inv_def conn_ok_def no_call_fails_def)
  qed
qed (simp add: no_call_fails_def)

text \<open>A pipe that has changed is stored and registered again.\<close>

lemma good_stored:
  assumes inv: "echo_inv sockfd bufsize s" and fd: "fdbuffermap s fd \<noteq> None"
    and m: "fdbuffermap t = (fdbuffermap s)(fd \<mapsto> cp)" "epoll_set t = epoll_set s"
    and others: "\<And>fd'. fd' \<noteq> fd \<Longrightarrow> received t fd' = received s fd' \<and> echoed t fd' = echoed s fd'"
    and c: "conn_ok False bufsize t fd cp"
  shows "good (ctl_ok env EPOLL_CTL_MOD) (echo_inv sockfd bufsize)
    (register_fd errno loc env fd cp EPOLL_CTL_MOD t)"
proof (rule good_register, goal_cases)
  case (1 regs)
  have "\<exists>rest. received t fd' = echoed t fd' @ rest" for fd'
    using inv c others [of fd'] by (cases "fd' = fd") (auto simp: echo_inv_def conn_ok_def)
  moreover have "conn_ok True bufsize (t\<lparr>epoll_set := regs\<rparr>) fd' cp'" if "fdbuffermap t fd' = Some cp'" for fd' cp'
    using that inv c 1 others [of fd'] m by (cases "fd' = fd") (auto simp: echo_inv_def conn_ok_def)
  moreover have "dom regs = insert sockfd (dom (fdbuffermap t))" "fdbuffermap t sockfd = None"
    using inv fd m 1 by (auto simp: echo_inv_def)
  ultimately show ?case
    by (simp add: echo_inv_def)
next
  case 2
  then show ?case
    using inv fd m by (auto simp: echo_inv_def)
qed

lemma good_can_read:
  assumes inv: "echo_inv sockfd bufsize s" and env: "read_law (ret_read env)" and fd: "fdbuffermap s fd = Some cp"
  shows "good (no_call_fails env) (echo_inv sockfd bufsize) (echo_can_read errno loc env fd cp s)"
proof -
  have cp: "conn_ok True bufsize s fd cp"
    using inv fd by (simp add: echo_inv_def)
  have "good (no_call_fails env)
    (\<lambda>(eof, cp'). circ_inv cp' \<and> circ_capacity cp' = circ_capacity cp \<and>
       (\<exists>bs. ret_read env (push_count cp) = Some bs \<and> circ_contents cp' = circ_contents cp @ bs))
    (circ_push errno loc (ret_read env) cp)"
    by (rule good_mono [OF good_circ_push]) (use cp env in \<open>auto simp: conn_ok_def no_call_fails_def\<close>)
  then show ?thesis
    unfolding echo_can_read_def
  proof (rule good_then_do, goal_cases)
    case (1 y)
    then show ?case
      by (cases y) (use cp fd inv in \<open>auto simp: conn_ok_def no_call_fails_def intro!: good_mono [OF good_stored [OF inv]]\<close>)
  qed
qed

lemma good_can_write:
  assumes inv: "echo_inv sockfd bufsize s" and env: "write_law (ret_write env)" and fd: "fdbuffermap s fd = Some cp"
  shows "good (no_call_fails env) (echo_inv sockfd bufsize) (echo_can_write errno loc env fd cp s)"
proof -
  let ?bs = "chunk (cbuf cp) (unat (pos_read cp)) (unat (pull_count cp))"
  have cp: "conn_ok True bufsize s fd cp"
    using inv fd by (simp add: echo_inv_def)
  have "good (no_call_fails env)
    (\<lambda>cp'. circ_inv cp' \<and> circ_capacity cp' = circ_capacity cp \<and>
       (\<exists>n. ret_write env ?bs = Some n \<and> circ_contents cp = take n ?bs @ circ_contents cp'))
    (circ_pull errno loc (ret_write env) cp)"
    by (rule good_mono [OF good_circ_pull]) (use cp env in \<open>auto simp: conn_ok_def no_call_fails_def\<close>)
  then show ?thesis
    unfolding echo_can_write_def Let_def
  proof (rule good_then_do, goal_cases)
    case (1 cp')
    then show ?case
      by (use 1 cp fd inv in \<open>auto simp: conn_ok_def no_call_fails_def intro!: good_mono [OF good_stored [OF inv]]\<close>)
  qed
qed

lemma good_disconnect:
  assumes inv: "echo_inv sockfd bufsize s" and fd: "fdbuffermap s fd \<noteq> None"
  shows "good (no_call_fails env) (echo_inv sockfd bufsize) (echo_disconnect errno loc env fd s)"
proof -
  have r: "epoll_set s fd \<noteq> None" "fd \<noteq> sockfd"
    using inv fd by (auto simp: echo_inv_def)
  show ?thesis
    unfolding echo_disconnect_def using inv r
    by (auto simp: epoll_ctl_def no_call_fails_def echo_inv_def conn_ok_def intro!: good_check_not_m1
        split: if_splits)
qed

lemma good_if_buffered:
  assumes "echo_inv sockfd bufsize s"
    and "\<And>cp. fdbuffermap s fd = Some cp \<Longrightarrow> good ok (echo_inv sockfd bufsize) (f cp s)"
  shows "good ok (echo_inv sockfd bufsize) (if_buffered fd events flag f s)"
  using assms by (simp add: if_buffered_def split: option.splits)

lemma good_event:
  assumes "echo_inv sockfd bufsize s" and "env_ok bufsize env s" and "0 < bufsize"
  shows "good (no_call_fails env) (echo_inv sockfd bufsize)
    (echo_event errno loc sockfd bufsize env currfd events s)"
  unfolding echo_event_def
proof (rule good_then_do)
  show "good (no_call_fails env) (echo_inv sockfd bufsize)
      (if currfd = sockfd then echo_connect errno loc bufsize env s else Done (Returned s))"
    using assms by (simp add: good_connect)
next
  fix s'
  assume "echo_inv sockfd bufsize s'"
  then show "good (no_call_fails env) (echo_inv sockfd bufsize)
      (then_do (if_buffered currfd events EPOLLIN (echo_can_read errno loc env currfd) s') (\<lambda>s.
       then_do (if_buffered currfd events EPOLLOUT (echo_can_write errno loc env currfd) s)
         (if_buffered currfd events EPOLLRDHUP (\<lambda>cp. echo_disconnect errno loc env currfd))))"
    using assms(2)
    by (auto simp: env_ok_def intro!: good_then_do [where P = "echo_inv sockfd bufsize"] good_if_buffered
        good_can_read good_can_write good_disconnect)
qed

section \<open>Runs of the server\<close>

text \<open>The documented behaviour of the kernel at every event of a run.\<close>

fun batch_ok :: "int \<Rightarrow> site \<Rightarrow> int \<Rightarrow> u32 \<Rightarrow> (echo_env \<times> int \<times> u32) list \<Rightarrow> echo \<Rightarrow> bool" where
  "batch_ok errno loc sockfd bufsize [] s \<longleftrightarrow> True"
| "batch_ok errno loc sockfd bufsize ((env, currfd, events) # es) s \<longleftrightarrow> env_ok bufsize env s \<and>
     (case echo_event errno loc sockfd bufsize env currfd events s of
        Done (Returned s') \<Rightarrow> batch_ok errno loc sockfd bufsize es s' | _ \<Rightarrow> True)"

fun loop_ok :: "int \<Rightarrow> site \<Rightarrow> int \<Rightarrow> u32 \<Rightarrow> (echo_env \<times> int \<times> u32) list option list \<Rightarrow> echo \<Rightarrow> bool" where
  "loop_ok errno loc sockfd bufsize [] s \<longleftrightarrow> True"
| "loop_ok errno loc sockfd bufsize (None # ws) s \<longleftrightarrow> True"
| "loop_ok errno loc sockfd bufsize (Some es # ws) s \<longleftrightarrow> batch_ok errno loc sockfd bufsize es s \<and>
     (case echo_batch errno loc sockfd bufsize es s of
        Done (Returned s') \<Rightarrow> loop_ok errno loc sockfd bufsize ws s' | _ \<Rightarrow> True)"

definition batch_succeeds :: "(echo_env \<times> int \<times> u32) list \<Rightarrow> bool" where
  "batch_succeeds es \<longleftrightarrow> (\<forall>(env, _) \<in> set es. no_call_fails env)"

lemma good_batch:
  assumes "0 < bufsize"
  shows "echo_inv sockfd bufsize s \<Longrightarrow> batch_ok errno loc sockfd bufsize es s \<Longrightarrow>
    good (batch_succeeds es) (echo_inv sockfd bufsize) (echo_batch errno loc sockfd bufsize es s)"
proof (induction es arbitrary: s)
  case (Cons e es)
  obtain env currfd events where e: "e = (env, currfd, events)"
    by (cases e)
  have "batch_succeeds (e # es) = (no_call_fails env \<and> batch_succeeds es)"
    by (simp add: batch_succeeds_def e)
  moreover have "good (no_call_fails env) (echo_inv sockfd bufsize)
      (echo_event errno loc sockfd bufsize env currfd events s)"
    using Cons.prems assms e by (intro good_event) simp_all
  ultimately show ?case
    unfolding e echo_batch.simps using Cons.prems by (auto simp: e intro!: good_seq Cons.IH)
qed (simp add: batch_succeeds_def)

definition loop_succeeds :: "(echo_env \<times> int \<times> u32) list option list \<Rightarrow> bool" where
  "loop_succeeds ws \<longleftrightarrow> (\<forall>w \<in> set ws. case w of None \<Rightarrow> False | Some es \<Rightarrow> batch_succeeds es)"

lemma good_loop:
  assumes "0 < bufsize"
  shows "echo_inv sockfd bufsize s \<Longrightarrow> loop_ok errno loc sockfd bufsize ws s \<Longrightarrow>
    good (loop_succeeds ws) (echo_inv sockfd bufsize) (echo_loop errno loc sockfd bufsize ws s)"
proof (induction ws arbitrary: s)
  case (Cons w ws)
  show ?case
  proof (cases w)
    case None
    then show ?thesis
      by (auto simp: loop_succeeds_def intro: good_check_not_m1)
  next
    case (Some es)
    then have "loop_succeeds (w # ws) = (batch_succeeds es \<and> loop_succeeds ws)"
      by (simp add: loop_succeeds_def)
    then show ?thesis
      using Cons.prems Some good_batch [OF assms, of sockfd s errno loc es]
      by (auto simp: check_not_m1_def checked_then_def intro!: good_seq Cons.IH)
  qed
qed (simp add: loop_succeeds_def)

lemma setup_inv:
  assumes "echo_setup errno loc k = Done (Returned (sockfd, s))"
  shows "echo_inv sockfd bufsize s"
proof -
  have "check_all_not_m1 errno loc (rs @ [r]) = Returned () \<Longrightarrow> r \<noteq> - 1" for rs r
    by (induction rs) (auto simp: check_not_m1_def handle_error_Exits split: checked.splits if_splits)
  from this [of "[ret_socket k, ret_setsockopt k, ret_bind k] @ ret_backlog k @ [ret_listen k, ret_epoll_create k]"]
  show ?thesis
    using assms
    by (auto simp: echo_setup_def epoll_ctl_def checked_then_def echo_inv_def split: checked.splits if_splits)
qed

section \<open>Properties\<close>

lemma register_events_iff:
  "circ_inv cp \<Longrightarrow> register_events cp =
     EPOLLRDHUP OR (if circ_contents cp \<noteq> [] then EPOLLOUT else 0) OR
       (if length (circ_contents cp) < circ_capacity cp then EPOLLIN else 0)"
  using canPull_iff [of cp] canPush_iff [of cp]
  by (simp add: register_events_def canPull_def canPush_def or.assoc)

text \<open>C14: The server echoes. Over any sequence of events and any answers of the kernel that respect the documentation of
  the system calls, the server never touches memory outside its buffers. As long as no call fails it
  goes on serving, and then for every connection what has been received is what has been sent back
  followed by what its buffer holds, fewer bytes than the size of the buffer; and the kernel
  has been asked to report a connection for writing exactly when there is something to send, and for
  reading exactly when there is room. What was sent on a connection that has been closed is a beginning of
  what was received.\<close>

theorem echo_server_echoes:
  assumes "0 < bufsize" and "echo_setup errno loc k = Done (Returned (sockfd, s))"
    and "loop_ok errno loc sockfd bufsize ws s"
  shows "\<exists>r. echo_main errno loc bufsize k ws = Done r \<and> (loop_succeeds ws \<longrightarrow> (\<exists>s'. r = Returned s')) \<and>
    (\<forall>s'. r = Returned s' \<longrightarrow>
      (\<forall>fd. \<exists>rest. received s' fd = echoed s' fd @ rest) \<and>
      (\<forall>fd cp. fdbuffermap s' fd = Some cp \<longrightarrow>
        received s' fd = echoed s' fd @ circ_contents cp \<and> length (circ_contents cp) < unat bufsize \<and>
        epoll_set s' fd = Some (EPOLLRDHUP OR (if circ_contents cp \<noteq> [] then EPOLLOUT else 0) OR
          (if length (circ_contents cp) < unat bufsize - 1 then EPOLLIN else 0))))"
proof -
  have g: "good (loop_succeeds ws) (echo_inv sockfd bufsize) (echo_main errno loc bufsize k ws)"
    using good_loop [OF assms(1) setup_inv [OF assms(2)] assms(3)] assms(2)
    by (simp add: echo_main_def then_do_def checked_then_def)
  then obtain r where r: "echo_main errno loc bufsize k ws = Done r"
    by (cases "echo_main errno loc bufsize k ws") simp_all
  have conn: "received s' fd = echoed s' fd @ circ_contents cp \<and> length (circ_contents cp) < unat bufsize \<and>
      epoll_set s' fd = Some (EPOLLRDHUP OR (if circ_contents cp \<noteq> [] then EPOLLOUT else 0) OR
        (if length (circ_contents cp) < unat bufsize - 1 then EPOLLIN else 0))"
    if "conn_ok True bufsize s' fd cp" for s' fd cp
  proof -
    have "length (circ_contents cp) \<le> unat bufsize - 1"
      using circ.bounded [of cp] that by (simp add: conn_ok_def)
    moreover have "0 < unat bufsize"
      using assms(1) by (simp add: word_less_nat_alt)
    ultimately show ?thesis
      using that by (simp add: conn_ok_def register_events_iff)
  qed
  show ?thesis
  proof (cases r)
    case (Returned s')
    then have "echo_inv sockfd bufsize s'"
      using g r by simp
    then show ?thesis
      using r Returned conn [of s'] unfolding echo_inv_def by blast
  qed (use g r in simp)
qed

definition sample_site :: site where
  "sample_site = \<lparr>site_msg = [], site_file = [], site_function = [], site_line = 0\<rparr>"

definition sample_calls :: setup_calls where
  "sample_calls = \<lparr>ret_socket = 3, ret_setsockopt = 0, ret_bind = 0, ret_backlog = [4, 5, 0], ret_listen = 0,
     ret_epoll_create = 4, setup_ctl_ok = True\<rparr>"

definition sample_client :: "int \<Rightarrow> echo_env" where
  "sample_client fd = \<lparr>ret_accept = fd, ret_malloc = (4096, [0, 0]), ret_read = (\<lambda>n. Some (take (unat n) [65])),
     ret_write = (\<lambda>bs. Some (min 1 (length bs))), ret_close = 0, ctl_ok = (\<lambda>_. True)\<rparr>"

theorem echo_server_echoes_witness:
  "\<exists>s'. echo_main 0 sample_site 2 sample_calls
      [Some [(sample_client 5, 3, EPOLLIN)], Some [(sample_client 6, 5, EPOLLIN)]] = Done (Returned s') \<and>
    (\<forall>cp. fdbuffermap s' 5 = Some cp \<longrightarrow> received s' 5 = echoed s' 5 @ circ_contents cp)"
proof -
  let ?s0 = "\<lparr>fdbuffermap = Map.empty, epoll_set = [3 \<mapsto> EPOLLIN], received = (\<lambda>_. []), echoed = (\<lambda>_. [])\<rparr>"
  let ?ws = "[Some [(sample_client 5, 3, EPOLLIN)], Some [(sample_client 6, 5, EPOLLIN)]]"
  have s0: "echo_setup 0 sample_site sample_calls = Done (Returned (3, ?s0))"
    by (simp add: echo_setup_def sample_calls_def epoll_ctl_def check_not_m1_def checked_then_def)
  have law: "read_law (\<lambda>n. Some (take (unat n) [65]))" "write_law (\<lambda>bs. Some (min (Suc 0) (length bs)))"
    by (auto simp: read_law_def write_law_def)
  have ok: "loop_ok 0 sample_site 3 2 ?ws ?s0"
    by (simp add: sample_client_def env_ok_def law echo_event_def echo_connect_def then_do_def checked_then_def
        check_not_m1_def circ_ctor_def check_not_null_def NULL_def register_fd_def epoll_ctl_def if_buffered_def
        epoll_defs split: outcome.split checked.split)
  have "loop_succeeds ?ws"
    by (simp add: loop_succeeds_def batch_succeeds_def no_call_fails_def sample_client_def NULL_def)
  then show ?thesis
    using echo_server_echoes [OF _ s0 ok] by auto
qed

text \<open>The end of the input of a client makes the server close the connection without sending what its
  buffer holds: a client that sends and then shuts down its side before the server has looked gets
  nothing back.\<close>

lemma echo_half_close_loses:
  assumes inv: "echo_inv sockfd bufsize s" and env: "env_ok bufsize env s" "no_call_fails env" and fd: "fdbuffermap s fd = Some cp"
    and bs: "ret_read env (push_count cp) = Some bs"
  obtains s' where "echo_event errno loc sockfd bufsize env fd (EPOLLIN OR EPOLLRDHUP) s = Done (Returned s')"
    and "fdbuffermap s' fd = None" and "received s' fd = received s fd @ bs" and "echoed s' fd = echoed s fd"
proof -
  have "good (ret_read env (push_count cp) \<noteq> None) (\<lambda>_. True) (circ_push errno loc (ret_read env) cp)"
    using inv env fd by (intro good_mono [OF good_circ_push]) (auto simp: echo_inv_def conn_ok_def env_ok_def)
  then obtain eof cp' where p: "circ_push errno loc (ret_read env) cp = Done (Returned (eof, cp'))"
    using bs by (auto simp: good_def split: outcome.splits checked.splits)
  from inv fd have "fd \<noteq> sockfd" "epoll_set s fd \<noteq> None"
    by (auto simp: echo_inv_def)
  then obtain ev where ne: "fd \<noteq> sockfd" "epoll_set s fd = Some ev"
    by blast
  have flags: "(EPOLLIN OR EPOLLRDHUP) AND EPOLLIN \<noteq> 0" "(EPOLLIN OR EPOLLRDHUP) AND EPOLLOUT = 0"
    "(EPOLLIN OR EPOLLRDHUP) AND EPOLLRDHUP \<noteq> 0"
    by (simp_all add: epoll_defs)
  show thesis
    by (rule that [of "s\<lparr>fdbuffermap := (fdbuffermap s)(fd := None), epoll_set := (epoll_set s)(fd := None),
         received := (received s)(fd := received s fd @ bs)\<rparr>"])
      (use p ne env fd bs flags in \<open>simp_all add: echo_event_def if_buffered_def echo_can_read_def then_do_def checked_then_def
         register_fd_def epoll_ctl_def no_call_fails_def check_not_m1_def echo_disconnect_def\<close>)
qed

text \<open>A call that fails on one connection, such as \<open>read(2)\<close> after the client has reset it, ends the server for all of
  them.\<close>

lemma echo_reset_ends:
  assumes "fdbuffermap s fd = Some cp" and "ret_read env (push_count cp) = None" and "fd \<noteq> sockfd"
  shows "\<exists>st e ls. echo_event errno loc sockfd bufsize env fd EPOLLIN s = Done (Exits st e ls)"
proof -
  have "int_of_ssize None = - 1"
    by (simp add: int_of_ssize_def)
  then obtain st e ls where "check_not_m1 errno (int_of_ssize None) loc = Exits st e ls"
    using handle_error_Exits by (metis check_not_m1_def checked.exhaust)
  then show ?thesis
    using assms by (simp add: echo_event_def if_buffered_def echo_can_read_def then_do_def checked_then_def
        circ_push_def Let_def epoll_defs)
qed

end
