(* ===== verification/PyStr.thy ===== *)
theory PyStr
  imports Prelude "HOL-Library.Sublist"
begin

text \<open>
  Python strings, as the scripts of \<open>src/scripts\<close> use them: lists of code points with the tests and the
  splittings of \<open>str\<close>. Text that is read from a file has its line ends translated.
\<close>

section \<open>Operations\<close>

type_synonym str = "nat list"

definition lit :: "string \<Rightarrow> str" where
  "lit s = map of_char s"

fun startswith :: "str \<Rightarrow> str \<Rightarrow> bool" where
  "startswith s [] \<longleftrightarrow> True"
| "startswith [] (p # ps) \<longleftrightarrow> False"
| "startswith (c # s) (p # ps) \<longleftrightarrow> c = p \<and> startswith s ps"

definition endswith :: "str \<Rightarrow> str \<Rightarrow> bool" where
  "endswith s p \<longleftrightarrow> startswith (rev s) (rev p)"

text \<open>The operator \<open>in\<close>, and \<open>find\<close>, which returns the first position or -1.\<close>

fun in_str :: "str \<Rightarrow> str \<Rightarrow> bool" where
  "in_str p [] \<longleftrightarrow> p = []"
| "in_str p (c # s) \<longleftrightarrow> startswith (c # s) p \<or> in_str p s"

fun find_str :: "str \<Rightarrow> str \<Rightarrow> int" where
  "find_str p [] = (if p = [] then 0 else - 1)"
| "find_str p (c # s) =
    (if startswith (c # s) p then 0
     else (let i = find_str p s in if i = - 1 then - 1 else i + 1))"

text \<open>White space as \<open>str.isspace\<close>, \<open>str.strip\<close> and \<open>\s\<close> have it, and the characters that end a line for
  \<open>str.splitlines\<close>.\<close>

definition py_isspace :: "nat \<Rightarrow> bool" where
  "py_isspace c \<longleftrightarrow> 9 \<le> c \<and> c \<le> 13 \<or> 28 \<le> c \<and> c \<le> 32 \<or> c = 133 \<or> c = 160 \<or> c = 5760 \<or>
     8192 \<le> c \<and> c \<le> 8202 \<or> c = 8232 \<or> c = 8233 \<or> c = 8239 \<or> c = 8287 \<or> c = 12288"

definition is_linebreak :: "nat \<Rightarrow> bool" where
  "is_linebreak c \<longleftrightarrow> 10 \<le> c \<and> c \<le> 13 \<or> 28 \<le> c \<and> c \<le> 30 \<or> c = 133 \<or> c = 8232 \<or> c = 8233"

definition lstrip :: "str \<Rightarrow> str" where
  "lstrip s = dropWhile py_isspace s"

definition rstrip :: "str \<Rightarrow> str" where
  "rstrip s = rev (dropWhile py_isspace (rev s))"

definition strip :: "str \<Rightarrow> str" where
  "strip s = rstrip (lstrip s)"

text \<open>\<open>str.lower\<close>. No character outside of ASCII has a lower case form with one of the characters that the
  scripts search for in it, so that these are left as they are.\<close>

definition lower :: "str \<Rightarrow> str" where
  "lower s = map (\<lambda>c. if 65 \<le> c \<and> c \<le> 90 then c + 32 else c) s"

fun skip_linebreak :: "str \<Rightarrow> str" where
  "skip_linebreak [] = []"
| "skip_linebreak (c # s) = (case s of d # s' \<Rightarrow> if c = 13 \<and> d = 10 then s' else s | [] \<Rightarrow> s)"

lemma length_skip_linebreak: "length (skip_linebreak s) \<le> length s - 1"
  by (cases s rule: skip_linebreak.cases) (auto split: list.split)

function splitlines :: "str \<Rightarrow> str list" where
  "splitlines s =
    (if s = [] then []
     else takeWhile (\<lambda>c. \<not> is_linebreak c) s # splitlines (skip_linebreak (dropWhile (\<lambda>c. \<not> is_linebreak c) s)))"
  by auto
termination
proof (relation "measure length", goal_cases)
  case (2 s)
  have "length (skip_linebreak (dropWhile (\<lambda>c. \<not> is_linebreak c) s)) \<le>
      length (dropWhile (\<lambda>c. \<not> is_linebreak c) s) - 1"
    by (rule length_skip_linebreak)
  also have "\<dots> < length s"
    using 2 length_dropWhile_le [of "\<lambda>c. \<not> is_linebreak c" s] by (cases s) auto
  finally show ?case by simp
qed simp

declare splitlines.simps [simp del]

text \<open>\<open>s.split("\n")\<close>, and its inverse \<open>"\n".join\<close>.\<close>

fun split_nl :: "str \<Rightarrow> str list" where
  "split_nl [] = [[]]"
| "split_nl (c # s) =
    (if c = 10 then [] # split_nl s else (case split_nl s of l # ls \<Rightarrow> (c # l) # ls | [] \<Rightarrow> [[c]]))"

fun join_nl :: "str list \<Rightarrow> str" where
  "join_nl [] = []"
| "join_nl [l] = l"
| "join_nl (l # ls) = l @ 10 # join_nl ls"

text \<open>\<open>s.split()\<close>: the words of a string.\<close>

function split_ws :: "str \<Rightarrow> str list" where
  "split_ws s =
    (if lstrip s = [] then []
     else takeWhile (\<lambda>c. \<not> py_isspace c) (lstrip s) # split_ws (dropWhile (\<lambda>c. \<not> py_isspace c) (lstrip s)))"
  by auto
termination
proof (relation "measure length", goal_cases)
  case (2 s)
  have "length (dropWhile (\<lambda>c. \<not> py_isspace c) u) < length u" if "u \<noteq> []" "\<not> py_isspace (hd u)" for u
    using that length_dropWhile_le [of "\<lambda>c. \<not> py_isspace c" "tl u"] by (cases u) auto
  from this [of "lstrip s"] have "length (dropWhile (\<lambda>c. \<not> py_isspace c) (lstrip s)) < length (lstrip s)"
    using 2 hd_dropWhile [of py_isspace s] by (simp add: lstrip_def)
  also have "\<dots> \<le> length s"
    by (simp add: lstrip_def length_dropWhile_le)
  finally show ?case by simp
qed simp

declare split_ws.simps [simp del]

text \<open>The line ends of a file that is opened as text.\<close>

fun universal_newlines :: "str \<Rightarrow> str" where
  "universal_newlines [] = []"
| "universal_newlines (c # s) =
    (if c = 13
     then 10 # (case s of d # s' \<Rightarrow> if d = 10 then universal_newlines s' else universal_newlines s | [] \<Rightarrow> [])
     else c # universal_newlines s)"

text \<open>\<open>enumerate(xs, 1)\<close>.\<close>

definition enumerate1 :: "'a list \<Rightarrow> (nat \<times> 'a) list" where
  "enumerate1 xs = zip [1..<Suc (length xs)] xs"

text \<open>\<open>os.path.join\<close> of a directory and a relative name.\<close>

definition path_join :: "str \<Rightarrow> str \<Rightarrow> str" where
  "path_join root name =
     (if root = [] \<or> endswith root (lit ''/'') then root @ name else root @ lit ''/'' @ name)"

section \<open>What they mean\<close>

lemma startswith_iff: "startswith s p \<longleftrightarrow> prefix p s"
  by (induction s p rule: startswith.induct) (auto simp: eq_commute)

lemma endswith_iff: "endswith s p \<longleftrightarrow> suffix p s"
  by (simp add: endswith_def startswith_iff suffix_to_prefix)

lemma in_str_iff: "in_str p s \<longleftrightarrow> sublist p s"
  by (induction s) (simp_all add: startswith_iff sublist_Cons_right)

lemma find_str_m1: "find_str p s = - 1 \<longleftrightarrow> \<not> in_str p s"
proof (induction s)
  case (Cons c s)
  have "find_str p s \<ge> - 1"
    by (induction s) (auto simp: Let_def)
  with Cons show ?case
    by (auto simp: Let_def)
qed simp

lemma enumerate1_iff: "(i, x) \<in> set (enumerate1 xs) \<longleftrightarrow> 1 \<le> i \<and> i \<le> length xs \<and> xs ! (i - 1) = x"
proof
  assume "(i, x) \<in> set (enumerate1 xs)"
  then show "1 \<le> i \<and> i \<le> length xs \<and> xs ! (i - 1) = x"
    by (auto simp: enumerate1_def set_zip simp del: upt_Suc)
next
  assume "1 \<le> i \<and> i \<le> length xs \<and> xs ! (i - 1) = x"
  then have "[1..<Suc (length xs)] ! (i - 1) = i" "i - 1 < length xs" "xs ! (i - 1) = x"
    by (auto simp del: upt_Suc)
  then show "(i, x) \<in> set (enumerate1 xs)"
    by (auto simp: enumerate1_def set_zip simp del: upt_Suc intro!: exI [of _ "i - 1"])
qed

lemma join_split_nl: "join_nl (split_nl s) = s"
proof (induction s)
  case (Cons c s)
  moreover have "split_nl s \<noteq> []"
    by (cases s) (auto split: list.splits)
  ultimately show ?case
    by (cases "split_nl s"; cases "tl (split_nl s)") auto
qed simp

lemma split_nl_Cons: "split_nl s = takeWhile (\<lambda>c. c \<noteq> 10) s #
    (if 10 \<in> set s then split_nl (tl (dropWhile (\<lambda>c. c \<noteq> 10) s)) else [])"
  by (induction s) auto

text \<open>A line that \<open>splitlines\<close> returns has no line break in it.\<close>

lemma splitlines_no_break: "l \<in> set (splitlines s) \<Longrightarrow> c \<in> set l \<Longrightarrow> \<not> is_linebreak c"
proof (induction s rule: splitlines.induct)
  case (1 s)
  then show ?case
    by (subst (asm) splitlines.simps) (auto split: if_splits dest: set_takeWhileD)
qed

lemma universal_newlines_no_cr: "13 \<notin> set (universal_newlines s)"
  by (induction s rule: universal_newlines.induct) (auto split: list.splits if_splits)

end
