(* ===== verification/SourceChecks.thy ===== *)
theory SourceChecks
  imports PyStr
begin

text \<open>
  \<open>src/scripts/check_all.py\<close>, the style checks of the repository, and \<open>check_have_solutions.py\<close>. The file
  system and the output of \<open>git ls-files\<close> are a record; a message is the triple of its file, its line number
  and its text. An exception that is not caught ends the script with status 1.
\<close>

section \<open>The environment\<close>

record py_env =
  git_ls :: "str option"
  text_of :: "str \<Rightarrow> str option"
  path_exists :: "str \<Rightarrow> bool"
  is_dir :: "str \<Rightarrow> bool"
  walk_roots :: "str \<Rightarrow> str list"
  dir_names :: "str \<Rightarrow> str list"

type_synonym violation = "str \<times> nat option \<times> string"

definition SOURCE_EXTENSIONS :: "str list" where
  "SOURCE_EXTENSIONS = map lit [''.c'', ''.cc'', ''.h'', ''.hh'']"

definition FIRSTINCLUDE_EXCLUDES :: "str list" where
  "FIRSTINCLUDE_EXCLUDES = map lit
     [''kernel_standalone'', ''mod_'', ''examples_standalone'', ''firstinclude'', ''shared.h'', ''kernel_helper.h'']"

definition BRACE_CHECK_DIRS :: "str list" where
  "BRACE_CHECK_DIRS = map lit
     [''src/examples'', ''src/examples_standalone'', ''src/exercises'', ''src/exercises_standalone'',
      ''src/include'', ''src/tests'']"

definition git_tracked_sources :: "py_env \<Rightarrow> str list option" where
  "git_tracked_sources env =
     map_option (\<lambda>out. filter (\<lambda>f. \<exists>ext \<in> set SOURCE_EXTENSIONS. endswith f ext)
       (splitlines (universal_newlines out))) (git_ls env)"

definition read_file :: "py_env \<Rightarrow> str \<Rightarrow> str option" where
  "read_file env path = map_option universal_newlines (text_of env path)"

section \<open>The checks\<close>

text \<open>The loops that most of the checks share: over the files that are not skipped and can be read, and over the
  numbered lines of such a file.\<close>

definition each_file ::
  "py_env \<Rightarrow> (str \<Rightarrow> bool) \<Rightarrow> (str \<Rightarrow> str \<Rightarrow> violation list) \<Rightarrow> str list \<Rightarrow> violation list" where
  "each_file env skip body files =
     concat (map (\<lambda>f. if skip f then [] else (case read_file env f of None \<Rightarrow> [] | Some content \<Rightarrow> body f content)) files)"

definition numbered :: "(str \<Rightarrow> string list) \<Rightarrow> str \<Rightarrow> str \<Rightarrow> violation list" where
  "numbered msgs f content =
     concat (map (\<lambda>(i, line). map (\<lambda>m. (f, Some i, m)) (msgs line)) (enumerate1 (splitlines content)))"

definition report_if :: "bool \<Rightarrow> 'a \<Rightarrow> 'a list" where
  "report_if b x = (if b then [x] else [])"

definition check_ws :: "py_env \<Rightarrow> str list \<Rightarrow> violation list" where
  "check_ws env = each_file env (\<lambda>_. False) (numbered (\<lambda>line.
     report_if (in_str (lit ''  '') line) ''double space'' @
     report_if (endswith line (lit '' '') \<or> endswith line [9]) ''trailing whitespace''))"

definition check_ace_include :: "py_env \<Rightarrow> str list \<Rightarrow> violation list" where
  "check_ace_include env = each_file env (\<lambda>_. False) (numbered (\<lambda>line.
     report_if (in_str (lit ''include\"ace'') line \<or> in_str (lit ''include \"ace'') line) ''bad ACE include style''))"

definition check_include :: "py_env \<Rightarrow> str list \<Rightarrow> violation list" where
  "check_include env = each_file env (\<lambda>_. False) (numbered (\<lambda>line.
    (let stripped = lstrip line
     in if \<not> startswith stripped (lit ''#include'') then []
        else let after = drop (length (lit ''#include'')) stripped
             in report_if (after \<noteq> [] \<and> hd after \<noteq> 32 \<and> hd after \<noteq> 9) ''#include not followed by space'' @
                report_if (startswith after (lit ''  '')) ''#include followed by double space'')))"

definition license_path :: str where
  "license_path = lit ''support/license_new.txt''"

definition spdx_line :: str where
  "spdx_line = lit ''// SPDX-License-Identifier: GPL-2.0''"

definition has_license :: "str \<Rightarrow> str \<Rightarrow> bool" where
  "has_license license_text content \<longleftrightarrow> startswith content license_text \<or>
    (let lines = split_nl content
     in hd lines = spdx_line \<and> startswith (join_nl (tl lines)) license_text)"

definition check_license :: "py_env \<Rightarrow> str list \<Rightarrow> violation list option" where
  "check_license env files =
    (if \<not> path_exists env license_path then Some [(license_path, None, ''license file not found'')]
     else (case read_file env license_path of
        None \<Rightarrow> None
      | Some license_text \<Rightarrow> Some (each_file env (\<lambda>_. False) (\<lambda>path content.
          report_if (\<not> has_license license_text content) (path, None, ''missing or wrong license header'')) files)))"

definition check_exit :: "py_env \<Rightarrow> str list \<Rightarrow> violation list" where
  "check_exit env = each_file env (\<lambda>_. False) (numbered (\<lambda>line.
     report_if (in_str (lit ''exit(1)'') line) ''use EXIT_FAILURE instead of exit(1)''))"

fun first_include_found :: "str list \<Rightarrow> bool" where
  "first_include_found [] \<longleftrightarrow> False"
| "first_include_found (line # lines) \<longleftrightarrow>
    (if strip line = lit ''#include <firstinclude.h>'' then True
     else let stripped = strip line
          in if stripped = [] \<or> startswith stripped (lit ''/*'') \<or> startswith stripped (lit ''*'') \<or>
               startswith stripped (lit ''//'')
             then first_include_found lines
             else False)"

definition check_firstinclude :: "py_env \<Rightarrow> str list \<Rightarrow> violation list" where
  "check_firstinclude env = each_file env (\<lambda>f. \<exists>excl \<in> set FIRSTINCLUDE_EXCLUDES. in_str excl f) (\<lambda>f content.
     report_if (\<not> first_include_found (splitlines content)) (f, None, ''missing #include <firstinclude.h>''))"

definition check_perror :: "py_env \<Rightarrow> str list \<Rightarrow> violation list" where
  "check_perror env = each_file env (\<lambda>f. in_str (lit ''err_utils.h'') f \<or> in_str (lit ''perror.cc'') f) (numbered (\<lambda>line.
     report_if (in_str (lit ''perror'') line \<and> \<not> in_str (lit ''assert_perror'') line) ''use err_utils.h instead of perror''))"

definition check_fixme :: "py_env \<Rightarrow> str list \<Rightarrow> violation list" where
  "check_fixme env = each_file env (\<lambda>_. False) (numbered (\<lambda>line.
     report_if (in_str (lit ''FIXME'') line) ''FIXME found''))"

definition check_while1 :: "py_env \<Rightarrow> str list \<Rightarrow> violation list" where
  "check_while1 env = each_file env (\<lambda>_. False) (numbered (\<lambda>line.
     report_if (in_str (lit ''while(1)'') line) ''use while(true) instead of while(1)''))"

definition check_usage :: "py_env \<Rightarrow> str list \<Rightarrow> violation list" where
  "check_usage env = each_file env (\<lambda>_. False) (numbered (\<lambda>line.
     report_if (in_str (lit ''\"usage'') (lower line) \<and> in_str (lit ''stderr'') line) ''usage message to stderr''))"

definition check_pthread :: "py_env \<Rightarrow> str list \<Rightarrow> violation list" where
  "check_pthread env = each_file env (\<lambda>_. False) (numbered (\<lambda>line.
     report_if (in_str (lit ''CHECK_ZERO(pthread'') line) ''use CHECK_ZERO_ERRNO for pthread functions''))"

definition check_usage_2 :: "py_env \<Rightarrow> str list \<Rightarrow> violation list" where
  "check_usage_2 env = each_file env (\<lambda>_. False) (numbered (\<lambda>line.
     report_if (in_str (lit ''Usage'') line) ''Usage found (use lowercase)''))"

definition check_exitzero :: "py_env \<Rightarrow> str list \<Rightarrow> violation list" where
  "check_exitzero env = each_file env (\<lambda>_. False) (numbered (\<lambda>line.
     report_if (in_str (lit ''exit(0)'') line) ''use EXIT_SUCCESS instead of exit(0)''))"

definition includes_helper :: "str \<Rightarrow> bool" where
  "includes_helper line \<longleftrightarrow> in_str (lit ''include'') line \<and> in_str (lit ''us_helper'') line"

definition check_check_header :: "py_env \<Rightarrow> str list \<Rightarrow> violation list" where
  "check_check_header env = each_file env (\<lambda>_. False) (\<lambda>f content.
     if in_str (lit ''us_helper'') content \<and> in_str (lit ''CHECK'') content
     then (case find (\<lambda>(i, line). includes_helper line) (enumerate1 (splitlines content)) of
             Some (i, line) \<Rightarrow> [(f, Some i, ''us_helper.h included but CHECK_ macros used'')]
           | None \<Rightarrow> [])
     else [])"

definition check_for :: "py_env \<Rightarrow> str list \<Rightarrow> violation list" where
  "check_for env = each_file env (in_str (lit ''kernel'')) (numbered (\<lambda>line.
     report_if (in_str (lit ''for ('') line) ''use for( not for (''))"

definition check_semisemi :: "py_env \<Rightarrow> str list \<Rightarrow> violation list" where
  "check_semisemi env = each_file env (\<lambda>_. False) (numbered (\<lambda>line.
     report_if (in_str (lit '';;'') line) ''double semicolon''))"

text \<open>\<open>re.compile(r"\s+return\(").search\<close>: the match of a run of white space cannot end earlier than the run,
  because the next letter is none.\<close>

fun search_return :: "str \<Rightarrow> bool" where
  "search_return [] \<longleftrightarrow> False"
| "search_return (c # s) \<longleftrightarrow>
     py_isspace c \<and> startswith (dropWhile py_isspace s) (lit ''return('') \<or> search_return s"

definition check_return :: "py_env \<Rightarrow> str list \<Rightarrow> violation list" where
  "check_return env = each_file env (\<lambda>_. False) (numbered (\<lambda>line.
     report_if (search_return line) ''use return x not return(x)''))"

definition check_braces :: "py_env \<Rightarrow> str list \<Rightarrow> violation list" where
  "check_braces env = each_file env (\<lambda>f. \<not> (\<exists>d \<in> set BRACE_CHECK_DIRS. startswith f d)) (numbered (\<lambda>line.
     report_if (startswith line (lit ''{'')) ''opening brace on its own line''))"

definition check_ace :: "py_env \<Rightarrow> str list \<Rightarrow> violation list" where
  "check_ace env = each_file env (\<lambda>_. False) (numbered (\<lambda>line.
     concat (map (\<lambda>pat. report_if (in_str (lit pat) line) (''use standard equivalent instead of '' @ pat))
       [''ACE_TMAIN'', ''ACE_TCHAR'', ''ACE_TEXT''])))"

definition check_no_std :: "py_env \<Rightarrow> str list \<Rightarrow> violation list" where
  "check_no_std env = each_file env (\<lambda>_. False) (\<lambda>f content.
     report_if (in_str (lit ''std::'') content) (f, None, ''contains std::''))"

text \<open>\<open>glob.glob\<close> of the pattern \<open>solution*.c*\<close> in a directory.\<close>

definition glob_solutions :: "py_env \<Rightarrow> str \<Rightarrow> str list" where
  "glob_solutions env root =
     filter (\<lambda>name. startswith name (lit ''solution'') \<and> in_str (lit ''.c'') (drop (length (lit ''solution'')) name))
       (dir_names env root)"

definition unsolved :: "py_env \<Rightarrow> str list \<Rightarrow> str list" where
  "unsolved env roots =
     concat (map (\<lambda>root. let exercise = path_join root (lit ''exercise.md'')
        in report_if (path_exists env exercise \<and> glob_solutions env root = []) exercise) roots)"

definition exercises_root :: str where
  "exercises_root = lit ''src/exercises''"

definition check_have_solutions :: "py_env \<Rightarrow> violation list" where
  "check_have_solutions env =
     (if \<not> is_dir env exercises_root then []
      else map (\<lambda>exercise. (exercise, None, ''no solution file found'')) (unsolved env (walk_roots env exercises_root)))"

section \<open>The scripts\<close>

definition ALL_CHECKS :: "(string \<times> (py_env \<Rightarrow> str list \<Rightarrow> violation list option)) list" where
  "ALL_CHECKS =
     [(''check_ws'', \<lambda>env fs. Some (check_ws env fs)), (''check_ace_include'', \<lambda>env fs. Some (check_ace_include env fs)),
      (''check_include'', \<lambda>env fs. Some (check_include env fs)), (''check_license'', check_license),
      (''check_exit'', \<lambda>env fs. Some (check_exit env fs)), (''check_firstinclude'', \<lambda>env fs. Some (check_firstinclude env fs)),
      (''check_perror'', \<lambda>env fs. Some (check_perror env fs)), (''check_fixme'', \<lambda>env fs. Some (check_fixme env fs)),
      (''check_while1'', \<lambda>env fs. Some (check_while1 env fs)), (''check_usage'', \<lambda>env fs. Some (check_usage env fs)),
      (''check_pthread'', \<lambda>env fs. Some (check_pthread env fs)), (''check_usage_2'', \<lambda>env fs. Some (check_usage_2 env fs)),
      (''check_exitzero'', \<lambda>env fs. Some (check_exitzero env fs)),
      (''check_check_header'', \<lambda>env fs. Some (check_check_header env fs)),
      (''check_for'', \<lambda>env fs. Some (check_for env fs)), (''check_semisemi'', \<lambda>env fs. Some (check_semisemi env fs)),
      (''check_return'', \<lambda>env fs. Some (check_return env fs)), (''check_braces'', \<lambda>env fs. Some (check_braces env fs)),
      (''check_ace'', \<lambda>env fs. Some (check_ace env fs)), (''check_no_std'', \<lambda>env fs. Some (check_no_std env fs))]"

fun run_checks ::
  "py_env \<Rightarrow> str list \<Rightarrow> (string \<times> (py_env \<Rightarrow> str list \<Rightarrow> violation list option)) list \<Rightarrow>
    (string \<times> violation list) list option" where
  "run_checks env files [] = Some []"
| "run_checks env files ((name, check_func) # checks) =
    (case check_func env files of
       None \<Rightarrow> None
     | Some errors \<Rightarrow>
         map_option (\<lambda>all_errors. if errors \<noteq> [] then (name, errors) # all_errors else all_errors)
           (run_checks env files checks))"

datatype report_line = CheckHead string nat | Violation violation | Blank | Total nat nat

datatype script_end = Exit int "report_line list" | Raised

definition check_all_main :: "py_env \<Rightarrow> script_end" where
  "check_all_main env =
    (case git_tracked_sources env of
       None \<Rightarrow> Raised
     | Some files \<Rightarrow>
        (case run_checks env files ALL_CHECKS of
           None \<Rightarrow> Raised
         | Some all_errors \<Rightarrow>
             let errors = check_have_solutions env;
                 all_errors = (if errors \<noteq> [] then all_errors @ [(''check_have_solutions'', errors)] else all_errors)
             in if all_errors \<noteq> []
                then Exit 1
                  (concat (map (\<lambda>(name, errors). CheckHead name (length errors) # map Violation errors @ [Blank]) all_errors) @
                   [Total (length all_errors) (sum_list (map (\<lambda>(_, e). length e) all_errors))])
                else Exit 0 []))"

text \<open>\<open>check_have_solutions.py\<close> walks the same tree and prints the exercises.\<close>

definition have_solutions_main :: "py_env \<Rightarrow> int \<times> str list" where
  "have_solutions_main env =
    (let errors = unsolved env (walk_roots env exercises_root)
     in if errors \<noteq> [] then (1, errors) else (0, []))"

section \<open>The rules\<close>

text \<open>What the script is there to report, said without the loops and searches of the code. A line of a file can
  break a rule, \<open>line_rule\<close>; one message is given once for a file, at its first line of the kind; the rest
  concerns files as a whole.\<close>

definition has :: "string \<Rightarrow> str \<Rightarrow> bool" where
  "has w s \<longleftrightarrow> sublist (lit w) s"

definition line_rule :: "str \<Rightarrow> str \<Rightarrow> string \<Rightarrow> bool" where
  "line_rule f line m \<longleftrightarrow>
     m = ''double space'' \<and> has ''  '' line \<or>
     m = ''trailing whitespace'' \<and> (\<exists>p. line = p @ [32] \<or> line = p @ [9]) \<or>
     m = ''bad ACE include style'' \<and> (has ''include\"ace'' line \<or> has ''include \"ace'' line) \<or>
     m = ''#include not followed by space'' \<and>
       (\<exists>ws c rest. list_all py_isspace ws \<and> line = ws @ lit ''#include'' @ c # rest \<and> c \<noteq> 32 \<and> c \<noteq> 9) \<or>
     m = ''#include followed by double space'' \<and>
       (\<exists>ws rest. list_all py_isspace ws \<and> line = ws @ lit ''#include'' @ [32, 32] @ rest) \<or>
     m = ''use EXIT_FAILURE instead of exit(1)'' \<and> has ''exit(1)'' line \<or>
     m = ''use err_utils.h instead of perror'' \<and> \<not> has ''err_utils.h'' f \<and> \<not> has ''perror.cc'' f \<and>
       has ''perror'' line \<and> \<not> has ''assert_perror'' line \<or>
     m = ''FIXME found'' \<and> has ''FIXME'' line \<or>
     m = ''use while(true) instead of while(1)'' \<and> has ''while(1)'' line \<or>
     m = ''usage message to stderr'' \<and> has ''\"usage'' (lower line) \<and> has ''stderr'' line \<or>
     m = ''use CHECK_ZERO_ERRNO for pthread functions'' \<and> has ''CHECK_ZERO(pthread'' line \<or>
     m = ''Usage found (use lowercase)'' \<and> has ''Usage'' line \<or>
     m = ''use EXIT_SUCCESS instead of exit(0)'' \<and> has ''exit(0)'' line \<or>
     m = ''use for( not for ('' \<and> \<not> has ''kernel'' f \<and> has ''for ('' line \<or>
     m = ''double semicolon'' \<and> has '';;'' line \<or>
     m = ''use return x not return(x)'' \<and> (\<exists>p c q. py_isspace c \<and> line = p @ c # lit ''return('' @ q) \<or>
     m = ''opening brace on its own line'' \<and> (\<exists>d \<in> set BRACE_CHECK_DIRS. prefix d f) \<and> prefix (lit ''{'') line \<or>
     (\<exists>pat \<in> {''ACE_TMAIN'', ''ACE_TCHAR'', ''ACE_TEXT''}.
        m = ''use standard equivalent instead of '' @ pat \<and> has pat line)"

definition helper_line :: "str \<Rightarrow> bool" where
  "helper_line line \<longleftrightarrow> has ''include'' line \<and> has ''us_helper'' line"

definition skipped_line :: "str \<Rightarrow> bool" where
  "skipped_line line \<longleftrightarrow> strip line = [] \<or> (\<exists>c \<in> {''/*'', ''*'', ''//''}. prefix (lit c) (strip line))"

definition licensed :: "str \<Rightarrow> str \<Rightarrow> bool" where
  "licensed license_text content \<longleftrightarrow>
     prefix license_text content \<or>
     prefix (spdx_line @ 10 # license_text) content"

definition file_rule :: "py_env \<Rightarrow> str \<Rightarrow> str \<Rightarrow> string \<Rightarrow> bool" where
  "file_rule env f content m \<longleftrightarrow>
     m = ''missing or wrong license header'' \<and>
       (\<exists>license_text. path_exists env license_path \<and> read_file env license_path = Some license_text \<and>
          \<not> licensed license_text content) \<or>
     m = ''missing #include <firstinclude.h>'' \<and> \<not> (\<exists>excl \<in> set FIRSTINCLUDE_EXCLUDES. sublist excl f) \<and>
       \<not> (\<exists>pre line post. splitlines content = pre @ line # post \<and> list_all skipped_line pre \<and>
            strip line = lit ''#include <firstinclude.h>'') \<or>
     m = ''contains std::'' \<and> has ''std::'' content"

definition at_line :: "py_env \<Rightarrow> str list \<Rightarrow> str \<Rightarrow> nat \<Rightarrow> (str \<Rightarrow> str \<Rightarrow> bool) \<Rightarrow> bool" where
  "at_line env files f i P \<longleftrightarrow> f \<in> set files \<and>
     (\<exists>content. read_file env f = Some content \<and> 1 \<le> i \<and> i \<le> length (splitlines content) \<and>
        P content (splitlines content ! (i - 1)))"

fun violates :: "py_env \<Rightarrow> str list \<Rightarrow> violation \<Rightarrow> bool" where
  "violates env files (f, Some i, m) \<longleftrightarrow> at_line env files f i (\<lambda>content line. line_rule f line m \<or>
     m = ''us_helper.h included but CHECK_ macros used'' \<and> has ''us_helper'' content \<and> has ''CHECK'' content \<and>
       helper_line line \<and> (\<forall>j < i - 1. \<not> helper_line (splitlines content ! j)))"
| "violates env files (f, None, m) \<longleftrightarrow>
     f \<in> set files \<and> (\<exists>content. read_file env f = Some content \<and> file_rule env f content m) \<or>
     m = ''license file not found'' \<and> f = license_path \<and> \<not> path_exists env license_path \<or>
     m = ''no solution file found'' \<and> is_dir env exercises_root \<and>
       (\<exists>root \<in> set (walk_roots env exercises_root). f = path_join root (lit ''exercise.md'') \<and> path_exists env f \<and>
          \<not> (\<exists>mid post. lit ''solution'' @ mid @ lit ''.c'' @ post \<in> set (dir_names env root)))"

section \<open>Each check reports its rules\<close>

lemma each_file_iff:
  "v \<in> set (each_file env skip body files) \<longleftrightarrow>
    (\<exists>f \<in> set files. \<not> skip f \<and> (\<exists>content. read_file env f = Some content \<and> v \<in> set (body f content)))"
  unfolding each_file_def by (force split: option.splits)

lemma report_if_iff [simp]: "x \<in> set (report_if b y) \<longleftrightarrow> b \<and> x = y"
  by (auto simp: report_if_def)

lemma numbered_iff:
  "(g, loc, m) \<in> set (numbered msgs f content) \<longleftrightarrow>
    g = f \<and> (\<exists>i. loc = Some i \<and> 1 \<le> i \<and> i \<le> length (splitlines content) \<and>
      m \<in> set (msgs (splitlines content ! (i - 1))))"
proof -
  have "(g, loc, m) \<in> set (numbered msgs f content) \<longleftrightarrow>
      (\<exists>(i, line) \<in> set (enumerate1 (splitlines content)). g = f \<and> loc = Some i \<and> m \<in> set (msgs line))"
    by (auto simp: numbered_def)
  also have "\<dots> \<longleftrightarrow> g = f \<and> (\<exists>i line. (i, line) \<in> set (enumerate1 (splitlines content)) \<and> loc = Some i \<and> m \<in> set (msgs line))"
    by auto
  finally show ?thesis
    unfolding enumerate1_iff by blast
qed

lemma line_check_iff:
  "(f, Some i, m) \<in> set (each_file env skip (numbered msgs) files) \<longleftrightarrow>
    at_line env files f i (\<lambda>content line. \<not> skip f \<and> m \<in> set (msgs line))"
  by (auto simp: each_file_iff numbered_iff at_line_def)

lemma line_check_None: "(f, None, m) \<notin> set (each_file env skip (numbered msgs) files)"
  by (auto simp: each_file_iff numbered_iff)

lemma file_check_iff:
  "(f, loc, m) \<in> set (each_file env skip (\<lambda>f content. report_if (P f content) (f, None, m')) files) \<longleftrightarrow>
    loc = None \<and> m = m' \<and> f \<in> set files \<and> \<not> skip f \<and> (\<exists>content. read_file env f = Some content \<and> P f content)"
  by (auto simp: each_file_iff)

lemma at_line_disj:
  "at_line env files f i P \<or> at_line env files f i Q \<longleftrightarrow> at_line env files f i (\<lambda>content line. P content line \<or> Q content line)"
  by (auto simp: at_line_def)

lemma in_lit: "in_str (lit w) s = has w s"
  by (simp add: has_def in_str_iff)

lemma dropWhile_eq_iff:
  assumes "\<not> P x"
  shows "(\<exists>ws. list_all P ws \<and> s = ws @ x # rest) \<longleftrightarrow> dropWhile P s = x # rest"
proof
  assume "\<exists>ws. list_all P ws \<and> s = ws @ x # rest"
  then show "dropWhile P s = x # rest"
    using assms by (auto simp: list_all_iff)
next
  assume "dropWhile P s = x # rest"
  then show "\<exists>ws. list_all P ws \<and> s = ws @ x # rest"
    by (intro exI [of _ "takeWhile P s"]) (metis list_all_iff set_takeWhileD takeWhile_dropWhile_id)
qed

lemma prefix_lstrip:
  assumes "\<not> py_isspace (hd w)" and "w \<noteq> []"
  shows "prefix (w @ v) (lstrip line) \<longleftrightarrow> (\<exists>ws rest. list_all py_isspace ws \<and> line = ws @ w @ v @ rest)"
proof -
  obtain x w' where w: "w = x # w'" "\<not> py_isspace x"
    using assms by (cases w) auto
  have "prefix (w @ v) (lstrip line) \<longleftrightarrow> (\<exists>rest. dropWhile py_isspace line = x # w' @ v @ rest)"
    by (auto simp: w lstrip_def prefix_def)
  also have "\<dots> \<longleftrightarrow> (\<exists>rest ws. list_all py_isspace ws \<and> line = ws @ x # w' @ v @ rest)"
    using dropWhile_eq_iff [where P = py_isspace and x = x and s = line] w(2) by blast
  finally show ?thesis
    unfolding w by auto
qed

lemma prefix_drop: "prefix w s \<and> prefix v (drop (length w) s) \<longleftrightarrow> prefix (w @ v) s"
  by (auto simp: prefix_def)

lemma include_lit: "lit ''#include'' = 35 # lit ''include''"
  by (simp add: lit_def)

lemma include_space_iff:
  "startswith (lstrip line) (lit ''#include'') \<and> (let after = drop (length (lit ''#include'')) (lstrip line)
     in after \<noteq> [] \<and> hd after \<noteq> 32 \<and> hd after \<noteq> 9) \<longleftrightarrow>
   (\<exists>ws c rest. list_all py_isspace ws \<and> line = ws @ lit ''#include'' @ c # rest \<and> c \<noteq> 32 \<and> c \<noteq> 9)"
proof -
  have "after \<noteq> [] \<and> hd after \<noteq> 32 \<and> hd after \<noteq> 9 \<longleftrightarrow> (\<exists>c. prefix [c] after \<and> c \<noteq> 32 \<and> c \<noteq> 9)" for after :: str
    by (cases after) auto
  then have "startswith (lstrip line) (lit ''#include'') \<and> (let after = drop (length (lit ''#include'')) (lstrip line)
     in after \<noteq> [] \<and> hd after \<noteq> 32 \<and> hd after \<noteq> 9) \<longleftrightarrow>
     (\<exists>c. prefix (lit ''#include'' @ [c]) (lstrip line) \<and> c \<noteq> 32 \<and> c \<noteq> 9)"
    unfolding Let_def startswith_iff prefix_drop [symmetric] by blast
  also have "\<dots> \<longleftrightarrow> (\<exists>c ws rest. list_all py_isspace ws \<and> line = ws @ lit ''#include'' @ [c] @ rest \<and> c \<noteq> 32 \<and> c \<noteq> 9)"
    by (subst prefix_lstrip) (auto simp: include_lit py_isspace_def)
  finally show ?thesis
    by auto
qed

lemma include_double_iff:
  "startswith (lstrip line) (lit ''#include'') \<and>
     startswith (drop (length (lit ''#include'')) (lstrip line)) (lit ''  '') \<longleftrightarrow>
   (\<exists>ws rest. list_all py_isspace ws \<and> line = ws @ lit ''#include'' @ [32, 32] @ rest)"
proof -
  have "lit ''  '' = [32, 32]"
    by (simp add: lit_def)
  then show ?thesis
    unfolding startswith_iff prefix_drop
    by (simp only:) (subst prefix_lstrip; simp add: include_lit py_isspace_def)
qed

lemma search_return_iff: "search_return s \<longleftrightarrow> (\<exists>p c q. py_isspace c \<and> s = p @ c # lit ''return('' @ q)"
proof
  show "search_return s \<Longrightarrow> \<exists>p c q. py_isspace c \<and> s = p @ c # lit ''return('' @ q"
  proof (induction s)
    case (Cons c s)
    show ?case
    proof (cases "py_isspace c \<and> startswith (dropWhile py_isspace s) (lit ''return('')")
      case True
      then obtain q where "dropWhile py_isspace s = lit ''return('' @ q"
        by (auto simp: startswith_iff prefix_def)
      then have s: "c # s = (c # takeWhile py_isspace s) @ lit ''return('' @ q"
        by (metis append_Cons takeWhile_dropWhile_id)
      let ?ws = "c # takeWhile py_isspace s"
      have "py_isspace (last ?ws)" "?ws = butlast ?ws @ [last ?ws]"
        using True last_in_set [of ?ws] set_takeWhileD [of _ py_isspace s] by (auto split: if_splits)
      then show ?thesis
        using s by (metis append.assoc append_Cons append_Nil)
    next
      case False
      then obtain p d q where "py_isspace d" "s = p @ d # lit ''return('' @ q"
        using Cons by auto
      then show ?thesis
        by (metis append_Cons)
    qed
  qed simp
next
  have r: "\<not> py_isspace 114" "lit ''return('' = 114 # lit ''eturn(''"
    by (simp_all add: py_isspace_def lit_def)
  have "py_isspace c \<Longrightarrow> search_return (p @ c # lit ''return('' @ q)" for p c q
    by (induction p) (simp_all add: r startswith_iff)
  then show "\<exists>p c q. py_isspace c \<and> s = p @ c # lit ''return('' @ q \<Longrightarrow> search_return s"
    by blast
qed

lemma first_include_iff:
  "first_include_found lines \<longleftrightarrow>
    (\<exists>pre line post. lines = pre @ line # post \<and> list_all skipped_line pre \<and> strip line = lit ''#include <firstinclude.h>'')"
proof (induction lines)
  case (Cons line lines)
  have s: "skipped_line line \<longleftrightarrow> strip line = [] \<or> startswith (strip line) (lit ''/*'') \<or>
      startswith (strip line) (lit ''*'') \<or> startswith (strip line) (lit ''//'')"
    by (simp add: skipped_line_def startswith_iff)
  show ?case
  proof
    assume "first_include_found (line # lines)"
    then consider "strip line = lit ''#include <firstinclude.h>''" | "skipped_line line" "first_include_found lines"
      using s by (auto simp: Let_def split: if_splits)
    then show "\<exists>pre l post. line # lines = pre @ l # post \<and> list_all skipped_line pre \<and> strip l = lit ''#include <firstinclude.h>''"
    proof cases
      case 1
      then have "line # lines = [] @ line # lines \<and> list_all skipped_line [] \<and> strip line = lit ''#include <firstinclude.h>''"
        by simp
      then show ?thesis
        by blast
    next
      case 2
      then obtain pre l post where "lines = pre @ l # post" "list_all skipped_line pre"
        "strip l = lit ''#include <firstinclude.h>''"
        using Cons.IH by blast
      with 2(1) have "line # lines = (line # pre) @ l # post \<and> list_all skipped_line (line # pre) \<and>
          strip l = lit ''#include <firstinclude.h>''"
        by simp
      then show ?thesis
        by blast
    qed
  next
    assume "\<exists>pre l post. line # lines = pre @ l # post \<and> list_all skipped_line pre \<and> strip l = lit ''#include <firstinclude.h>''"
    then obtain pre l post where p: "line # lines = pre @ l # post" "list_all skipped_line pre"
      "strip l = lit ''#include <firstinclude.h>''" by blast
    then show "first_include_found (line # lines)"
      using Cons.IH s by (cases pre) (auto simp: Let_def)
  qed
qed simp

lemma enumerate1_nth: "k < length xs \<Longrightarrow> enumerate1 xs ! k = (Suc k, xs ! k)"
  by (simp add: enumerate1_def del: upt_Suc)

lemma length_enumerate1 [simp]: "length (enumerate1 xs) = length xs"
  by (simp add: enumerate1_def del: upt_Suc)

lemma find_enumerate1:
  "find (\<lambda>(i, l). P l) (enumerate1 xs) = Some (i, l) \<longleftrightarrow>
    1 \<le> i \<and> i \<le> length xs \<and> l = xs ! (i - 1) \<and> P l \<and> (\<forall>j < i - 1. \<not> P (xs ! j))"
proof -
  have "find (\<lambda>(i, l). P l) (enumerate1 xs) = Some (i, l) \<longleftrightarrow>
      (\<exists>k < length xs. i = Suc k \<and> l = xs ! k \<and> P l \<and> (\<forall>j < k. \<not> P (xs ! j)))"
    unfolding find_Some_iff by (auto simp: enumerate1_nth)
  also have "\<dots> \<longleftrightarrow> 1 \<le> i \<and> i \<le> length xs \<and> l = xs ! (i - 1) \<and> P l \<and> (\<forall>j < i - 1. \<not> P (xs ! j))"
    by (cases i) auto
  finally show ?thesis .
qed

lemma check_header_iff:
  "(f, loc, m) \<in> set (check_check_header env files) \<longleftrightarrow> (\<exists>i. loc = Some i \<and> at_line env files f i (\<lambda>content line.
     m = ''us_helper.h included but CHECK_ macros used'' \<and> has ''us_helper'' content \<and> has ''CHECK'' content \<and>
     helper_line line \<and> (\<forall>j < i - 1. \<not> helper_line (splitlines content ! j))))"
proof -
  have "(g, loc, m) \<in> set (case find (\<lambda>(i, line). helper_line line) (enumerate1 (splitlines content)) of
       Some (i, line) \<Rightarrow> [(f, Some i, msg)] | None \<Rightarrow> []) \<longleftrightarrow>
     g = f \<and> m = msg \<and> (\<exists>i. loc = Some i \<and> 1 \<le> i \<and> i \<le> length (splitlines content) \<and>
       helper_line (splitlines content ! (i - 1)) \<and> (\<forall>j < i - 1. \<not> helper_line (splitlines content ! j)))"
    for f g :: str and content msg
  proof -
    have "(g, loc, m) \<in> set (case find (\<lambda>(i, line). helper_line line) (enumerate1 (splitlines content)) of
         Some (i, line) \<Rightarrow> [(f, Some i, msg)] | None \<Rightarrow> []) \<longleftrightarrow>
       g = f \<and> m = msg \<and> (\<exists>i l. loc = Some i \<and> find (\<lambda>(i, line). helper_line line) (enumerate1 (splitlines content)) = Some (i, l))"
      by (cases "find (\<lambda>(i, line). helper_line line) (enumerate1 (splitlines content))") auto
    then show ?thesis
      by (simp add: find_enumerate1)
  qed
  note h = this
  have helper: "includes_helper = helper_line"
    by (simp add: fun_eq_iff includes_helper_def helper_line_def in_lit)
  have c: "check_check_header env files = each_file env (\<lambda>_. False) (\<lambda>f content.
     if has ''us_helper'' content \<and> has ''CHECK'' content
     then (case find (\<lambda>(i, line). helper_line line) (enumerate1 (splitlines content)) of
             Some (i, line) \<Rightarrow> [(f, Some i, ''us_helper.h included but CHECK_ macros used'')] | None \<Rightarrow> [])
     else []) files"
    by (simp add: check_check_header_def in_lit helper cong: if_cong)
  have body: "(g, loc, m) \<in> set (if B then (case find (\<lambda>(i, line). helper_line line) (enumerate1 (splitlines content)) of
       Some (i, line) \<Rightarrow> [(f, Some i, msg)] | None \<Rightarrow> []) else []) \<longleftrightarrow>
     B \<and> g = f \<and> m = msg \<and> (\<exists>i. loc = Some i \<and> 1 \<le> i \<and> i \<le> length (splitlines content) \<and>
       helper_line (splitlines content ! (i - 1)) \<and> (\<forall>j < i - 1. \<not> helper_line (splitlines content ! j)))"
    for f g :: str and content msg B
    by (simp only: h split: if_split) simp
  have "(f, loc, m) \<in> set (check_check_header env files) \<longleftrightarrow> f \<in> set files \<and> (\<exists>content. read_file env f = Some content \<and>
      has ''us_helper'' content \<and> has ''CHECK'' content \<and> m = ''us_helper.h included but CHECK_ macros used'' \<and>
      (\<exists>i. loc = Some i \<and> 1 \<le> i \<and> i \<le> length (splitlines content) \<and>
       helper_line (splitlines content ! (i - 1)) \<and> (\<forall>j < i - 1. \<not> helper_line (splitlines content ! j))))"
    unfolding c each_file_iff body by blast
  then show ?thesis
    unfolding at_line_def by blast
qed

lemma include_msgs_iff:
  "m \<in> set (let stripped = lstrip line
     in if \<not> startswith stripped (lit ''#include'') then []
        else let after = drop (length (lit ''#include'')) stripped
             in report_if (after \<noteq> [] \<and> hd after \<noteq> 32 \<and> hd after \<noteq> 9) ''#include not followed by space'' @
                report_if (startswith after (lit ''  '')) ''#include followed by double space'') \<longleftrightarrow>
   m = ''#include not followed by space'' \<and>
     (\<exists>ws c rest. list_all py_isspace ws \<and> line = ws @ lit ''#include'' @ c # rest \<and> c \<noteq> 32 \<and> c \<noteq> 9) \<or>
   m = ''#include followed by double space'' \<and>
     (\<exists>ws rest. list_all py_isspace ws \<and> line = ws @ lit ''#include'' @ [32, 32] @ rest)"
  unfolding include_space_iff [symmetric] include_double_iff [symmetric] by (auto simp: Let_def)

lemma suffix_char: "suffix [c] line \<longleftrightarrow> (\<exists>p. line = p @ [c])"
  by (auto simp: suffix_def)

lemmas line_checks =
  check_ws_def check_ace_include_def check_include_def check_exit_def check_perror_def check_fixme_def check_while1_def
  check_usage_def check_pthread_def check_usage_2_def check_exitzero_def check_for_def check_semisemi_def
  check_return_def check_braces_def check_ace_def

lemma checks_at_line:
  "(f, Some i, m) \<in> set (check_ws env files) \<longleftrightarrow> at_line env files f i (\<lambda>_ line.
     m = ''double space'' \<and> has ''  '' line \<or> m = ''trailing whitespace'' \<and> (\<exists>p. line = p @ [32] \<or> line = p @ [9]))"
  "(f, Some i, m) \<in> set (check_include env files) \<longleftrightarrow> at_line env files f i (\<lambda>_ line.
     m = ''#include not followed by space'' \<and>
       (\<exists>ws c rest. list_all py_isspace ws \<and> line = ws @ lit ''#include'' @ c # rest \<and> c \<noteq> 32 \<and> c \<noteq> 9) \<or>
     m = ''#include followed by double space'' \<and>
       (\<exists>ws rest. list_all py_isspace ws \<and> line = ws @ lit ''#include'' @ [32, 32] @ rest))"
  "(f, Some i, m) \<in> set (check_ace env files) \<longleftrightarrow> at_line env files f i (\<lambda>_ line.
     \<exists>pat \<in> {''ACE_TMAIN'', ''ACE_TCHAR'', ''ACE_TEXT''}. m = ''use standard equivalent instead of '' @ pat \<and> has pat line)"
proof -
  have "lit '' '' = [32]"
    by (simp add: lit_def)
  then show "(f, Some i, m) \<in> set (check_ws env files) \<longleftrightarrow> at_line env files f i (\<lambda>_ line.
     m = ''double space'' \<and> has ''  '' line \<or> m = ''trailing whitespace'' \<and> (\<exists>p. line = p @ [32] \<or> line = p @ [9]))"
    unfolding check_ws_def line_check_iff
    by (intro arg_cong [where f = "at_line env files f i"] ext) (auto simp: in_lit endswith_iff suffix_char)
  show "(f, Some i, m) \<in> set (check_include env files) \<longleftrightarrow> at_line env files f i (\<lambda>_ line.
     m = ''#include not followed by space'' \<and>
       (\<exists>ws c rest. list_all py_isspace ws \<and> line = ws @ lit ''#include'' @ c # rest \<and> c \<noteq> 32 \<and> c \<noteq> 9) \<or>
     m = ''#include followed by double space'' \<and>
       (\<exists>ws rest. list_all py_isspace ws \<and> line = ws @ lit ''#include'' @ [32, 32] @ rest))"
    unfolding check_include_def line_check_iff include_msgs_iff by simp
  show "(f, Some i, m) \<in> set (check_ace env files) \<longleftrightarrow> at_line env files f i (\<lambda>_ line.
     \<exists>pat \<in> {''ACE_TMAIN'', ''ACE_TCHAR'', ''ACE_TEXT''}. m = ''use standard equivalent instead of '' @ pat \<and> has pat line)"
    unfolding check_ace_def line_check_iff
    by (intro arg_cong [where f = "at_line env files f i"] ext) (auto simp: in_lit)
qed

lemma simple_checks_at_line:
  "(f, Some i, m) \<in> set (check_ace_include env files) \<longleftrightarrow> at_line env files f i (\<lambda>_ line.
     m = ''bad ACE include style'' \<and> (has ''include\"ace'' line \<or> has ''include \"ace'' line))"
  "(f, Some i, m) \<in> set (check_exit env files) \<longleftrightarrow> at_line env files f i (\<lambda>_ line.
     m = ''use EXIT_FAILURE instead of exit(1)'' \<and> has ''exit(1)'' line)"
  "(f, Some i, m) \<in> set (check_perror env files) \<longleftrightarrow> at_line env files f i (\<lambda>_ line.
     m = ''use err_utils.h instead of perror'' \<and> \<not> has ''err_utils.h'' f \<and> \<not> has ''perror.cc'' f \<and>
     has ''perror'' line \<and> \<not> has ''assert_perror'' line)"
  "(f, Some i, m) \<in> set (check_fixme env files) \<longleftrightarrow> at_line env files f i (\<lambda>_ line.
     m = ''FIXME found'' \<and> has ''FIXME'' line)"
  "(f, Some i, m) \<in> set (check_while1 env files) \<longleftrightarrow> at_line env files f i (\<lambda>_ line.
     m = ''use while(true) instead of while(1)'' \<and> has ''while(1)'' line)"
  "(f, Some i, m) \<in> set (check_usage env files) \<longleftrightarrow> at_line env files f i (\<lambda>_ line.
     m = ''usage message to stderr'' \<and> has ''\"usage'' (lower line) \<and> has ''stderr'' line)"
  "(f, Some i, m) \<in> set (check_pthread env files) \<longleftrightarrow> at_line env files f i (\<lambda>_ line.
     m = ''use CHECK_ZERO_ERRNO for pthread functions'' \<and> has ''CHECK_ZERO(pthread'' line)"
  "(f, Some i, m) \<in> set (check_usage_2 env files) \<longleftrightarrow> at_line env files f i (\<lambda>_ line.
     m = ''Usage found (use lowercase)'' \<and> has ''Usage'' line)"
  "(f, Some i, m) \<in> set (check_exitzero env files) \<longleftrightarrow> at_line env files f i (\<lambda>_ line.
     m = ''use EXIT_SUCCESS instead of exit(0)'' \<and> has ''exit(0)'' line)"
  "(f, Some i, m) \<in> set (check_for env files) \<longleftrightarrow> at_line env files f i (\<lambda>_ line.
     m = ''use for( not for ('' \<and> \<not> has ''kernel'' f \<and> has ''for ('' line)"
  "(f, Some i, m) \<in> set (check_semisemi env files) \<longleftrightarrow> at_line env files f i (\<lambda>_ line.
     m = ''double semicolon'' \<and> has '';;'' line)"
  "(f, Some i, m) \<in> set (check_return env files) \<longleftrightarrow> at_line env files f i (\<lambda>_ line.
     m = ''use return x not return(x)'' \<and> (\<exists>p c q. py_isspace c \<and> line = p @ c # lit ''return('' @ q))"
  "(f, Some i, m) \<in> set (check_braces env files) \<longleftrightarrow> at_line env files f i (\<lambda>_ line.
     m = ''opening brace on its own line'' \<and> (\<exists>d \<in> set BRACE_CHECK_DIRS. prefix d f) \<and> prefix (lit ''{'') line)"
  unfolding line_checks line_check_iff report_if_iff in_lit startswith_iff search_return_iff
  by (simp_all only: conj_ac simp_thms de_Morgan_disj)

lemma spdx_no_newline: "10 \<notin> set spdx_line"
  by (simp add: spdx_line_def lit_def)

lemma newline_unique:
  "l @ 10 # r = l' @ 10 # r' \<Longrightarrow> 10 \<notin> set l \<Longrightarrow> 10 \<notin> set l' \<Longrightarrow> l = l' \<and> r = r'" for l :: str
proof (induction l arbitrary: l')
  case Nil
  then show ?case by (cases l') auto
next
  case (Cons c l)
  then show ?case by (cases l') auto
qed

lemma has_license_iff: "has_license license_text content \<longleftrightarrow> licensed license_text content"
proof (cases "10 \<in> set content")
  case True
  then obtain l rest where c: "content = l @ 10 # rest" "10 \<notin> set l"
    by (meson split_list_first)
  have "takeWhile (\<lambda>c. c \<noteq> 10) (l @ 10 # rest) = l" "dropWhile (\<lambda>c. c \<noteq> 10) (l @ 10 # rest) = 10 # rest"
    using c(2) by (induction l) auto
  then have "split_nl content = l # split_nl rest"
    unfolding c(1) by (subst split_nl_Cons) simp
  moreover have "prefix (spdx_line @ 10 # license_text) content \<longleftrightarrow> l = spdx_line \<and> prefix license_text rest"
  proof
    assume "prefix (spdx_line @ 10 # license_text) content"
    then obtain z where "spdx_line @ 10 # license_text @ z = l @ 10 # rest"
      using c by (auto simp: prefix_def)
    then have "l = spdx_line \<and> rest = license_text @ z"
      using newline_unique c(2) spdx_no_newline by metis
    then show "l = spdx_line \<and> prefix license_text rest"
      by simp
  qed (use c in \<open>auto simp: prefix_def\<close>)
  ultimately show ?thesis
    by (simp add: has_license_def licensed_def startswith_iff join_split_nl)
next
  case False
  then have "split_nl content = [content]"
    by (subst split_nl_Cons) auto
  moreover have "\<not> prefix (spdx_line @ 10 # license_text) content"
    using False by (auto simp: prefix_def)
  ultimately show ?thesis
    by (auto simp: has_license_def licensed_def startswith_iff)
qed

lemma license_check_iff:
  "check_license env files = Some es \<Longrightarrow> (f, loc, m) \<in> set es \<longleftrightarrow> loc = None \<and>
     (m = ''license file not found'' \<and> f = license_path \<and> \<not> path_exists env license_path \<or>
      m = ''missing or wrong license header'' \<and> f \<in> set files \<and> (\<exists>content. read_file env f = Some content \<and>
        (\<exists>license_text. path_exists env license_path \<and> read_file env license_path = Some license_text \<and>
          \<not> licensed license_text content)))"
  by (auto simp: check_license_def file_check_iff has_license_iff split: if_splits option.splits)

lemma solutions_iff:
  "(f, loc, m) \<in> set (check_have_solutions env) \<longleftrightarrow> loc = None \<and>
     m = ''no solution file found'' \<and> is_dir env exercises_root \<and>
       (\<exists>root \<in> set (walk_roots env exercises_root). f = path_join root (lit ''exercise.md'') \<and> path_exists env f \<and>
          \<not> (\<exists>mid post. lit ''solution'' @ mid @ lit ''.c'' @ post \<in> set (dir_names env root)))"
proof -
  have "glob_solutions env root = [] \<longleftrightarrow>
      \<not> (\<exists>mid post. lit ''solution'' @ mid @ lit ''.c'' @ post \<in> set (dir_names env root))" for root
    by (auto simp: glob_solutions_def filter_empty_conv startswith_iff in_str_iff sublist_def prefix_def)
      (metis append_eq_conv_conj)
  then have "f \<in> set (unsolved env roots) \<longleftrightarrow> (\<exists>root \<in> set roots. f = path_join root (lit ''exercise.md'') \<and> path_exists env f \<and>
      \<not> (\<exists>mid post. lit ''solution'' @ mid @ lit ''.c'' @ post \<in> set (dir_names env root)))" for roots
    by (auto simp: unsolved_def Let_def)
  moreover have "(f, loc, m) \<in> set (check_have_solutions env) \<longleftrightarrow> loc = None \<and> m = ''no solution file found'' \<and>
      is_dir env exercises_root \<and> f \<in> set (unsolved env (walk_roots env exercises_root))"
    by (auto simp: check_have_solutions_def)
  ultimately show ?thesis
    by blast
qed

section \<open>The report\<close>

lemma run_checks_iff:
  "run_checks env files checks = Some all_errors \<Longrightarrow>
    (\<exists>name errors. (name, errors) \<in> set all_errors \<and> v \<in> set errors) \<longleftrightarrow>
    (\<exists>(name, check) \<in> set checks. \<exists>errors. check env files = Some errors \<and> v \<in> set errors)"
proof (induction checks arbitrary: all_errors)
  case (Cons c checks)
  obtain name check where c: "c = (name, check)"
    by (cases c)
  with Cons.prems obtain errors rest where "check env files = Some errors" "run_checks env files checks = Some rest"
    "all_errors = (if errors \<noteq> [] then (name, errors) # rest else rest)"
    by (auto split: option.splits)
  then show ?case
    using Cons.IH [of rest] c by (cases "errors = []") (simp_all, blast)
qed simp

lemma run_checks_nonempty:
  "run_checks env files checks = Some all_errors \<Longrightarrow> (name, errors) \<in> set all_errors \<Longrightarrow> errors \<noteq> []"
  by (induction checks arbitrary: all_errors) (auto split: option.splits if_splits)

lemma run_checks_total:
  "\<forall>(name, check) \<in> set checks. check env files \<noteq> None \<Longrightarrow> \<exists>all_errors. run_checks env files checks = Some all_errors"
  by (induction checks) (auto split: option.splits)

lemma all_checks_Some:
  assumes "check_license env files = Some es"
  shows "(\<exists>(name, check) \<in> set ALL_CHECKS. \<exists>errors. check env files = Some errors \<and> (f, Some i, m) \<in> set errors) \<longleftrightarrow>
    violates env files (f, Some i, m)"
proof -
  have "(\<exists>(name, check) \<in> set ALL_CHECKS. \<exists>errors. check env files = Some errors \<and> (f, Some i, m) \<in> set errors) \<longleftrightarrow>
      (f, Some i, m) \<in> set (check_ws env files) \<or> (f, Some i, m) \<in> set (check_ace_include env files) \<or>
      (f, Some i, m) \<in> set (check_include env files) \<or> (f, Some i, m) \<in> set (check_exit env files) \<or>
      (f, Some i, m) \<in> set (check_perror env files) \<or> (f, Some i, m) \<in> set (check_fixme env files) \<or>
      (f, Some i, m) \<in> set (check_while1 env files) \<or> (f, Some i, m) \<in> set (check_usage env files) \<or>
      (f, Some i, m) \<in> set (check_pthread env files) \<or> (f, Some i, m) \<in> set (check_usage_2 env files) \<or>
      (f, Some i, m) \<in> set (check_exitzero env files) \<or> (f, Some i, m) \<in> set (check_for env files) \<or>
      (f, Some i, m) \<in> set (check_semisemi env files) \<or> (f, Some i, m) \<in> set (check_return env files) \<or>
      (f, Some i, m) \<in> set (check_braces env files) \<or> (f, Some i, m) \<in> set (check_ace env files) \<or>
      (f, Some i, m) \<in> set (check_check_header env files)"
    unfolding ALL_CHECKS_def using assms
    by (simp add: license_check_iff [OF assms] check_firstinclude_def check_no_std_def file_check_iff) blast
  also have "\<dots> \<longleftrightarrow> violates env files (f, Some i, m)"
    unfolding violates.simps line_rule_def at_line_disj [symmetric] simple_checks_at_line checks_at_line check_header_iff
    by blast
  finally show ?thesis .
qed

lemma all_checks_None:
  assumes "check_license env files = Some es"
  shows "(\<exists>(name, check) \<in> set ALL_CHECKS. \<exists>errors. check env files = Some errors \<and> (f, None, m) \<in> set errors) \<or>
      (f, None, m) \<in> set (check_have_solutions env) \<longleftrightarrow> violates env files (f, None, m)" (is "?lhs \<longleftrightarrow> _")
proof -
  have "(\<exists>(name, check) \<in> set ALL_CHECKS. \<exists>errors. check env files = Some errors \<and> (f, None, m) \<in> set errors) \<longleftrightarrow>
      (f, None, m) \<in> set es \<or> (f, None, m) \<in> set (check_firstinclude env files) \<or> (f, None, m) \<in> set (check_no_std env files)"
    unfolding ALL_CHECKS_def using assms by (simp add: line_checks line_check_None check_header_iff)
  moreover have "(f, None, m) \<in> set (check_firstinclude env files) \<longleftrightarrow> m = ''missing #include <firstinclude.h>'' \<and>
      f \<in> set files \<and> \<not> (\<exists>excl \<in> set FIRSTINCLUDE_EXCLUDES. sublist excl f) \<and>
      (\<exists>content. read_file env f = Some content \<and> \<not> (\<exists>pre line post. splitlines content = pre @ line # post \<and>
        list_all skipped_line pre \<and> strip line = lit ''#include <firstinclude.h>''))"
    unfolding check_firstinclude_def file_check_iff in_str_iff first_include_iff by simp
  moreover have "(f, None, m) \<in> set (check_no_std env files) \<longleftrightarrow> m = ''contains std::'' \<and> f \<in> set files \<and>
      (\<exists>content. read_file env f = Some content \<and> has ''std::'' content)"
    unfolding check_no_std_def file_check_iff in_lit by simp
  ultimately have "?lhs \<longleftrightarrow>
      (f, None, m) \<in> set es \<or> (f, None, m) \<in> set (check_have_solutions env) \<or>
      f \<in> set files \<and> (\<exists>content. read_file env f = Some content \<and>
       (m = ''missing #include <firstinclude.h>'' \<and> \<not> (\<exists>excl \<in> set FIRSTINCLUDE_EXCLUDES. sublist excl f) \<and>
        \<not> (\<exists>pre line post. splitlines content = pre @ line # post \<and>
           list_all skipped_line pre \<and> strip line = lit ''#include <firstinclude.h>'') \<or>
        m = ''contains std::'' \<and> has ''std::'' content))"
    by (cases "read_file env f") (simp_all only: option.inject option.distinct simp_thms, argo)
  then show ?thesis
    unfolding violates.simps file_rule_def
    by (cases "read_file env f") (simp_all only: option.inject option.distinct simp_thms solutions_iff license_check_iff [OF assms], argo)
qed

definition violations_in :: "report_line list \<Rightarrow> violation set" where
  "violations_in report = {v. Violation v \<in> set report}"

definition report_of :: "(string \<times> violation list) list \<Rightarrow> report_line list" where
  "report_of all_errors =
     concat (map (\<lambda>(name, errors). CheckHead name (length errors) # map Violation errors @ [Blank]) all_errors) @
     [Total (length all_errors) (sum_list (map (\<lambda>(_, e). length e) all_errors))]"

lemma violations_report_of:
  "violations_in (report_of all_errors) = {v. \<exists>name errors. (name, errors) \<in> set all_errors \<and> v \<in> set errors}"
  by (auto simp: violations_in_def report_of_def)

lemma total_report_of:
  "Total n k \<in> set (report_of all_errors) \<longleftrightarrow>
    n = length all_errors \<and> k = length (filter (\<lambda>l. \<exists>v. l = Violation v) (report_of all_errors))"
proof -
  have "length (filter (\<lambda>l. \<exists>v. l = Violation v) (map Violation es)) = length es" for es
    by (induction es) auto
  then have "length (filter (\<lambda>l. \<exists>v. l = Violation v) (report_of all_errors)) =
      sum_list (map (\<lambda>(_, e). length e) all_errors)"
    by (induction all_errors) (auto simp: report_of_def)
  then show ?thesis
    by (auto simp: report_of_def)
qed

section \<open>Properties\<close>

text \<open>All errors of a run: those of the checks of the files and those of the check for solutions.\<close>

definition with_solutions :: "py_env \<Rightarrow> (string \<times> violation list) list \<Rightarrow> (string \<times> violation list) list" where
  "with_solutions env all_errors = (if check_have_solutions env \<noteq> [] then all_errors @ [(''check_have_solutions'', check_have_solutions env)]
     else all_errors)"

lemma with_solutions_iff:
  assumes "check_license env files = Some es" and "run_checks env files ALL_CHECKS = Some all_errors"
  shows "(\<exists>name errors. (name, errors) \<in> set (with_solutions env all_errors) \<and> v \<in> set errors) \<longleftrightarrow> violates env files v"
proof -
  obtain f loc m where v: "v = (f, loc, m)"
    by (cases v)
  have "(\<exists>name errors. (name, errors) \<in> set (with_solutions env all_errors) \<and> v \<in> set errors) \<longleftrightarrow>
      (\<exists>name errors. (name, errors) \<in> set all_errors \<and> v \<in> set errors) \<or> v \<in> set (check_have_solutions env)"
    by (auto simp: with_solutions_def)
  also have "\<dots> \<longleftrightarrow> violates env files v"
    unfolding run_checks_iff [OF assms(2)] v
    using all_checks_Some [OF assms(1)] all_checks_None [OF assms(1)] solutions_iff by (cases loc) simp_all
  finally show ?thesis .
qed

lemma with_solutions_nonempty:
  assumes "run_checks env files ALL_CHECKS = Some all_errors" and "(name, e) \<in> set (with_solutions env all_errors)"
  shows "e \<noteq> []"
  using assms(2) run_checks_nonempty [OF assms(1)] by (auto simp: with_solutions_def split: if_splits)


definition sample_tree :: py_env where
  "sample_tree = \<lparr>git_ls = Some (lit ''a.c'' @ [10]), text_of = (\<lambda>p. if p = lit ''a.c'' then Some (lit ''x;;'' @ [13, 10]) else None),
     path_exists = (\<lambda>_. False), is_dir = (\<lambda>_. False), walk_roots = (\<lambda>_. []), dir_names = (\<lambda>_. [])\<rparr>"


text \<open>The script \<open>check_have_solutions.py\<close> and the check of the same name agree: walking a directory that does not exist yields nothing.\<close>

lemma have_solutions_agree:
  assumes "\<not> is_dir env exercises_root \<Longrightarrow> walk_roots env exercises_root = []"
  shows "check_have_solutions env = map (\<lambda>e. (e, None, ''no solution file found'')) (snd (have_solutions_main env))"
    and "fst (have_solutions_main env) = (if check_have_solutions env = [] then 0 else 1)"
  using assms by (auto simp: check_have_solutions_def have_solutions_main_def unsolved_def)

end
