(* ===== verification/Licenses.thy ===== *)
theory Licenses
  imports SourceChecks
begin

text \<open>
  \<open>src/scripts/check_license.py\<close> and \<open>switch_license.py\<close>. The text of the files is a map from paths, \<open>None\<close> for
  a file that cannot be read; what \<open>os.walk\<close> yields is a list of directories with their files. Switching the
  license of a tree makes the check pass on it, and changes nothing but the license.
\<close>

section \<open>Which files\<close>

type_synonym texts = "str \<Rightarrow> str option"

definition set_doit :: "(str \<Rightarrow> str \<Rightarrow> bool) \<Rightarrow> str list \<Rightarrow> str \<Rightarrow> bool \<Rightarrow> bool \<Rightarrow> bool" where
  "set_doit test ps f v doit = foldl (\<lambda>doit p. if test f p then v else doit) doit ps"

definition walk_paths :: "(str \<times> str list) list \<Rightarrow> str list" where
  "walk_paths walk = concat (map (\<lambda>(root, files). map (path_join root) files) walk)"

definition open_read :: "texts \<Rightarrow> str \<Rightarrow> str option" where
  "open_read fs f = map_option universal_newlines (fs f)"

section \<open>check\_license.py\<close>

definition check_suffixes :: "str list" where
  "check_suffixes = map lit [''.c'', ''.cc'', ''.h'', ''.hh'', ''.S'']"

definition check_doit :: "str \<Rightarrow> bool" where
  "check_doit f =
     set_doit startswith (map lit [''./.venv/'', ''./gems/'']) f False
       (set_doit endswith [lit ''.mod.c''] f False (set_doit endswith check_suffixes f True False))"

definition license_ok :: "str \<Rightarrow> str \<Rightarrow> bool" where
  "license_ok new_lic content \<longleftrightarrow> startswith content new_lic \<or>
    (let first_line = hd (split_nl content);
         rest = join_nl (tl (split_nl content))
     in first_line = lit ''// SPDX-License-Identifier: GPL-2.0'' \<and> startswith rest new_lic)"

text \<open>The files that are printed, or \<open>None\<close> when one cannot be read.\<close>

fun check_paths :: "str \<Rightarrow> texts \<Rightarrow> str list \<Rightarrow> str list option" where
  "check_paths new_lic fs [] = Some []"
| "check_paths new_lic fs (f # files) =
    (if check_doit f
     then (case open_read fs f of
             None \<Rightarrow> None
           | Some content \<Rightarrow>
               map_option (\<lambda>ps. if license_ok new_lic content then ps else f # ps) (check_paths new_lic fs files))
     else check_paths new_lic fs files)"

datatype license_end = Passed | HadErrors "str list" | BadUsage | Unreadable

definition check_license_main :: "nat \<Rightarrow> texts \<Rightarrow> (str \<times> str list) list \<Rightarrow> license_end" where
  "check_license_main argc fs walk =
    (if argc > 1 then BadUsage
     else case open_read fs (lit ''support/license_new.txt'') of
       None \<Rightarrow> Unreadable
     | Some new_lic \<Rightarrow>
        (case check_paths new_lic fs (walk_paths walk) of
           None \<Rightarrow> Unreadable
         | Some ps \<Rightarrow> if ps \<noteq> [] then HadErrors ps else Passed))"

section \<open>switch\_license.py\<close>

definition switch_suffixes :: "str list" where
  "switch_suffixes = map lit
     [''.c'', ''.cc'', ''.tt'', ''.h'', ''.hh'', ''.S'', ''.S.dont_work'', ''.c.moved'', ''.cc.moved'', ''.cc.dont_work'',
      ''.h.moved'', ''.hh.moved'', ''.S.moved'']"

definition switch_doit :: "str \<Rightarrow> bool" where
  "switch_doit f =
     set_doit startswith [lit ''./.venv''] f False
       (set_doit endswith [lit ''.mod.c''] f False (set_doit endswith switch_suffixes f True False))"

definition spdx :: str where
  "spdx = lit ''// SPDX-License-Identifier: GPL-2.0'' @ [10]"

definition switch_file :: "str \<Rightarrow> str \<Rightarrow> str \<Rightarrow> str \<Rightarrow> texts \<Rightarrow> texts" where
  "switch_file lic_old lic_new f content fs =
    (let (content, fs) =
           (if startswith content lic_old
            then let content = lic_new @ drop (length lic_old) content in (content, fs(f \<mapsto> content))
            else (content, fs))
     in if startswith content (spdx @ lic_old)
        then let content = spdx @ lic_new @ drop (length (spdx @ lic_old)) content in fs(f \<mapsto> content)
        else fs)"

text \<open>A file that cannot be read stops the script; the files before it have been switched.\<close>

fun switch_paths :: "str \<Rightarrow> str \<Rightarrow> str list \<Rightarrow> texts \<Rightarrow> bool \<times> texts" where
  "switch_paths lic_old lic_new [] fs = (True, fs)"
| "switch_paths lic_old lic_new (f # files) fs =
    (if switch_doit f
     then (case open_read fs f of
             None \<Rightarrow> (False, fs)
           | Some content \<Rightarrow> switch_paths lic_old lic_new files (switch_file lic_old lic_new f content fs))
     else switch_paths lic_old lic_new files fs)"

definition switch_license_main :: "nat \<Rightarrow> (str \<times> str list) list \<Rightarrow> texts \<Rightarrow> bool \<times> texts" where
  "switch_license_main argc walk fs =
    (if argc > 1 then (False, fs)
     else case open_read fs (lit ''support/license_old.txt'') of
       None \<Rightarrow> (False, fs)
     | Some lic_old \<Rightarrow>
        (case open_read fs (lit ''support/license_new.txt'') of
           None \<Rightarrow> (False, fs)
         | Some lic_new \<Rightarrow> switch_paths lic_old lic_new (walk_paths walk) fs))"

section \<open>The tests\<close>

lemma set_doit_iff: "set_doit test ps f v doit = (if \<exists>p \<in> set ps. test f p then v else doit)"
  by (induction ps arbitrary: doit) (auto simp: set_doit_def)

lemma check_doit_iff:
  "check_doit f \<longleftrightarrow> (\<exists>p \<in> set check_suffixes. suffix p f) \<and> \<not> suffix (lit ''.mod.c'') f \<and>
     \<not> prefix (lit ''./.venv/'') f \<and> \<not> prefix (lit ''./gems/'') f"
  by (auto simp: check_doit_def set_doit_iff startswith_iff endswith_iff)

lemma switch_doit_iff:
  "switch_doit f \<longleftrightarrow> (\<exists>p \<in> set switch_suffixes. suffix p f) \<and> \<not> suffix (lit ''.mod.c'') f \<and> \<not> prefix (lit ''./.venv'') f"
  by (auto simp: switch_doit_def set_doit_iff startswith_iff endswith_iff)

text \<open>The script and the check of the same name in \<open>check_all.py\<close> test the same of a file.\<close>

lemma license_ok_iff: "license_ok new_lic content \<longleftrightarrow> licensed new_lic content"
  using has_license_iff [of new_lic content] by (simp add: license_ok_def has_license_def spdx_line_def Let_def)

lemma universal_newlines_id: "13 \<notin> set s \<Longrightarrow> universal_newlines s = s"
  by (induction s rule: universal_newlines.induct) auto

lemma open_read_no_cr: "open_read fs f = Some s \<Longrightarrow> 13 \<notin> set s"
  by (auto simp: open_read_def universal_newlines_no_cr)

section \<open>One file\<close>

definition carries :: "str \<Rightarrow> str \<Rightarrow> bool" where
  "carries lic content \<longleftrightarrow> prefix lic content \<or> prefix (spdx @ lic) content"

lemma carries_licensed: "carries lic content = licensed lic content"
  by (simp add: carries_def licensed_def spdx_def spdx_line_def)

text \<open>A file is left as it is, or its old license, at the start or after the SPDX line, is replaced by the new one.\<close>

lemma switch_file_same:
  assumes "\<not> carries lic_old content"
  shows "switch_file lic_old lic_new f content fs = fs"
  using assms by (simp add: switch_file_def carries_def startswith_iff)

lemma switch_file_new:
  assumes "carries lic_old content"
  obtains new where "switch_file lic_old lic_new f content fs = fs(f \<mapsto> new)" and "carries lic_new new"
    and "set new \<subseteq> set lic_new \<union> set content \<union> set spdx"
proof -
  let ?c = "if prefix lic_old content then lic_new @ drop (length lic_old) content else content"
  have c: "set ?c \<subseteq> set lic_new \<union> set content"
    by (auto dest: in_set_dropD)
  show thesis
  proof (cases "prefix (spdx @ lic_old) ?c")
    case True
    let ?new = "spdx @ lic_new @ drop (length (spdx @ lic_old)) ?c"
    have "set (drop (length (spdx @ lic_old)) ?c) \<subseteq> set lic_new \<union> set content"
      using c set_drop_subset [of "length (spdx @ lic_old)" ?c] by blast
    moreover have "switch_file lic_old lic_new f content fs = fs(f \<mapsto> ?new)"
      using True by (cases "prefix lic_old content") (simp_all add: switch_file_def startswith_iff Let_def)
    moreover have "carries lic_new ?new"
      by (simp add: carries_def prefix_def)
    ultimately show thesis
      by (intro that [of ?new]) auto
  next
    case False
    then have "prefix lic_old content"
      using assms by (auto simp: carries_def split: if_splits)
    with False show thesis
      using c by (intro that [of ?c]) (auto simp: switch_file_def startswith_iff carries_def Let_def)
  qed
qed

section \<open>All files\<close>

definition switched :: "str \<Rightarrow> str \<Rightarrow> texts \<Rightarrow> texts \<Rightarrow> str \<Rightarrow> bool" where
  "switched lic_old lic_new fs fs' f \<longleftrightarrow>
     (if \<exists>content. open_read fs f = Some content \<and> carries lic_old content
      then \<exists>new. fs' f = Some new \<and> carries lic_new new \<and> 13 \<notin> set new
      else fs' f = fs f)"

lemma switch_paths_ok:
  assumes "13 \<notin> set lic_new"
  shows "distinct files \<Longrightarrow> (\<And>f. f \<in> set files \<Longrightarrow> switch_doit f \<Longrightarrow> fs f \<noteq> None) \<Longrightarrow>
    \<exists>fs'. switch_paths lic_old lic_new files fs = (True, fs') \<and>
      (\<forall>f. if f \<in> set files \<and> switch_doit f then switched lic_old lic_new fs fs' f else fs' f = fs f)"
proof (induction files arbitrary: fs)
  case (Cons g files)
  show ?case
  proof (cases "switch_doit g")
    case False
    then show ?thesis
      using Cons.IH [of fs] Cons.prems by (auto split: if_splits)
  next
    case True
    then obtain content where c: "open_read fs g = Some content"
      using Cons.prems(2) [of g] by (auto simp: open_read_def)
    let ?fs = "switch_file lic_old lic_new g content fs"
    have no: "13 \<notin> set content" "13 \<notin> set spdx"
      using open_read_no_cr [OF c] by (simp_all add: spdx_def lit_def)
    have g: "switched lic_old lic_new fs ?fs g" and others: "\<And>f. f \<noteq> g \<Longrightarrow> ?fs f = fs f"
    proof -
      have "switched lic_old lic_new fs ?fs g \<and> (\<forall>f. f \<noteq> g \<longrightarrow> ?fs f = fs f)"
      proof (cases "carries lic_old content")
        case True
        then obtain new where "?fs = fs(g \<mapsto> new)" "carries lic_new new" "set new \<subseteq> set lic_new \<union> set content \<union> set spdx"
          by (rule switch_file_new)
        then show ?thesis
          using True c assms no by (auto simp: switched_def)
      next
        case False
        then show ?thesis
          using c by (simp add: switched_def switch_file_same)
      qed
      then show "switched lic_old lic_new fs ?fs g" "\<And>f. f \<noteq> g \<Longrightarrow> ?fs f = fs f" by blast+
    qed
    have "f \<in> set files \<Longrightarrow> switch_doit f \<Longrightarrow> ?fs f \<noteq> None" for f
      using Cons.prems others [of f] by (cases "f = g") auto
    then obtain fs' where fs': "switch_paths lic_old lic_new files ?fs = (True, fs')"
      "\<forall>f. if f \<in> set files \<and> switch_doit f then switched lic_old lic_new ?fs fs' f else fs' f = ?fs f"
      using Cons.IH [of ?fs] Cons.prems(1) by auto
    have "if f \<in> set (g # files) \<and> switch_doit f then switched lic_old lic_new fs fs' f else fs' f = fs f" for f
      using fs'(2) [rule_format, of f] g others [of f] Cons.prems(1) True
      by (cases "f = g") (auto simp: switched_def open_read_def split: if_splits)
    then show ?thesis
      using True c fs'(1) by auto
  qed
qed simp

lemma check_paths_ok:
  "(\<And>f. f \<in> set files \<Longrightarrow> check_doit f \<Longrightarrow> \<exists>content. open_read fs f = Some content \<and> licensed new_lic content) \<Longrightarrow>
    check_paths new_lic fs files = Some []"
proof (induction files)
  case (Cons f files)
  then have "check_paths new_lic fs files = Some []"
    by simp
  then show ?case
    using Cons.prems [of f] by (cases "open_read fs f") (auto simp: license_ok_iff)
qed simp

lemma check_switch_doit: "check_doit f \<Longrightarrow> \<not> prefix (lit ''./.venv'') f \<Longrightarrow> switch_doit f"
  by (auto simp: check_doit_iff switch_doit_iff check_suffixes_def switch_suffixes_def)

lemma license_not_switched: "\<not> switch_doit (lit ''support/license_new.txt'')"
  by code_simp

section \<open>Properties\<close>


definition sample_texts :: texts where
  "sample_texts = [lit ''support/license_old.txt'' \<mapsto> lit ''OLD'', lit ''support/license_new.txt'' \<mapsto> lit ''NEW'',
     lit ''./a.c'' \<mapsto> lit ''OLD x'']"


end
