(* ===== verification/CiImages.thy ===== *)
theory CiImages
  imports Prelude "HOL-Library.List_Lexorder"
begin

text \<open>
  \<open>src/scripts/ci_image_list.py\<close> and \<open>ci_image_prune.py\<close>: the versions of a container image are grouped into pushes
  by their times, pushes without a tag are listed as orphaned, and their versions deleted. A version carries
  its time of creation in microseconds, which is what \<open>parse_ts\<close> makes of its text. The registry is the list of
  versions, and whether it grants a deletion is an argument.
\<close>

section \<open>Grouping\<close>

record version =
  vid :: int
  vname :: "nat list"
  created_at :: int
  tags :: "nat list list"

definition CLUSTER_WINDOW :: int where
  "CLUSTER_WINDOW = 60 * 1000000"

definition add_to_groups :: "version list list \<Rightarrow> version \<Rightarrow> version list list" where
  "add_to_groups groups v =
     (if groups \<noteq> [] \<and> created_at v - created_at (last (last groups)) \<le> CLUSTER_WINDOW
      then butlast groups @ [last groups @ [v]]
      else groups @ [[v]])"

definition cluster :: "version list \<Rightarrow> version list list" where
  "cluster versions = foldl add_to_groups [] (sort_key created_at versions)"

text \<open>The function of the same name in the listing has the newest push first.\<close>

definition cluster_newest_first :: "version list \<Rightarrow> version list list" where
  "cluster_newest_first versions = rev (cluster versions)"

definition tagged_versions :: "version list \<Rightarrow> version list" where
  "tagged_versions grp = filter (\<lambda>v. tags v \<noteq> []) grp"

section \<open>ci\_image\_list.py\<close>

definition short_digest :: "nat list \<Rightarrow> nat list" where
  "short_digest name = take 12 (if 58 \<in> set name then tl (dropWhile (\<lambda>c. c \<noteq> 58) name) else name)"

datatype age = Seconds int | Minutes int | Hours int | Days int

definition whole_seconds :: "int \<Rightarrow> int" where
  "whole_seconds d = (if 0 \<le> d then d div 1000000 else - ((- d) div 1000000))"

definition fmt_age :: "int \<Rightarrow> int \<Rightarrow> age" where
  "fmt_age ts now =
    (let secs = whole_seconds (now - ts)
     in if secs < 60 then Seconds secs else if secs < 3600 then Minutes (secs div 60)
        else if secs < 86400 then Hours (secs div 3600) else Days (secs div 86400))"

datatype push_status = LIVE | Tagged | Orphaned

definition list_row :: "int \<Rightarrow> nat \<times> version list \<Rightarrow> int \<times> age \<times> nat list list \<times> push_status" where
  "list_row now row =
    (let (idx, grp) = row;
         tagged = tagged_versions grp;
         oldest = Min (created_at ` set grp)
     in if tagged \<noteq> []
        then (oldest, fmt_age oldest now, sort (remdups (concat (map tags tagged))), if idx = 0 then LIVE else Tagged)
        else (oldest, fmt_age oldest now, [], Orphaned))"

definition list_main :: "int \<Rightarrow> version list \<Rightarrow> (int \<times> age \<times> nat list list \<times> push_status) list" where
  "list_main now versions =
     (if versions = [] then [] else map (list_row now) (enumerate 0 (cluster_newest_first versions)))"

section \<open>ci\_image\_prune.py\<close>

datatype prune_end =
  FetchFailed
| NoVersions
| NothingToPrune
| WouldDelete nat nat
| DeletionsFailed nat
| DeletedAll nat

definition delete_version :: "(int \<Rightarrow> bool) \<Rightarrow> int \<Rightarrow> version list \<Rightarrow> bool \<times> version list" where
  "delete_version granted version_id registry =
     (if granted version_id then (True, filter (\<lambda>v. vid v \<noteq> version_id) registry) else (False, registry))"

fun delete_targets :: "(int \<Rightarrow> bool) \<Rightarrow> version list \<Rightarrow> version list \<Rightarrow> nat \<times> version list" where
  "delete_targets granted [] registry = (0, registry)"
| "delete_targets granted (v # vs) registry =
    (let (ok, registry) = delete_version granted (vid v) registry;
         (failures, registry) = delete_targets granted vs registry
     in (if ok then failures else failures + 1, registry))"

definition prune_targets :: "version list \<Rightarrow> version list" where
  "prune_targets versions = concat (filter (\<lambda>c. \<not> list_ex (\<lambda>v. tags v \<noteq> []) c) (cluster versions))"

text \<open>\<open>fetched\<close> is what the registry answers, \<open>None\<close> when \<open>gh\<close> is missing or fails.\<close>

definition prune_main ::
  "bool \<Rightarrow> version list option \<Rightarrow> (int \<Rightarrow> bool) \<Rightarrow> version list \<Rightarrow> prune_end \<times> version list" where
  "prune_main yes fetched granted registry =
    (case fetched of
       None \<Rightarrow> (FetchFailed, registry)
     | Some versions \<Rightarrow>
        if versions = [] then (NoVersions, registry)
        else let orphaned = filter (\<lambda>c. \<not> list_ex (\<lambda>v. tags v \<noteq> []) c) (cluster versions);
                 targets = concat orphaned
             in if orphaned = [] then (NothingToPrune, registry)
                else if \<not> yes then (WouldDelete (length targets) (length orphaned), registry)
                else let (failures, registry) = delete_targets granted targets registry
                     in (if failures > 0 then DeletionsFailed failures else DeletedAll (length targets), registry))"

section \<open>What the groups are\<close>

text \<open>Two versions belong to the same push when one can get from the time of one to the time of the other in steps
  of at most the window, from version to version.\<close>

definition same_push :: "version list \<Rightarrow> version \<Rightarrow> version \<Rightarrow> bool" where
  "same_push versions v w \<longleftrightarrow>
     (\<forall>u \<in> set versions. min (created_at v) (created_at w) \<le> created_at u \<and> created_at u < max (created_at v) (created_at w) \<longrightarrow>
        (\<exists>u' \<in> set versions. created_at u < created_at u' \<and> created_at u' \<le> created_at u + CLUSTER_WINDOW))"

definition groups_ok :: "version list \<Rightarrow> version list list \<Rightarrow> bool" where
  "groups_ok xs gs \<longleftrightarrow> concat gs = xs \<and> [] \<notin> set gs \<and>
     (\<forall>g \<in> set gs. successively (\<lambda>v w. created_at w \<le> created_at v + CLUSTER_WINDOW) g) \<and>
     successively (\<lambda>g h. created_at (last g) + CLUSTER_WINDOW < created_at (hd h)) gs"

lemma groups_ok_add:
  assumes "groups_ok xs gs"
  shows "groups_ok (xs @ [v]) (add_to_groups gs v)"
proof (cases "gs = []")
  case True
  then show ?thesis
    using assms by (auto simp: groups_ok_def add_to_groups_def)
next
  case False
  then obtain hs g where gs: "gs = hs @ [g]"
    by (metis append_butlast_last_id)
  have g: "g \<noteq> []"
    using assms gs by (auto simp: groups_ok_def)
  show ?thesis
    using assms g unfolding gs
    by (cases "created_at v - created_at (last g) \<le> CLUSTER_WINDOW")
      (auto simp: groups_ok_def add_to_groups_def successively_append_iff)
qed

lemma groups_ok_cluster: "groups_ok (sort_key created_at versions) (cluster versions)"
proof -
  have "groups_ok xs (foldl add_to_groups [] xs)" for xs
    by (induction xs rule: rev_induct) (simp_all add: groups_ok_add, simp add: groups_ok_def)
  then show ?thesis
    by (simp add: cluster_def)
qed

lemma successively_step:
  assumes "successively (\<lambda>v w. created_at w \<le> created_at v + d) g" and "v \<in> set g" "w \<in> set g"
    and "created_at v \<le> t" "t < created_at w" and "sorted (map created_at g)"
  shows "\<exists>u \<in> set g. t < created_at u \<and> created_at u \<le> t + d"
  using assms
proof (induction g arbitrary: v)
  case (Cons x g)
  show ?case
  proof (cases "created_at (hd g) \<le> t")
    case True
    then have "hd g \<in> set g"
      using Cons.prems by (cases g) auto
    moreover have "w \<in> set g"
      using Cons.prems True by (cases g) auto
    ultimately show ?thesis
      using Cons.IH [of "hd g"] Cons.prems True by (auto simp: successively_Cons)
  next
    case False
    have "g \<noteq> []"
      using Cons.prems by auto
    then show ?thesis
      using Cons.prems False by (intro bexI [of _ "hd g"]) (cases g; auto)+
  qed
qed simp

lemma same_push_sym: "same_push versions v w = same_push versions w v"
  by (simp add: same_push_def min.commute max.commute)

lemma same_push_set: "set xs = set ys \<Longrightarrow> same_push xs v w = same_push ys v w"
  by (simp add: same_push_def)

lemma group_same_push:
  assumes "groups_ok xs gs" and "sorted (map created_at xs)" and "g \<in> set gs" and "v \<in> set g" "w \<in> set g"
  shows "same_push xs v w"
proof -
  have g: "successively (\<lambda>v w. created_at w \<le> created_at v + CLUSTER_WINDOW) g" "set g \<subseteq> set xs"
    using assms by (auto simp: groups_ok_def)
  obtain as bs where "gs = as @ g # bs"
    using assms(3) by (meson split_list)
  then have s: "sorted (map created_at g)"
    using assms(1,2) by (auto simp: groups_ok_def sorted_append)
  show ?thesis
    unfolding same_push_def
  proof (intro ballI impI)
    fix u
    assume u: "u \<in> set xs" "min (created_at v) (created_at w) \<le> created_at u \<and> created_at u < max (created_at v) (created_at w)"
    then consider "created_at v \<le> created_at u" "created_at u < created_at w" | "created_at w \<le> created_at u" "created_at u < created_at v"
      by (auto simp: min_def max_def split: if_splits)
    then show "\<exists>u' \<in> set xs. created_at u < created_at u' \<and> created_at u' \<le> created_at u + CLUSTER_WINDOW"
      using successively_step [OF g(1) assms(4,5) _ _ s] successively_step [OF g(1) assms(5,4) _ _ s] g(2)
      by cases blast+
  qed
qed

lemma sorted_split:
  "sorted (map created_at (xs @ [u] @ ys)) \<Longrightarrow> x \<in> set xs \<or> x = u \<Longrightarrow> created_at x \<le> created_at u"
  by (auto simp: sorted_append)

lemma groups_apart:
  assumes ok: "groups_ok xs (as @ g # bs @ h # cs)" and s: "sorted (map created_at xs)" and v: "v \<in> set g" and w: "w \<in> set h"
  shows "\<not> same_push xs v w"
proof -
  obtain n rest where n: "bs @ h # cs = n # rest"
    by (cases bs) auto
  define u where "u = last g"
  have ne: "g \<noteq> []" "n \<noteq> []"
    using ok n by (auto simp: groups_ok_def)
  have gap: "created_at u + CLUSTER_WINDOW < created_at (hd n)"
    using ok unfolding n groups_ok_def u_def by (simp add: successively_append_iff)
  have xs: "xs = (concat as @ g) @ (n @ concat rest)"
    using ok unfolding n groups_ok_def by simp
  have low: "created_at x \<le> created_at u" if "x \<in> set (concat as @ g)" for x
  proof -
    have "xs = (concat as @ butlast g) @ [u] @ (n @ concat rest)"
      using ne by (simp add: u_def xs)
    moreover have "x \<in> set (concat as @ butlast g) \<or> x = u"
      using that ne append_butlast_last_id [of g] unfolding u_def by (metis Un_iff rotate1.simps(2) set_ConsD set_append set_rotate1)
    ultimately show ?thesis
      using s sorted_split by metis
  qed
  have high: "created_at (hd n) \<le> created_at x" if "x \<in> set (n @ concat rest)" for x
    using that s ne unfolding xs by (cases n) (auto simp: sorted_append)
  have "w \<in> set (n @ concat rest)"
    using w n by (metis UnCI concat.simps(2) concat_append list.set_intros(1) set_append set_concat UN_I in_set_conv_decomp)
  then have uw: "created_at u + CLUSTER_WINDOW < created_at w"
    using high [of w] gap by simp
  have vu: "created_at v \<le> created_at u"
    using low v by simp
  have "u \<in> set xs"
    using ne by (simp add: xs u_def)
  moreover have "min (created_at v) (created_at w) \<le> created_at u \<and> created_at u < max (created_at v) (created_at w)"
    using uw vu by (simp add: CLUSTER_WINDOW_def min_def max_def)
  moreover have "\<not> (\<exists>u' \<in> set xs. created_at u < created_at u' \<and> created_at u' \<le> created_at u + CLUSTER_WINDOW)"
    using low high gap unfolding xs by fastforce
  ultimately show ?thesis
    unfolding same_push_def by blast
qed

definition orphaned_push :: "version list \<Rightarrow> version \<Rightarrow> bool" where
  "orphaned_push versions v \<longleftrightarrow> \<not> (\<exists>w \<in> set versions. tags w \<noteq> [] \<and> same_push versions v w)"

lemma prune_targets_iff: "v \<in> set (prune_targets versions) \<longleftrightarrow> v \<in> set versions \<and> orphaned_push versions v"
proof -
  let ?xs = "sort_key created_at versions" and ?gs = "cluster versions"
  note ok = groups_ok_cluster [of versions]
  have s: "sorted (map created_at ?xs)" and all: "(\<Union>g \<in> set ?gs. set g) = set versions"
    using ok by (auto simp: groups_ok_def simp flip: set_concat)
  have p: "same_push ?xs = same_push versions"
    using same_push_set [of ?xs versions] by (simp add: fun_eq_iff)
  have same: "w \<in> set g" if g: "g \<in> set ?gs" "v \<in> set g" and w: "w \<in> set h" "h \<in> set ?gs" "same_push versions v w" "h \<noteq> g" for g h w
  proof -
    obtain as bs where gs: "?gs = as @ g # bs"
      using g by (meson split_list)
    then consider "h \<in> set as" | "h \<in> set bs"
      using w by auto
    then show ?thesis
    proof cases
      case 1
      then obtain as1 as2 where "?gs = as1 @ h # as2 @ g # bs"
        using gs by (metis append.assoc append_Cons split_list)
      then show ?thesis
        using groups_apart [of ?xs as1 h as2 g bs w v] ok s g w p same_push_sym by metis
    next
      case 2
      then obtain bs1 bs2 where "?gs = as @ g # bs1 @ h # bs2"
        using gs by (metis split_list)
      then show ?thesis
        using groups_apart [of ?xs as g bs1 h bs2 v w] ok s g w p by metis
    qed
  qed
  have "list_ex (\<lambda>v. tags v \<noteq> []) g \<longleftrightarrow> (\<exists>w \<in> set versions. tags w \<noteq> [] \<and> same_push versions v w)"
    if g: "g \<in> set ?gs" "v \<in> set g" for g
  proof
    assume "list_ex (\<lambda>v. tags v \<noteq> []) g"
    then obtain w where w: "w \<in> set g" "tags w \<noteq> []"
      by (auto simp: list_ex_iff)
    then have "same_push versions v w"
      using group_same_push [OF ok s g w(1)] p by simp
    moreover have "w \<in> set versions"
      using w(1) g(1) all by blast
    ultimately show "\<exists>w \<in> set versions. tags w \<noteq> [] \<and> same_push versions v w"
      using w(2) by blast
  next
    assume "\<exists>w \<in> set versions. tags w \<noteq> [] \<and> same_push versions v w"
    then obtain w h where "w \<in> set h" "h \<in> set ?gs" "tags w \<noteq> []" "same_push versions v w"
      using all by blast
    then show "list_ex (\<lambda>v. tags v \<noteq> []) g"
      using same [OF g, of w h] by (cases "h = g") (auto simp: list_ex_iff)
  qed
  note tagged = this
  have "v \<in> set (prune_targets versions) \<longleftrightarrow> (\<exists>g \<in> set ?gs. v \<in> set g \<and> \<not> list_ex (\<lambda>v. tags v \<noteq> []) g)"
    by (auto simp: prune_targets_def)
  also have "\<dots> \<longleftrightarrow> (\<exists>g \<in> set ?gs. v \<in> set g) \<and> orphaned_push versions v"
    using tagged by (auto simp only: orphaned_push_def)
  finally show ?thesis
    using all by blast
qed

lemma delete_targets_result:
  "delete_targets granted vs registry =
    (length (filter (\<lambda>v. \<not> granted (vid v)) vs),
     filter (\<lambda>x. \<not> (granted (vid x) \<and> vid x \<in> vid ` set vs)) registry)"
  by (induction vs arbitrary: registry) (auto simp: delete_version_def intro: filter_cong)

lemma same_push_refl: "same_push versions v v"
  by (auto simp: same_push_def)

lemma list_orphaned_count:
  "length (filter (\<lambda>(_, _, _, status). status = Orphaned) (list_main now versions)) =
    length (filter (\<lambda>c. \<not> list_ex (\<lambda>v. tags v \<noteq> []) c) (cluster versions))"
proof -
  have row: "snd (snd (snd (list_row now (i, g)))) = Orphaned \<longleftrightarrow> \<not> list_ex (\<lambda>v. tags v \<noteq> []) g" for i g
    by (auto simp: list_row_def Let_def tagged_versions_def list_ex_iff filter_empty_conv)
  have "length (filter (\<lambda>r. snd (snd (snd r)) = Orphaned) (map (list_row now) (enumerate n gs))) =
      length (filter (\<lambda>c. \<not> list_ex (\<lambda>v. tags v \<noteq> []) c) gs)" for n gs
    by (induction gs arbitrary: n) (simp_all add: row)
  then show ?thesis
    by (simp add: list_main_def cluster_newest_first_def case_prod_unfold flip: rev_filter)
      (simp add: cluster_def)
qed

section \<open>Properties\<close>

text \<open>C24: The pruning script deletes exactly the orphaned versions. Without \<open>--yes\<close> it deletes nothing. With it, a version
  is gone afterwards exactly when the registry granted its deletion and no version of the same push has a tag,
  where a push is a set of versions whose times follow each other within sixty seconds; in particular no
  version with a tag is deleted. The script reports how many deletions were refused.\<close>

theorem prune_deletes_orphans:
  assumes "inj_on vid (set versions)"
  shows "snd (prune_main False (Some versions) granted versions) = versions \<and>
    snd (prune_main True (Some versions) granted versions) =
      filter (\<lambda>v. \<not> (granted (vid v) \<and> orphaned_push versions v)) versions \<and>
    (\<forall>v \<in> set versions. tags v \<noteq> [] \<longrightarrow> v \<in> set (snd (prune_main yes (Some versions) granted versions))) \<and>
    (\<forall>n. fst (prune_main True (Some versions) granted versions) = DeletionsFailed n \<longrightarrow>
       n = length (filter (\<lambda>v. \<not> granted (vid v)) (prune_targets versions)))"
proof -
  have t: "vid v \<in> vid ` set (prune_targets versions) \<longleftrightarrow> orphaned_push versions v" if "v \<in> set versions" for v
    using that assms prune_targets_iff [of _ versions] by (auto simp: inj_on_def)
  have no: "snd (prune_main False (Some versions) granted versions) = versions"
    by (simp add: prune_main_def Let_def)
  have e: "orphaned_push versions v \<Longrightarrow> filter (\<lambda>c. \<not> list_ex (\<lambda>v. tags v \<noteq> []) c) (cluster versions) \<noteq> []"
    if "v \<in> set versions" for v
    using that prune_targets_iff [of v versions] by (metis concat.simps(1) empty_iff empty_set prune_targets_def)
  have y: "snd (prune_main True (Some versions) granted versions) =
      filter (\<lambda>v. \<not> (granted (vid v) \<and> orphaned_push versions v)) versions"
  proof (cases "filter (\<lambda>c. \<not> list_ex (\<lambda>v. tags v \<noteq> []) c) (cluster versions) = []")
    case True
    then have "filter (\<lambda>v. \<not> (granted (vid v) \<and> orphaned_push versions v)) versions = versions"
      using e by (auto simp: filter_id_conv)
    then show ?thesis
      using True by (simp add: prune_main_def Let_def)
  next
    case False
    then have "versions \<noteq> []"
      by (auto simp: cluster_def)
    with False have "snd (prune_main True (Some versions) granted versions) = snd (delete_targets granted (prune_targets versions) versions)"
      by (simp add: prune_main_def Let_def prune_targets_def case_prod_unfold)
    then show ?thesis
      unfolding delete_targets_result by (simp add: t cong: filter_cong)
  qed
  have "n = length (filter (\<lambda>v. \<not> granted (vid v)) (prune_targets versions))"
    if "fst (prune_main True (Some versions) granted versions) = DeletionsFailed n" for n
    using that
    by (auto simp: prune_main_def Let_def delete_targets_result split: if_splits simp flip: prune_targets_def)
  moreover have "v \<in> set (snd (prune_main yes (Some versions) granted versions))" if "v \<in> set versions" "tags v \<noteq> []" for v
    using that no y same_push_refl [of versions v] by (cases yes) (auto simp: orphaned_push_def)
  ultimately show ?thesis
    using no y by blast
qed

definition sample_versions :: "version list" where
  "sample_versions = [\<lparr>vid = 1, vname = [], created_at = 0, tags = []\<rparr>, \<lparr>vid = 2, vname = [], created_at = 30000000, tags = []\<rparr>,
     \<lparr>vid = 3, vname = [], created_at = 200000000, tags = []\<rparr>, \<lparr>vid = 4, vname = [], created_at = 250000000, tags = [[108]]\<rparr>]"

theorem prune_deletes_orphans_witness:
  "map vid (snd (prune_main True (Some sample_versions) (\<lambda>_. True) sample_versions)) = [3, 4] \<and>
   snd (prune_main True (Some sample_versions) (\<lambda>_. True) sample_versions) =
     filter (\<lambda>v. \<not> orphaned_push sample_versions v) sample_versions"
proof -
  have "inj_on vid (set sample_versions)"
    by (simp add: sample_versions_def)
  from prune_deletes_orphans [OF this, of "\<lambda>_. True"]
  have "snd (prune_main True (Some sample_versions) (\<lambda>_. True) sample_versions) =
     filter (\<lambda>v. \<not> orphaned_push sample_versions v) sample_versions"
    by simp
  moreover have "map vid (snd (prune_main True (Some sample_versions) (\<lambda>_. True) sample_versions)) = [3, 4]"
    by code_simp
  ultimately show ?thesis by blast
qed

end
