(* ===== verification/CompileWrap.thy ===== *)
theory CompileWrap
  imports PyStr
begin

text \<open>
  \<open>src/scripts/wrapper_compile.py\<close>, which runs the compiler with the flags that the source file asks for in its
  comments. Running a program, and filling in the placeholders of a flag with \<open>str.format\<close>, are functions of
  the environment with \<open>None\<close> for an exception.
\<close>

section \<open>The script\<close>

record wrap_env =
  fill_in :: "str \<Rightarrow> str option"
  run_words :: "str list \<Rightarrow> str option"
  run_shell :: "str \<Rightarrow> str option"
  compile :: "str list \<Rightarrow> int \<times> str option \<times> str option \<times> bool"

text \<open>How a call of \<open>handle\<close> treats the rest of the line: run it as words or by the shell, insert it after the first argument,
  or append it.\<close>

datatype handling = RunWords | RunShell | InjectAt nat | Append

definition insert_at :: "nat \<Rightarrow> 'a list \<Rightarrow> 'a list \<Rightarrow> 'a list" where
  "insert_at i new args = take i args @ new @ drop i args"

definition after_key :: "str \<Rightarrow> str \<Rightarrow> str option" where
  "after_key line key =
    (let f = find_str key line in if f \<noteq> - 1 then Some (drop (nat f + length key) line) else None)"

definition handle :: "wrap_env \<Rightarrow> str \<Rightarrow> string \<Rightarrow> handling \<Rightarrow> str list \<Rightarrow> str list option" where
  "handle env line key h args =
    (case after_key line (lit key) of
       None \<Rightarrow> Some args
     | Some cmd \<Rightarrow>
        (case fill_in env cmd of
           None \<Rightarrow> None
         | Some cmd \<Rightarrow>
            (case h of
               InjectAt i \<Rightarrow> Some (insert_at i (split_ws cmd) args)
             | RunWords \<Rightarrow> map_option (\<lambda>out. args @ split_ws out) (run_words env (split_ws cmd))
             | RunShell \<Rightarrow> map_option (\<lambda>out. args @ split_ws out) (run_shell env cmd)
             | Append \<Rightarrow> Some (args @ split_ws cmd))))"

definition handle_first :: "str \<Rightarrow> string \<Rightarrow> str list \<Rightarrow> str list option" where
  "handle_first line key args =
    (case after_key line (lit key) of
       None \<Rightarrow> Some args
     | Some rest \<Rightarrow> if args = [] then None else Some (rest # tl args))"

definition handle_line :: "wrap_env \<Rightarrow> bool \<Rightarrow> str \<Rightarrow> str list \<Rightarrow> str list option" where
  "handle_line env link line args =
    (if link
     then Option.bind (handle env line ''EXTRA_LINK_CMD='' RunWords args) (\<lambda>args.
          Option.bind (handle env line ''EXTRA_LINK_SHELL='' RunShell args) (\<lambda>args.
          Option.bind (handle env line ''EXTRA_LINK_FLAGS_BEFORE='' (InjectAt 1) args) (\<lambda>args.
          Option.bind (handle env line ''EXTRA_LINK_FLAGS_AFTER='' Append args) (handle_first line ''LINKER=''))))
     else Option.bind (handle env line ''EXTRA_COMPILE_CMD='' RunWords args) (\<lambda>args.
          Option.bind (handle env line ''EXTRA_COMPILE_SHELL='' RunShell args) (\<lambda>args.
          Option.bind (handle env line ''EXTRA_COMPILE_FLAGS_BEFORE='' (InjectAt 1) args) (\<lambda>args.
          Option.bind (handle env line ''EXTRA_COMPILE_FLAGS_AFTER='' Append args) (handle_first line ''COMPILER='')))))"

fun scan_source :: "wrap_env \<Rightarrow> bool \<Rightarrow> str list \<Rightarrow> str list \<Rightarrow> bool \<Rightarrow> (str list \<times> bool) option" where
  "scan_source env link [] args allow_output = Some (args, allow_output)"
| "scan_source env link (line # lines) args allow_output =
    (let line = strip line
     in Option.bind (handle_line env link line args) (\<lambda>args.
          scan_source env link lines args (if in_str (lit ''ALLOW_OUTPUT'') line then True else allow_output)))"

text \<open>The lines of a file that is read line by line.\<close>

definition stream_lines :: "str \<Rightarrow> str list" where
  "stream_lines content =
    (let lines = split_nl content in if last lines = [] then butlast lines else lines)"

datatype wrap_end = Compiled | ExitFailure | ValueError | OtherError

definition check_no_output :: "int \<Rightarrow> str option \<Rightarrow> str option \<Rightarrow> bool \<Rightarrow> wrap_end" where
  "check_no_output status out_stdout out_stderr allow_output =
    (case (out_stdout, out_stderr) of
       (Some out, Some err) \<Rightarrow>
         if status \<noteq> 0 \<or> (out \<noteq> [] \<or> err \<noteq> []) \<and> \<not> allow_output then ExitFailure else Compiled
     | _ \<Rightarrow> ValueError)"

text \<open>The result with whether the target is there at the end; \<open>None\<close> for a source that cannot be read.\<close>

definition wrapper_main :: "wrap_env \<Rightarrow> bool \<Rightarrow> bool \<Rightarrow> str option \<Rightarrow> str list \<Rightarrow> bool \<Rightarrow> wrap_end \<times> bool" where
  "wrapper_main env ccache link source args target =
    (case source of
       None \<Rightarrow> (OtherError, target)
     | Some text \<Rightarrow>
        (case scan_source env link (stream_lines (universal_newlines text)) args False of
           None \<Rightarrow> (OtherError, target)
         | Some (args, allow_output) \<Rightarrow>
             let args = (if ccache \<and> \<not> link then lit ''ccache'' # args else args);
                 (status, out, err, target) = compile env args;
                 result = check_no_output status out err allow_output
             in (result, if result = ValueError then False else target)))"

section \<open>What the compiler is run with\<close>

text \<open>What one line asks for: words to put in front, words to append, and another program to run.\<close>

definition key_words :: "wrap_env \<Rightarrow> str \<Rightarrow> string \<Rightarrow> str list option" where
  "key_words env line key =
    (case after_key line (lit key) of
       None \<Rightarrow> Some []
     | Some cmd \<Rightarrow> map_option split_ws (fill_in env cmd))"

definition key_output :: "wrap_env \<Rightarrow> str \<Rightarrow> string \<Rightarrow> (str \<Rightarrow> str option) \<Rightarrow> str list option" where
  "key_output env line key run =
    (case after_key line (lit key) of
       None \<Rightarrow> Some []
     | Some cmd \<Rightarrow> Option.bind (fill_in env cmd) (\<lambda>cmd. map_option split_ws (run cmd)))"

record wish =
  in_front :: "str list"
  at_end :: "str list"
  program :: "str option"

definition line_wish :: "wrap_env \<Rightarrow> str \<Rightarrow> string \<Rightarrow> string \<Rightarrow> string \<Rightarrow> string \<Rightarrow> string \<Rightarrow> wish option" where
  "line_wish env line cmd_key shell_key before_key after_k first_key =
     Option.bind (key_output env line cmd_key (\<lambda>cmd. run_words env (split_ws cmd))) (\<lambda>c.
     Option.bind (key_output env line shell_key (run_shell env)) (\<lambda>s.
     Option.bind (key_words env line before_key) (\<lambda>b.
     Option.bind (key_words env line after_k) (\<lambda>a.
       Some \<lparr>in_front = b, at_end = c @ s @ a, program = after_key line (lit first_key)\<rparr>))))"

definition wish_of :: "wrap_env \<Rightarrow> bool \<Rightarrow> str \<Rightarrow> wish option" where
  "wish_of env link line =
    (if link
     then line_wish env line ''EXTRA_LINK_CMD='' ''EXTRA_LINK_SHELL='' ''EXTRA_LINK_FLAGS_BEFORE='' ''EXTRA_LINK_FLAGS_AFTER='' ''LINKER=''
     else line_wish env line ''EXTRA_COMPILE_CMD='' ''EXTRA_COMPILE_SHELL='' ''EXTRA_COMPILE_FLAGS_BEFORE=''
       ''EXTRA_COMPILE_FLAGS_AFTER='' ''COMPILER='')"

lemma handle_words:
  "handle env line key (InjectAt i) args = map_option (\<lambda>ws. insert_at i ws args) (key_words env line key)"
  "handle env line key Append args = map_option (\<lambda>ws. args @ ws) (key_words env line key)"
  by (auto simp: handle_def key_words_def insert_at_def split: option.splits)

lemma handle_output:
  "handle env line key RunWords args = map_option (\<lambda>ws. args @ ws) (key_output env line key (\<lambda>cmd. run_words env (split_ws cmd)))"
  "handle env line key RunShell args = map_option (\<lambda>ws. args @ ws) (key_output env line key (run_shell env))"
  by (auto simp: handle_def key_output_def option.map_comp comp_def split: option.splits bind_splits)

lemma bind_map_option: "Option.bind (map_option f x) g = Option.bind x (g \<circ> f)"
  by (cases x) simp_all

definition grant :: "str list \<Rightarrow> wish \<Rightarrow> str list" where
  "grant args w = (case program w of None \<Rightarrow> hd args | Some p \<Rightarrow> p) # in_front w @ tl args @ at_end w"

lemma grant_Cons:
  "grant (a # as) w = (case program w of None \<Rightarrow> a | Some p \<Rightarrow> p) # in_front w @ as @ at_end w"
  by (simp add: grant_def split: option.split)

lemma handle_keys:
  "Option.bind (handle env line k1 RunWords (a # as)) (\<lambda>args.
   Option.bind (handle env line k2 RunShell args) (\<lambda>args.
   Option.bind (handle env line k3 (InjectAt 1) args) (\<lambda>args.
   Option.bind (handle env line k4 Append args) (handle_first line k5)))) =
   map_option (grant (a # as)) (line_wish env line k1 k2 k3 k4 k5)"
proof -
  have "handle_first line k5 (a # ws) = Some ((case after_key line (lit k5) of None \<Rightarrow> a | Some p \<Rightarrow> p) # ws)" for ws
    by (simp add: handle_first_def split: option.split)
  then show ?thesis
    unfolding handle_words handle_output line_wish_def bind_map_option
    by (cases "key_output env line k1 (\<lambda>cmd. run_words env (split_ws cmd))"; cases "key_output env line k2 (run_shell env)";
        cases "key_words env line k3"; cases "key_words env line k4")
      (simp_all add: insert_at_def grant_Cons)
qed

lemma handle_line_wish: "handle_line env link line (a # as) = map_option (grant (a # as)) (wish_of env link line)"
  unfolding handle_line_def wish_of_def by (cases link) (simp_all only: handle_keys if_True if_False)

fun wishes :: "wrap_env \<Rightarrow> bool \<Rightarrow> str list \<Rightarrow> wish list option" where
  "wishes env link [] = Some []"
| "wishes env link (line # lines) =
    (case (wish_of env link (strip line), wishes env link lines) of (Some w, Some ws) \<Rightarrow> Some (w # ws) | _ \<Rightarrow> None)"

text \<open>The last program asked for, if any, replaces the first argument.\<close>

definition chosen_program :: "wish list \<Rightarrow> str \<Rightarrow> str" where
  "chosen_program ws a = foldl (\<lambda>a w. case program w of None \<Rightarrow> a | Some p \<Rightarrow> p) a ws"

lemma scan_source_wishes:
  "map_option fst (scan_source env link lines (a # as) allow) =
    map_option (\<lambda>ws. chosen_program ws a # concat (map in_front (rev ws)) @ as @ concat (map at_end ws)) (wishes env link lines)"
proof (induction lines arbitrary: a as allow)
  case (Cons line lines)
  show ?case
  proof (cases "wish_of env link (strip line)")
    case None
    then show ?thesis
      by (simp add: handle_line_wish)
  next
    case (Some w)
    then show ?thesis
      using Cons.IH [where a = "case program w of None \<Rightarrow> a | Some p \<Rightarrow> p" and as = "in_front w @ as @ at_end w"
          and allow = "if in_str (lit ''ALLOW_OUTPUT'') (strip line) then True else allow"]
      by (cases "wishes env link lines"; cases "in_str (lit ''ALLOW_OUTPUT'') (strip line)")
        (simp_all add: handle_line_wish grant_Cons chosen_program_def)
  qed
qed (simp add: chosen_program_def)

lemma scan_source_allow:
  "scan_source env link lines args allow = Some (args', allow') \<Longrightarrow>
    allow' \<longleftrightarrow> allow \<or> (\<exists>line \<in> set lines. in_str (lit ''ALLOW_OUTPUT'') (strip line))"
proof (induction lines arbitrary: args allow)
  case (Cons line lines)
  then obtain args1 where "scan_source env link lines args1
      (if in_str (lit ''ALLOW_OUTPUT'') (strip line) then True else allow) = Some (args', allow')"
    by (auto simp: Let_def split: bind_splits)
  from Cons.IH [OF this] show ?case
    by auto
qed simp

section \<open>Properties\<close>

text \<open>C40: The compiler is run with what the source file asks for. When every placeholder can be filled in and every helper
  program runs, the command is the last program that the source names, or else the one given; the flags
  that go before, those of a later line first; the arguments given; and what helper programs print and the
  flags that go after, in the order of the lines; with \<open>ccache\<close> in front when compiling with it. The script fails exactly
  when the compiler does or when it prints something although the source does not allow it.\<close>

theorem wrapper_runs_compiler:
  assumes "wishes env link (stream_lines (universal_newlines text)) = Some ws"
    and "compile env ((if ccache \<and> \<not> link then [lit ''ccache''] else []) @ chosen_program ws a #
      concat (map in_front (rev ws)) @ as @ concat (map at_end ws)) = (status, Some out, Some err, built)"
  shows "wrapper_main env ccache link (Some text) (a # as) target =
    (if status \<noteq> 0 \<or> (out @ err \<noteq> [] \<and> \<not> (\<exists>line \<in> set (stream_lines (universal_newlines text)).
        in_str (lit ''ALLOW_OUTPUT'') (strip line))) then ExitFailure else Compiled, built)"
proof -
  let ?lines = "stream_lines (universal_newlines text)"
  obtain args allow where s: "scan_source env link ?lines (a # as) False = Some (args, allow)"
    and args: "args = chosen_program ws a # concat (map in_front (rev ws)) @ as @ concat (map at_end ws)"
    using scan_source_wishes [of env link ?lines a as False] assms(1)
    by (cases "scan_source env link ?lines (a # as) False") auto
  have "allow \<longleftrightarrow> (\<exists>line \<in> set ?lines. in_str (lit ''ALLOW_OUTPUT'') (strip line))"
    using scan_source_allow [OF s] by simp
  then show ?thesis
    using assms(2) s args by (auto simp: wrapper_main_def check_no_output_def Let_def)
qed

definition sample_wrap :: wrap_env where
  "sample_wrap = \<lparr>fill_in = Some, run_words = (\<lambda>_. Some []), run_shell = (\<lambda>_. Some []),
     compile = (\<lambda>args. (if args = [lit ''ld'', lit ''a''] then 0 else 1, Some [], Some [], True))\<rparr>"

theorem wrapper_runs_compiler_witness:
  "wrapper_main sample_wrap True True (Some (lit ''LINKER=ld'' @ [10])) [lit ''cc'', lit ''a''] False = (Compiled, True)"
proof -
  let ?ws = "[\<lparr>in_front = [], at_end = [], program = Some (lit ''ld'')\<rparr>]"
  have w: "wishes sample_wrap True (stream_lines (universal_newlines (lit ''LINKER=ld'' @ [10]))) = Some ?ws"
    by code_simp
  have "compile sample_wrap ((if True \<and> \<not> True then [lit ''ccache''] else []) @ chosen_program ?ws (lit ''cc'') #
      concat (map in_front (rev ?ws)) @ [lit ''a''] @ concat (map at_end ?ws)) = (0, Some [], Some [], True)"
    by (simp add: sample_wrap_def chosen_program_def)
  from wrapper_runs_compiler [OF w this, of False] show ?thesis
    by simp
qed

text \<open>The code that removes the target after a failure catches \<open>ValueError\<close>, but a failing compiler ends the script
  with \<open>sys.exit\<close>: what the compiler has left of the target stays.\<close>

lemma wrapper_keeps_target:
  assumes "scan_source env link (stream_lines (universal_newlines text)) args False = Some (args', allow)"
    and "compile env ((if ccache \<and> \<not> link then [lit ''ccache''] else []) @ args') = (status, Some out, Some err, True)"
    and "status \<noteq> 0"
  shows "wrapper_main env ccache link (Some text) args target = (ExitFailure, True)"
  using assms by (auto simp: wrapper_main_def check_no_output_def Let_def split: if_splits)

end
