(* ===== verification/Spec2Isabelle.thy ===== *)
theory Spec2Isabelle
  imports PipeSys CharModules OtherModules CharDev BlkDev SleepWake ErrTable FileCopy RwLock KDiv UserPages
    KernIoctl TimeUtils MmapUser KernList KernTiming Lis Banking
    EventCond EventLock OmpSort IPow CacheAlgo SpinLock SyncQueue MsgQueue Exchanger Phonebook MmapFile
    EchoServer SourceChecks Licenses CiImages CompileWrap
begin

text \<open>
  A verification library for the Linux drivers and programs of this repository.

  \<^bold>\<open>The program.\<close> The repository collects loadable kernel modules (\<open>src/src/kernel_standalone\<close> and
  \<open>src/src/kernel\<close>), a set of headers for user space programs (\<open>src/src/include\<close>), and many small programs
  (\<open>src/src/examples\<close>, \<open>src/src/exercises\<close>). The modules share the interfaces of the kernel: file operations that
  copy between user memory and buffers, registration calls that must be undone in order, wait queues and
  locks. The programs share the headers: the \<open>CHECK\<close> layer over system calls, the time arithmetic, a ring
  buffer and a wrapper of \<open>select\<close>.

  \<^bold>\<open>Common ground.\<close>
  \<^item> \<open>Prelude\<close>: the result types. An \<open>outcome\<close> is \<open>Done\<close> with a value or \<open>Crash\<close> with a reason (a \<open>BUG_ON\<close>,
    a null pointer, an access outside a buffer, a division by zero, a use after free, a signed overflow), so
    that absence of crashes is part of every theorem that says \<open>Done\<close>. Checked array accesses, loops over a range,
    array updates and facts on 32 and 64 bit words.
  \<^item> \<open>KernelApi\<close>: user memory, and \<open>copy_to_user\<close>, \<open>copy_from_user\<close>, \<open>clear_user\<close> and \<open>put_user\<close> as a record of
    functions with their documented laws; two instances of the record satisfy them.
  \<^item> \<open>RingFifo\<close>: ring positions, runs of labelled step relations (\<open>steps\<close>), states that can be reached
    (\<open>can_reach\<close>), and the locales \<open>channel\<close> and \<open>fifo_channel\<close>: what a queue promises, bounded or not, and that
    nothing is lost, duplicated or reordered. They are interpreted on the two pipes of the kernel, on the ring
    of user space, on the synchronized queue and on the message queue.
  \<^item> \<open>Threads\<close>: how many threads of a state are at a given place, and how a step of one thread changes that number;
    the invariants and the bounds of the programs with threads are written with it.
  \<^item> \<open>ModuleLife\<close>: a ledger of the resources that a module holds, with the order in which they have to be
    given back; the registration calls as functions on the ledger, whose results are an environment;
    the locale \<open>module_lifecycle\<close>: a load that fails leaves nothing behind, an unload gives everything back.

  \<^bold>\<open>Kernel modules.\<close>
  \<^item> \<open>SimplePipe\<close> (\<open>kernel_standalone/simple_pipe/main.c\<close>): the ring, its file operations at the width of the
    code, totality and exact results of read and write, the refinement to a bounded queue.
  \<^item> \<open>KPipe\<close> and \<open>PipeSys\<close> (\<open>kernel_standalone/pipe/main.c\<close>): the operations under the lock, and a step relation
    for any number of threads that open, read, write, wait, wake and close one pipe. Order of the bytes
    over all interleavings, mutual exclusion, no lost wake-up, progress; and what a signal breaks.
  \<^item> \<open>CharModules\<close> and \<open>OtherModules\<close> (\<open>init\<close> and \<open>exit\<close> of \<open>aaa\<close>, \<open>betternull\<close>, \<open>blkdev\<close>, \<open>cant_kill\<close>, \<open>chrdev\<close>,
    \<open>clipboard\<close>, \<open>clipboard_basic\<close>, \<open>irqcatch\<close>, \<open>markveltzer\<close>, \<open>myempty\<close>, \<open>mynull\<close>, \<open>myzero\<close>, \<open>netdev\<close>, \<open>pipe\<close>,
    \<open>simple_pipe\<close>, \<open>sleep_wakeup\<close>, \<open>use_count\<close>): the error paths of loading, for every combination of kernel calls
    that fail.
  \<^item> \<open>CharDev\<close>: the read and write operations of these devices. \<open>BlkDev\<close>: the transfers and requests of the
    disk in memory. \<open>SleepWake\<close>: the \<open>ioctl\<close>s that sleep and wake up, as a step relation.
  \<^item> \<open>KDiv\<close>, \<open>KernIoctl\<close>, \<open>KernTiming\<close> (\<open>kernel/mod_div.c\<close>; \<open>device.inc\<close>, \<open>mod_kmem_cache.c\<close>, \<open>mod_spin_lock.c\<close>,
    \<open>mod_kmalloc.c\<close>, \<open>mod_poll.c\<close>; \<open>mod_timing.c\<close>): arithmetic at 64 bits, the registration code that the modules
    include, allocators and locks.
  \<^item> \<open>UserPages\<close> (\<open>kernel/mod_get_user_pages.c\<close>) and \<open>MmapUser\<close> (\<open>kernel/mod_mmap_to_user.c\<close>): user pages mapped into the
    kernel and kernel memory mapped into a process, down to the byte behind each address.
  \<^item> \<open>MmapFile\<close> (\<open>kernel/mod_mmap.c\<close>, \<open>mod_mmap_simple.c\<close>): two modules behind one locale (\<open>mmap_module\<close>), which give back the
    pages of a mapping that the process removes, and free them twice when it is removed by their own command.
  \<^item> \<open>KernList\<close> (\<open>kernel/mod_list.c\<close>, \<open>list.inc\<close>): a doubly linked list on an explicit store of links, refined to a queue.

  \<^bold>\<open>User space.\<close>
  \<^item> \<open>ErrUtils\<close> and \<open>ErrTable\<close> (\<open>include/err_utils.h\<close>): the error table, its two searches, the checks and the exit
    status. \<open>TimeUtils\<close> (\<open>timespec_utils.h\<close>, \<open>timeval_utils.h\<close>): signed arithmetic in which overflow is no result.
  \<^item> \<open>CircPipe\<close> (\<open>CircularPipe.hh\<close>) and \<open>FileCopy\<close> (\<open>Selector.hh\<close>, \<open>copy_file_select.cc\<close>, \<open>copy_file_read_write.cc\<close>): the
    ring and the two loops that copy a file; they end, and the copy is the file.
  \<^item> \<open>RwLock\<close> (\<open>exercises/multi_threading/readers_writer_lock\<close>): three implementations of unlocking behind one locale
    (\<open>rw_unlock\<close>), the workers of the test program as a step relation; the assertions hold and the program ends.
  \<^item> \<open>EventCond\<close> and \<open>EventLock\<close> (\<open>exercises/linux_api/condition_using_eventfd\<close>): a condition variable made of a hundred \<open>eventfd\<close>
    counters, and a lock that prefers writers on two of them; for up to two hundred workers every waiter finds a
    slot, the assertions hold, and the program ends within 208 steps for each round of each worker.
  \<^item> \<open>Lis\<close> and \<open>Banking\<close> (\<open>exercises/c/longest_increasing_subsequence\<close>, \<open>exercises/design_patterns/banking\<close>): a recursive
    search against its specification; a proxy against the object it stands for.
  \<^item> \<open>SpinLock\<close>, \<open>SyncQueue\<close>, \<open>MsgQueue\<close>, \<open>Exchanger\<close> (\<open>exercises/c/spinlock\<close>, \<open>exercises/c/message_queue\<close>,
    \<open>exercises/cpp/multi_threading/synchronized_queue_cpp\<close> and \<open>exchanger\<close>): programs with threads as step relations, one step
    for each critical section, with spurious wake-ups: mutual exclusion, the order of messages, assertions that
    hold, programs that end and one that can hang.
  \<^item> \<open>OmpSort\<close>, \<open>IPow\<close>, \<open>CacheAlgo\<close> (\<open>examples/openmp/merge_sort.cc\<close>, \<open>examples/arithmetic/ipow.c\<close>,
    \<open>exercises/optimization/cache_line_and_algo\<close>): a sort, a power and a blockwise computation, each against its specification.
  \<^item> \<open>Phonebook\<close> (\<open>exercises/c/phonebook/phonebook_solution_full.c\<close>): a table of fixed strings under the commands of an input text.
  \<^item> \<open>EchoServer\<close> (\<open>exercises/server_design/epoll_echo_server/solution_write.cc\<close>): a server on \<open>epoll\<close> with a \<open>CircularPipe\<close> for each
    connection; it rests on the contract of the pipe.

  \<^bold>\<open>Scripts.\<close> \<open>PyStr\<close> has the strings of Python that the scripts of \<open>src/scripts\<close> use. \<open>SourceChecks\<close> (\<open>check_all.py\<close>,
  \<open>check_have_solutions.py\<close>) states the style rules and shows that the report is exactly their violations. \<open>Licenses\<close>
  (\<open>check_license.py\<close>, \<open>switch_license.py\<close>): the check passes after the switch. \<open>CiImages\<close> (\<open>ci_image_list.py\<close>, \<open>ci_image_prune.py\<close>):
  grouping of versions by time, and what pruning deletes. \<open>CompileWrap\<close> (\<open>wrapper_compile.py\<close>): the command that is run.

  \<^bold>\<open>Loops, bounds and fuel.\<close> Loops over a buffer or a list are structural recursion. A loop that depends on the
  kernel takes the list of the kernel's answers as its bound, with \<open>None\<close> when it runs out: the file copy
  ends within two rounds for every byte and one more, the loop of \<open>copy_file_read_write\<close> within one for every
  byte and one more. Printing a linked list takes a number of rounds, and one more than the number of
  values is enough. The waiting loop of the clipboard is shown not to end for any number of rounds. Runs of the step
  relations are finite but of any length and any number of threads; those of the lock, queue and
  exchanger programs are shown to be bounded, up to two more steps for each spurious wake-up. The recursion of the merge
  sort takes a depth, and a depth of the length of the array is enough; the loop of the phone book ends because each
  round consumes input. Counters of threads and open files are kept below the width of the C type.

  \<^bold>\<open>Not modelled.\<close> Messages to the kernel log and to the terminal, except where a call exists to print a value;
  memory ordering below the granularity of the steps; kernel functions other than by their results and
  documented effects; modules that only print or wrap one call of the kernel; the examples of language and
  library features; the other servers, signal handlers and graphics.
\<close>

end
